(* ===== verification/Prelude.thy ===== *)
theory Prelude
  imports Main "HOL-Library.Word" "HOL-Library.Code_Target_Numeral"
begin

text \<open>
  Shared vocabulary of the development: the C integer types as words, the 64-bit
  \<open>size_t\<close> arithmetic on natural numbers with its wrap-around written out, block copies
  into byte arrays, ring buffers, the byte order of the wire, and the interface of a bounded
  first-in first-out queue that several kernel components implement.
\<close>

unbundle bit_operations_syntax

section \<open>Types and rule collections\<close>

type_synonym u8 = "8 word"
type_synonym u16 = "16 word"
type_synonym u32 = "32 word"
type_synonym u64 = "64 word"
type_synonym bytes = "u8 list"

named_theorems ring_simps \<open>ring buffer rewriting\<close>
named_theorems word_nat \<open>from words to naturals under a bound\<close>
named_theorems wire_simps \<open>byte order conversions\<close>

section \<open>Error numbers\<close>

text \<open>The values of \<open>kernel/include/user/errno.h\<close> the modelled code returns.\<close>

abbreviation (input) EPERM :: int where "EPERM \<equiv> 1"
abbreviation (input) ENOENT :: int where "ENOENT \<equiv> 2"
abbreviation (input) EINTR :: int where "EINTR \<equiv> 4"
abbreviation (input) EIO :: int where "EIO \<equiv> 5"
abbreviation (input) EBADF :: int where "EBADF \<equiv> 9"
abbreviation (input) EAGAIN :: int where "EAGAIN \<equiv> 11"
abbreviation (input) ENOMEM :: int where "ENOMEM \<equiv> 12"
abbreviation (input) EFAULT :: int where "EFAULT \<equiv> 14"
abbreviation (input) EINVAL :: int where "EINVAL \<equiv> 22"
abbreviation (input) ENOTTY :: int where "ENOTTY \<equiv> 25"
abbreviation (input) EPIPE :: int where "EPIPE \<equiv> 32"
abbreviation (input) EMSGSIZE :: int where "EMSGSIZE \<equiv> 90"
abbreviation (input) ENOPROTOOPT :: int where "ENOPROTOOPT \<equiv> 92"
abbreviation (input) EADDRINUSE :: int where "EADDRINUSE \<equiv> 98"
abbreviation (input) ENETUNREACH :: int where "ENETUNREACH \<equiv> 101"
abbreviation (input) ECONNRESET :: int where "ECONNRESET \<equiv> 104"
abbreviation (input) ENOBUFS :: int where "ENOBUFS \<equiv> 105"
abbreviation (input) EISCONN :: int where "EISCONN \<equiv> 106"
abbreviation (input) ENOTCONN :: int where "ENOTCONN \<equiv> 107"
abbreviation (input) ETIMEDOUT :: int where "ETIMEDOUT \<equiv> 110"
abbreviation (input) ECONNREFUSED :: int where "ECONNREFUSED \<equiv> 111"
abbreviation (input) EHOSTUNREACH :: int where "EHOSTUNREACH \<equiv> 113"
abbreviation (input) EALREADY :: int where "EALREADY \<equiv> 114"
abbreviation (input) EINPROGRESS :: int where "EINPROGRESS \<equiv> 115"

text \<open>The readiness bits of \<open>kernel/include/user/user_poll.h\<close>.\<close>

abbreviation (input) POLLIN :: int where "POLLIN \<equiv> 1"
abbreviation (input) POLLOUT :: int where "POLLOUT \<equiv> 4"
abbreviation (input) POLLERR :: int where "POLLERR \<equiv> 8"
abbreviation (input) POLLHUP :: int where "POLLHUP \<equiv> 16"

section \<open>64-bit sizes on natural numbers\<close>

text \<open>
  A \<open>size_t\<close> or \<open>uintptr_t\<close> whose value indexes memory is a natural number below
  \<open>2 ^ 64\<close>; the operations that can leave that range wrap around.
\<close>

definition sz_add :: "nat \<Rightarrow> nat \<Rightarrow> nat" where
  "sz_add a b = (a + b) mod 2 ^ 64"

definition sz_sub :: "nat \<Rightarrow> nat \<Rightarrow> nat" where
  "sz_sub a b = (a + (2 ^ 64 - b mod 2 ^ 64)) mod 2 ^ 64"

definition sz_mul :: "nat \<Rightarrow> nat \<Rightarrow> nat" where
  "sz_mul a b = (a * b) mod 2 ^ 64"

lemma sz_add_small [simp]: "a + b < 2 ^ 64 \<Longrightarrow> sz_add a b = a + b"
  by (simp add: sz_add_def)

lemma sz_sub_small [simp]: "b \<le> a \<Longrightarrow> a < 2 ^ 64 \<Longrightarrow> sz_sub a b = a - b"
proof -
  assume "b \<le> a" and "a < 2 ^ 64"
  then have "a + (2 ^ 64 - b mod 2 ^ 64) = (a - b) + 2 ^ 64" and "a - b < 2 ^ 64"
    by auto
  then show ?thesis by (simp add: sz_sub_def)
qed

lemma sz_mul_small [simp]: "a * b < 2 ^ 64 \<Longrightarrow> sz_mul a b = a * b"
  by (simp add: sz_mul_def)

lemma sz_add_less [simp]: "sz_add a b < 2 ^ 64"
  and sz_sub_less [simp]: "sz_sub a b < 2 ^ 64"
  and sz_mul_less [simp]: "sz_mul a b < 2 ^ 64"
  by (simp_all add: sz_add_def sz_sub_def sz_mul_def)

section \<open>Words under a bound\<close>

lemma unat_plus_small [word_nat]:
  fixes a b :: "'a::len word"
  shows "unat a + unat b < 2 ^ LENGTH('a) \<Longrightarrow> unat (a + b) = unat a + unat b"
  by (simp add: unat_word_ariths)

lemma unat_minus_small [word_nat]:
  fixes a b :: "'a::len word"
  shows "unat b \<le> unat a \<Longrightarrow> unat (a - b) = unat a - unat b"
  by (simp add: unat_sub_if_size word_size)

lemma unat_mult_small [word_nat]:
  fixes a b :: "'a::len word"
  shows "unat a * unat b < 2 ^ LENGTH('a) \<Longrightarrow> unat (a * b) = unat a * unat b"
  by (simp add: unat_word_ariths)

lemma unat_of_nat_small [word_nat]:
  "n < 2 ^ LENGTH('a::len) \<Longrightarrow> unat (of_nat n :: 'a word) = n"
  by (simp add: unat_of_nat)

lemma unat_u32: "unat (w :: u32) < 2 ^ 32"
  using unsigned_less [where ?'a = nat, of w] by simp

section \<open>Block copies into byte arrays\<close>

text \<open>
  \<open>blit dst off src\<close> is \<open>memcpy(dst + off, src, length src)\<close> for a block that lies
  inside \<open>dst\<close>.
\<close>

definition blit :: "'a list \<Rightarrow> nat \<Rightarrow> 'a list \<Rightarrow> 'a list" where
  "blit dst off src = take off dst @ src @ drop (off + length src) dst"

lemma length_blit [simp]: "off + length src \<le> length dst \<Longrightarrow> length (blit dst off src) = length dst"
  by (simp add: blit_def)

lemma blit_Nil [simp]: "blit dst off [] = dst"
  by (simp add: blit_def)

lemma nth_blit:
  assumes "off + length src \<le> length dst" and "i < length dst"
  shows "blit dst off src ! i = (if off \<le> i \<and> i < off + length src then src ! (i - off) else dst ! i)"
  using assms by (auto simp: blit_def nth_append min_def)

section \<open>Ring buffers\<close>

text \<open>
  The kernel's rings copy a block in at most two pieces, the second one starting again at
  index 0. \<open>ring_put\<close> and \<open>ring_get\<close> are those two copies; \<open>ring_slice\<close> is the
  abstract reading of a ring, position by position modulo its size.
\<close>

definition ring_put :: "'a list \<Rightarrow> nat \<Rightarrow> 'a list \<Rightarrow> 'a list" where
  "ring_put buf at data =
     (let first = min (length buf - at) (length data)
      in blit (blit buf at (take first data)) 0 (drop first data))"

definition ring_get :: "'a list \<Rightarrow> nat \<Rightarrow> nat \<Rightarrow> 'a list" where
  "ring_get buf at n =
     (let first = min (length buf - at) n
      in take first (drop at buf) @ take (n - first) buf)"

definition ring_slice :: "'a list \<Rightarrow> nat \<Rightarrow> nat \<Rightarrow> 'a list" where
  "ring_slice buf at n = map (\<lambda>k. buf ! ((at + k) mod length buf)) [0..<n]"

lemma length_ring_slice [simp]: "length (ring_slice buf at n) = n"
  by (simp add: ring_slice_def)

lemma ring_slice_0 [simp]: "ring_slice buf at 0 = []"
  by (simp add: ring_slice_def)

lemma nth_ring_slice [simp]:
  "k < n \<Longrightarrow> ring_slice buf at n ! k = buf ! ((at + k) mod length buf)"
  by (simp add: ring_slice_def)

lemma ring_pos_add:
  "m \<le> i \<Longrightarrow> ((a + m) mod L + (i - m)) mod L = (a + i) mod (L::nat)"
proof -
  assume "m \<le> i"
  then have "a + m + (i - m) = a + i" by simp
  then show ?thesis by (metis mod_add_left_eq)
qed

lemma ring_slice_add:
  "ring_slice buf at (m + n) = ring_slice buf at m @ ring_slice buf ((at + m) mod length buf) n"
proof (rule nth_equalityI)
  fix i assume i: "i < length (ring_slice buf at (m + n))"
  show "ring_slice buf at (m + n) ! i =
      (ring_slice buf at m @ ring_slice buf ((at + m) mod length buf) n) ! i"
  proof (cases "i < m")
    case True
    then show ?thesis by (simp add: nth_append)
  next
    case False
    then have "i - m < n" "m \<le> i" using i by simp_all
    then show ?thesis using i by (simp only: nth_append length_ring_slice nth_ring_slice
      if_False ring_pos_add False)
  qed
qed simp

lemma ring_slice_mod [simp]: "ring_slice buf (at mod length buf) n = ring_slice buf at n"
  by (simp add: ring_slice_def mod_add_left_eq)

lemma take_ring_slice [simp]: "k \<le> n \<Longrightarrow> take k (ring_slice buf at n) = ring_slice buf at k"
  by (rule nth_equalityI) auto

lemma drop_ring_slice [simp]:
  "drop k (ring_slice buf at n) = ring_slice buf ((at + k) mod length buf) (n - k)"
  by (rule nth_equalityI) (auto simp: mod_add_left_eq add.assoc)

lemma ring_wrap_nth:
  assumes "at < (L::nat)" and "k < L"
  shows "(at + k) mod L = (if at + k < L then at + k else at + k - L)"
  using assms by (auto simp: mod_if)

lemma ring_get_slice:
  assumes "at < length buf" and "n \<le> length buf"
  shows "ring_get buf at n = ring_slice buf at n"
proof (cases "at + n \<le> length buf")
  case True
  then have "ring_get buf at n = take n (drop at buf)"
    by (simp add: ring_get_def min_def)
  also have "\<dots> = ring_slice buf at n"
    using True assms by (intro nth_equalityI) auto
  finally show ?thesis .
next
  case False
  let ?f = "length buf - at"
  from False have "min ?f n = ?f" by simp
  then have "ring_get buf at n = drop at buf @ take (n - ?f) buf"
    by (simp add: ring_get_def)
  also have "\<dots> = ring_slice buf at n"
  proof (rule nth_equalityI)
    show "length (drop at buf @ take (n - ?f) buf) = length (ring_slice buf at n)"
      using False assms by simp
  next
    fix k assume "k < length (drop at buf @ take (n - ?f) buf)"
    then have k: "k < n" using False assms by simp
    then have "k < length buf" using assms by simp
    with assms(1) have w: "(at + k) mod length buf = (if at + k < length buf then at + k else at + k - length buf)"
      by (rule ring_wrap_nth)
    show "(drop at buf @ take (n - ?f) buf) ! k = ring_slice buf at n ! k"
    proof (cases "k < ?f")
      case True
      with k assms w show ?thesis by (simp add: nth_append)
    next
      case F: False
      then have "k - ?f = at + k - length buf" "\<not> at + k < length buf" using assms by simp_all
      with F k assms w False show ?thesis by (simp add: nth_append)
    qed
  qed
  finally show ?thesis .
qed

lemma length_ring_put [simp]:
  assumes "at < length buf" and "length data \<le> length buf"
  shows "length (ring_put buf at data) = length buf"
  using assms by (auto simp: ring_put_def Let_def blit_def min_def)

text \<open>What a ring holds after a put: the new block at its positions, the old bytes elsewhere.\<close>

lemma ring_put_nth:
  assumes "at < length buf" and "length data \<le> length buf" and "p < length buf"
  shows "ring_put buf at data ! p =
    (if at \<le> p \<and> p < at + length data then data ! (p - at)
     else if p + length buf < at + length data then data ! (p + length buf - at)
     else buf ! p)"
proof (cases "at + length data \<le> length buf")
  case True
  then have "ring_put buf at data = blit buf at data"
    by (simp add: ring_put_def min_def)
  with True assms show ?thesis by (simp add: nth_blit)
next
  case False
  let ?f = "length buf - at"
  from False have "min ?f (length data) = ?f" by simp
  then have put: "ring_put buf at data = blit (blit buf at (take ?f data)) 0 (drop ?f data)"
    by (simp add: ring_put_def Let_def)
  have l: "length (blit buf at (take ?f data)) = length buf"
    using False assms by simp
  have "ring_put buf at data ! p =
      (if p < length data - ?f then data ! (?f + p)
       else if at \<le> p then data ! (p - at) else buf ! p)"
    unfolding put using False assms l by (simp add: nth_blit)
  moreover have "?f + p = p + length buf - at" using assms by simp
  moreover have "p < length data - ?f \<longleftrightarrow> p + length buf < at + length data"
    using assms False by linarith
  moreover have "p < at" if "p + length buf < at + length data"
    using that assms by linarith
  ultimately show ?thesis using assms False by auto
qed

lemma ring_put_nth_new:
  assumes "at < length buf" and "length data \<le> length buf" and "k < length data"
  shows "ring_put buf at data ! ((at + k) mod length buf) = data ! k"
proof -
  have "k < length buf" using assms by simp
  with assms(1) have w: "(at + k) mod length buf = (if at + k < length buf then at + k else at + k - length buf)"
    by (rule ring_wrap_nth)
  show ?thesis
  proof (cases "at + k < length buf")
    case True
    with w assms show ?thesis by (simp add: ring_put_nth)
  next
    case False
    then have "at + k - length buf < at" "at + k - length buf + length buf = at + k"
      using assms by linarith+
    with False w assms show ?thesis by (simp add: ring_put_nth)
  qed
qed

lemma ring_put_nth_old:
  assumes "at < length buf" and "length data \<le> k" and "k < length buf"
  shows "ring_put buf at data ! ((at + k) mod length buf) = buf ! ((at + k) mod length buf)"
proof -
  have w: "(at + k) mod length buf = (if at + k < length buf then at + k else at + k - length buf)"
    using assms(1,3) by (rule ring_wrap_nth)
  show ?thesis
  proof (cases "at + k < length buf")
    case True
    with w assms show ?thesis by (simp add: ring_put_nth)
  next
    case False
    then have "at + k - length buf < at" "at + k - length buf + length buf = at + k"
      using assms by linarith+
    with False w assms show ?thesis by (simp add: ring_put_nth)
  qed
qed

lemma ring_pos_shift:
  assumes "p < (L::nat)" and "at < L"
  obtains k where "k < L" and "(at + k) mod L = p"
proof
  let ?k = "(p + L - at) mod L"
  show "?k < L" using assms by simp
  have "(at + (p + L - at)) mod L = p" using assms by simp
  then show "(at + ?k) mod L = p" by (simp add: mod_add_right_eq)
qed

text \<open>The ring seen from \<open>at\<close>: a block put at distance \<open>m\<close>, read at distance \<open>j\<close>.\<close>

lemma ring_put_at:
  assumes "at < length buf" and "m + length data \<le> length buf" and "j < length buf"
  shows "ring_put buf ((at + m) mod length buf) data ! ((at + j) mod length buf) =
    (if m \<le> j \<and> j < m + length data then data ! (j - m) else buf ! ((at + j) mod length buf))"
proof -
  let ?L = "length buf"
  have w: "(at + m) mod ?L < ?L" using assms(1) by (intro mod_less_divisor) linarith
  show ?thesis
  proof (cases "m \<le> j")
    case True
    have pos: "((at + m) mod ?L + (j - m)) mod ?L = (at + j) mod ?L" using True by (rule ring_pos_add)
    show ?thesis
    proof (cases "j < m + length data")
      case T: True
      have "length data \<le> ?L" "j - m < length data" using T True assms(2) by linarith+
      from ring_put_nth_new [OF w this] show ?thesis using T True by (simp only: pos) simp
    next
      case F: False
      then have "length data \<le> j - m" "j - m < ?L" using assms(3) by linarith+
      from ring_put_nth_old [OF w this] show ?thesis using F by (simp only: pos) simp
    qed
  next
    case False
    let ?k = "?L - m + j"
    have "((at + m) mod ?L + ?k) mod ?L = (at + m + ?k) mod ?L" by (simp add: mod_add_left_eq)
    also have "at + m + ?k = at + j + ?L" using assms(2) by linarith
    finally have pos: "((at + m) mod ?L + ?k) mod ?L = (at + j) mod ?L" by simp
    have "length data \<le> ?k" "?k < ?L" using assms(2) False by linarith+
    from ring_put_nth_old [OF w this] show ?thesis using False by (simp only: pos) simp
  qed
qed

text \<open>Appending behind the \<open>m\<close> bytes a ring already holds.\<close>

lemma ring_slice_put:
  assumes "at < length buf" and "m + length data \<le> length buf"
  shows "ring_slice (ring_put buf ((at + m) mod length buf) data) at (m + length data) =
         ring_slice buf at m @ data"
proof (rule nth_equalityI)
  show "length (ring_slice (ring_put buf ((at + m) mod length buf) data) at (m + length data)) =
        length (ring_slice buf at m @ data)"
    by simp
next
  fix k
  assume "k < length (ring_slice (ring_put buf ((at + m) mod length buf) data) at (m + length data))"
  then have k: "k < m + length data" by simp
  let ?L = "length buf" and ?w = "(at + m) mod length buf"
  have "0 < ?L" using assms(1) by linarith
  then have L: "0 < ?L" "?w < ?L" by simp_all
  have len: "length (ring_put buf ?w data) = ?L" using assms L by simp
  show "ring_slice (ring_put buf ?w data) at (m + length data) ! k = (ring_slice buf at m @ data) ! k"
  proof (cases "k < m")
    case True
    let ?j = "?L - m + k"
    have "(?w + ?j) mod ?L = (at + m + ?j) mod ?L" by (simp add: mod_add_left_eq)
    also have "at + m + ?j = at + k + ?L" using assms True by simp
    finally have pos: "(?w + ?j) mod ?L = (at + k) mod ?L" by simp
    have "length data \<le> ?j" "?j < ?L" using assms True by auto
    from ring_put_nth_old [OF L(2) this] show ?thesis
      using True k len by (simp add: pos nth_append)
  next
    case False
    have "(?w + (k - m)) mod ?L = (at + k) mod ?L"
      using False by (simp only: ring_pos_add not_less)
    moreover have "ring_put buf ?w data ! ((?w + (k - m)) mod ?L) = data ! (k - m)"
      using assms False k L by (intro ring_put_nth_new) auto
    ultimately show ?thesis using False k len by (simp add: nth_append)
  qed
qed

text \<open>Everything a put does not cover stays: a slice that ends before the new block.\<close>

lemma ring_slice_put_before:
  assumes "at < length buf" and "m + length data \<le> length buf" and "n \<le> m"
  shows "ring_slice (ring_put buf ((at + m) mod length buf) data) at n = ring_slice buf at n"
proof -
  have "ring_slice (ring_put buf ((at + m) mod length buf) data) at n =
        take n (ring_slice (ring_put buf ((at + m) mod length buf) data) at (m + length data))"
    using assms(3) by simp
  also have "\<dots> = take n (ring_slice buf at m @ data)"
    by (simp only: ring_slice_put [OF assms(1,2)])
  finally show ?thesis using assms(3) by simp
qed

section \<open>Byte order\<close>

text \<open>
  The machine is little endian: a 16 or 32-bit field is loaded from and stored to memory low
  byte first, and \<open>htons\<close>, \<open>htonl\<close> of \<open>kernel/include/net/net.h\<close> swap the bytes.
\<close>

definition ld16 :: "bytes \<Rightarrow> nat \<Rightarrow> u16" where
  "ld16 bs i = ucast (bs ! i) OR push_bit 8 (ucast (bs ! (i + 1)))"

definition ld32 :: "bytes \<Rightarrow> nat \<Rightarrow> u32" where
  "ld32 bs i = ucast (bs ! i) OR push_bit 8 (ucast (bs ! (i + 1)))
     OR push_bit 16 (ucast (bs ! (i + 2))) OR push_bit 24 (ucast (bs ! (i + 3)))"

definition st16 :: "u16 \<Rightarrow> bytes" where
  "st16 w = [ucast w, ucast (drop_bit 8 w)]"

definition st32 :: "u32 \<Rightarrow> bytes" where
  "st32 w = [ucast w, ucast (drop_bit 8 w), ucast (drop_bit 16 w), ucast (drop_bit 24 w)]"

definition htons :: "u16 \<Rightarrow> u16" where
  "htons w = push_bit 8 w OR drop_bit 8 w"

definition htonl :: "u32 \<Rightarrow> u32" where
  "htonl w = push_bit 24 w OR (push_bit 8 w AND 0xFF0000) OR (drop_bit 8 w AND 0xFF00) OR drop_bit 24 w"

definition ld64 :: "bytes \<Rightarrow> nat \<Rightarrow> u64" where
  "ld64 bs i = foldr (\<lambda>k w. push_bit (8 * k) (ucast (bs ! (i + k))) OR w) [0..<8] 0"

lemma bit_foldr_or: "bit (foldr (\<lambda>k w. f k OR w) xs 0) n = (\<exists>k \<in> set xs. bit (f k :: 'a::len word) n)"
  by (induction xs) (auto simp: bit_or_iff)

lemma bit_u8_less: "bit (b :: u8) n \<Longrightarrow> n < 8"
  by (auto dest: bit_imp_le_length)

lemma bit_ld64:
  assumes "k < 8" and "j < 8"
  shows "bit (ld64 bs i) (8 * k + j) = bit (bs ! (i + k)) j"
proof
  assume "bit (ld64 bs i) (8 * k + j)"
  then obtain k' where k': "8 * k' \<le> 8 * k + j" "bit (bs ! (i + k')) (8 * k + j - 8 * k')"
    by (auto simp: ld64_def bit_foldr_or bit_simps simp del: upt_Suc)
  from bit_u8_less [OF k'(2)] k'(1) assms(2) have "k' = k" by linarith
  with k' show "bit (bs ! (i + k)) j" by simp
next
  assume "bit (bs ! (i + k)) j"
  with assms show "bit (ld64 bs i) (8 * k + j)"
    by (auto simp: ld64_def bit_foldr_or bit_simps simp del: upt_Suc intro!: bexI [of _ k])
qed

lemma bit_ld64':
  assumes "n < 64"
  shows "bit (ld64 bs i) n = bit (bs ! (i + n div 8)) (n mod 8)"
  using bit_ld64 [of "n div 8" "n mod 8" bs i] assms by simp

lemma ld64_eq_0: "ld64 bs i = 0 \<longleftrightarrow> (\<forall>k < 8. bs ! (i + k) = 0)"
proof
  assume "ld64 bs i = 0"
  then show "\<forall>k < 8. bs ! (i + k) = 0"
    by (auto intro!: bit_word_eqI simp flip: bit_ld64)
next
  assume "\<forall>k < 8. bs ! (i + k) = 0"
  then show "ld64 bs i = 0"
    by (intro bit_word_eqI) (simp add: bit_ld64')
qed

lemma ld64_eq_ones: "ld64 bs i = - 1 \<longleftrightarrow> (\<forall>k < 8. bs ! (i + k) = - 1)"
proof
  assume "ld64 bs i = - 1"
  then show "\<forall>k < 8. bs ! (i + k) = - 1"
    by (auto intro!: bit_word_eqI simp flip: bit_ld64)
next
  assume "\<forall>k < 8. bs ! (i + k) = - 1"
  then show "ld64 bs i = - 1"
    by (intro bit_word_eqI) (simp add: bit_ld64')
qed

lemma length_st16 [simp]: "length (st16 v) = 2" and length_st32 [simp]: "length (st32 w) = 4"
  by (simp_all add: st16_def st32_def)

lemma htons_htons [simp]: "htons (htons w) = w"
  by (rule bit_word_eqI) (auto simp: htons_def bit_simps)

lemma htonl_masks:
  "htonl w = push_bit 24 w OR (push_bit 8 w AND push_bit 16 (mask 8)) OR (drop_bit 8 w AND push_bit 8 (mask 8))
     OR drop_bit 24 w"
proof -
  have "(0xFF0000 :: u32) = push_bit 16 (mask 8)" "(0xFF00 :: u32) = push_bit 8 (mask 8)" by code_simp+
  then show ?thesis by (simp add: htonl_def)
qed

lemma bit_htonl: "n < 32 \<Longrightarrow> bit (htonl w) n = bit w (8 * (3 - n div 8) + n mod 8)"
proof -
  assume n: "n < 32"
  have m: "n mod 8 = n - 8 * (n div 8)" by (simp add: minus_mult_div_eq_mod)
  from n consider "n < 8" | "8 \<le> n \<and> n < 16" | "16 \<le> n \<and> n < 24" | "24 \<le> n \<and> n < 32"
    by fastforce
  then show ?thesis
  proof cases
    case 1
    then have "n div 8 = 0" by simp
    with m 1 show ?thesis by (auto simp: htonl_masks bit_simps dest: bit_imp_le_length)
  next
    case 2
    then have "n div 8 = 1" by (intro div_nat_eqI) simp_all
    with m 2 show ?thesis by (auto simp: htonl_masks bit_simps dest: bit_imp_le_length)
  next
    case 3
    then have "n div 8 = 2" by (intro div_nat_eqI) simp_all
    with m 3 show ?thesis by (auto simp: htonl_masks bit_simps dest: bit_imp_le_length)
  next
    case 4
    then have "n div 8 = 3" by (intro div_nat_eqI) simp_all
    with m 4 show ?thesis by (auto simp: htonl_masks bit_simps dest: bit_imp_le_length)
  qed
qed

lemma htonl_htonl [simp]: "htonl (htonl w) = w"
proof (rule bit_word_eqI)
  fix n assume "n < LENGTH(32)"
  then have n: "n < 32" "n div 8 < 4" by simp_all
  let ?k = "8 * (3 - n div 8) + n mod 8"
  have "?k < 32" "?k div 8 = 3 - n div 8" "?k mod 8 = n mod 8" using n(2) by auto
  then have "bit (htonl (htonl w)) n = bit w (8 * (3 - (3 - n div 8)) + n mod 8)" by (simp add: bit_htonl n(1))
  also have "8 * (3 - (3 - n div 8)) + n mod 8 = n" using n(2) by simp
  finally show "bit (htonl (htonl w)) n = bit w n" .
qed

lemma ld16_st16 [wire_simps]: "ld16 (st16 w @ r) 0 = w"
  by (rule bit_word_eqI) (auto simp: ld16_def st16_def bit_simps)

lemma ld32_st32 [wire_simps]: "ld32 (st32 w @ r) 0 = w"
proof (rule bit_word_eqI)
  fix n assume "n < LENGTH(32)"
  then consider "n < 8" | "8 \<le> n \<and> n < 16" | "16 \<le> n \<and> n < 24" | "24 \<le> n \<and> n < 32"
    by fastforce
  then show "bit (ld32 (st32 w @ r) 0) n = bit w n"
    by cases (auto simp: ld32_def st32_def bit_simps)
qed

text \<open>Loads from a packet that is given as the sequence of its fields.\<close>

lemma ld_skip [wire_simps]:
  "length xs \<le> i \<Longrightarrow> ld16 (xs @ ys) i = ld16 ys (i - length xs)"
  "length xs \<le> i \<Longrightarrow> ld32 (xs @ ys) i = ld32 ys (i - length xs)"
  by (simp_all add: ld16_def ld32_def nth_append Suc_diff_le numeral_2_eq_2 numeral_3_eq_3)

lemma ld_Cons [wire_simps]:
  "0 < i \<Longrightarrow> ld16 (x # ys) i = ld16 ys (i - 1)" "0 < i \<Longrightarrow> ld32 (x # ys) i = ld32 ys (i - 1)"
  using ld_skip [of "[x]" i ys] by simp_all

lemma ld_st_end [wire_simps]: "ld16 (st16 w) 0 = w" "ld32 (st32 v) 0 = v"
  using ld16_st16 [of w "[]"] ld32_st32 [of v "[]"] by simp_all

lemma nth_skip [wire_simps]: "length xs \<le> i \<Longrightarrow> (xs @ ys) ! i = ys ! (i - length xs)"
  by (simp add: nth_append)

section \<open>Bounded byte queues\<close>

text \<open>
  The contract of a bounded first-in first-out queue. \<open>push\<close> accepts the longest prefix of
  its block that fits and says how long it was; \<open>pop\<close> hands out up to \<open>k\<close> of the oldest
  elements. The pipe buffer, the loopback packet queue and the TCP send and receive rings
  implement it.
\<close>

datatype 'a fifo_op = Push "'a list" | Pop nat

fun fifo_run :: "('s \<Rightarrow> 'a list \<Rightarrow> 's \<times> nat) \<Rightarrow> ('s \<Rightarrow> nat \<Rightarrow> 's \<times> 'a list)
    \<Rightarrow> 's \<Rightarrow> 'a fifo_op list \<Rightarrow> 's \<times> 'a list \<times> 'a list" where
  "fifo_run push pop s [] = (s, [], [])"
| "fifo_run push pop s (Push xs # ops) =
     (let (s1, n) = push s xs; (s2, sent, got) = fifo_run push pop s1 ops
      in (s2, take n xs @ sent, got))"
| "fifo_run push pop s (Pop k # ops) =
     (let (s1, ys) = pop s k; (s2, sent, got) = fifo_run push pop s1 ops
      in (s2, sent, ys @ got))"

locale bounded_fifo =
  fixes inv :: "'s \<Rightarrow> bool"
    and contents :: "'s \<Rightarrow> 'a list"
    and cap :: nat
    and push :: "'s \<Rightarrow> 'a list \<Rightarrow> 's \<times> nat"
    and pop :: "'s \<Rightarrow> nat \<Rightarrow> 's \<times> 'a list"
  assumes contents_bound: "inv s \<Longrightarrow> length (contents s) \<le> cap"
    and push_count: "inv s \<Longrightarrow> snd (push s xs) = min (length xs) (cap - length (contents s))"
    and push_inv: "inv s \<Longrightarrow> inv (fst (push s xs))"
    and push_contents: "inv s \<Longrightarrow>
      contents (fst (push s xs)) = contents s @ take (snd (push s xs)) xs"
    and pop_out: "inv s \<Longrightarrow> snd (pop s k) = take k (contents s)"
    and pop_inv: "inv s \<Longrightarrow> inv (fst (pop s k))"
    and pop_contents: "inv s \<Longrightarrow> contents (fst (pop s k)) = drop k (contents s)"
begin

lemma push_room: "inv s \<Longrightarrow> length xs \<le> cap - length (contents s) \<Longrightarrow>
    contents (fst (push s xs)) = contents s @ xs"
  by (simp add: push_contents push_count)

lemma push_full: "inv s \<Longrightarrow> length (contents s) = cap \<Longrightarrow> contents (fst (push s xs)) = contents s"
  by (simp add: push_contents push_count)

text \<open>No run of pushes and pops loses, duplicates or reorders an element.\<close>

lemma run_in_order:
  assumes "inv s" and "fifo_run push pop s ops = (s', sent, got)"
  shows "inv s' \<and> contents s @ sent = got @ contents s'"
  using assms
proof (induction ops arbitrary: s s' sent got)
  case Nil
  then show ?case by simp
next
  case (Cons op ops)
  show ?case
  proof (cases op)
    case (Push xs)
    obtain s1 n where p: "push s xs = (s1, n)" by fastforce
    obtain s2 sent2 got2 where r: "fifo_run push pop s1 ops = (s2, sent2, got2)"
      by (metis prod_cases3)
    have i: "inv s1" "contents s1 = contents s @ take n xs"
      using push_inv [OF Cons.prems(1), of xs] push_contents [OF Cons.prems(1), of xs] p by auto
    from Cons.IH [OF i(1) r] i(2) Cons.prems(2) Push p r show ?thesis by auto
  next
    case (Pop k)
    obtain s1 ys where p: "pop s k = (s1, ys)" by fastforce
    obtain s2 sent2 got2 where r: "fifo_run push pop s1 ops = (s2, sent2, got2)"
      by (metis prod_cases3)
    have i: "inv s1" "contents s = ys @ contents s1"
      using pop_inv [OF Cons.prems(1), of k] pop_contents [OF Cons.prems(1), of k]
        pop_out [OF Cons.prems(1), of k] p by auto
    from Cons.IH [OF i(1) r] i(2) Cons.prems(2) Pop p r show ?thesis by auto
  qed
qed

end

end
