(* ===== verification/Pmm.thy ===== *)
theory Pmm
  imports Prelude
begin

text \<open>
  The physical memory manager (\<open>kernel/src/mm/pmm.c\<close>): one bitmap per usable region of the
  boot memory map, a first-fit search that skips whole bytes and 64-bit words, a search
  cursor, and the accounting of free pages. Each exported function runs under \<open>pmm_lock\<close>
  with interrupts off, so it is one state transformer here. The linked list
  \<open>bitmap_head\<close> is the list of its entries.
\<close>

section \<open>Memory map and bitmaps\<close>

abbreviation PAGE_SIZE :: nat where "PAGE_SIZE \<equiv> 4096"
abbreviation (input) PMM_MIN_REGION_PAGES :: nat where "PMM_MIN_REGION_PAGES \<equiv> 4"

definition PAGE_ALIGN_UP :: "nat \<Rightarrow> nat" where
  "PAGE_ALIGN_UP n = sz_add n (PAGE_SIZE - 1) div PAGE_SIZE * PAGE_SIZE"

definition PAGE_ALIGN_DOWN :: "nat \<Rightarrow> nat" where
  "PAGE_ALIGN_DOWN n = n div PAGE_SIZE * PAGE_SIZE"

datatype gbi_memmap_type = GBI_MEMMAP_USABLE | GBI_MEMMAP_RESERVED | GBI_MEMMAP_ACPI_RECLAIMABLE
  | GBI_MEMMAP_ACPI_NVS | GBI_MEMMAP_BAD_MEMORY | GBI_MEMMAP_BOOTLOADER_RECLAIMABLE
  | GBI_MEMMAP_KERNEL_AND_MODULES | GBI_MEMMAP_FRAMEBUFFER

record gbi_memmap_entry =
  mm_base :: nat
  mm_length :: nat
  mm_type :: gbi_memmap_type

record bitmap_entry =
  region_base :: nat
  header_pages :: nat
  capacity :: nat
  available_pages :: nat
  search_cursor :: nat
  bitmap :: bytes

definition BIT_SET :: "bytes \<Rightarrow> nat \<Rightarrow> bytes" where
  "BIT_SET bm i = bm[i div 8 := bm ! (i div 8) OR push_bit (i mod 8) 1]"

definition BIT_CLR :: "bytes \<Rightarrow> nat \<Rightarrow> bytes" where
  "BIT_CLR bm i = bm[i div 8 := bm ! (i div 8) AND NOT (push_bit (i mod 8) 1)]"

definition BIT_TST :: "bytes \<Rightarrow> nat \<Rightarrow> bool" where
  "BIT_TST bm i = (bm ! (i div 8) AND push_bit (i mod 8) 1 \<noteq> 0)"

fun get_max_paddr_from :: "nat \<Rightarrow> gbi_memmap_entry list \<Rightarrow> nat" where
  "get_max_paddr_from mx [] = mx"
| "get_max_paddr_from mx (e # es) =
     (if mm_type e \<noteq> GBI_MEMMAP_USABLE then get_max_paddr_from mx es
      else let end = sz_add (mm_base e) (mm_length e)
           in get_max_paddr_from (if end > mx then end else mx) es)"

definition get_max_paddr :: "gbi_memmap_entry list \<Rightarrow> nat" where
  "get_max_paddr memmap = get_max_paddr_from 0 memmap"

fun paging_get_usable_mem_size_from :: "nat \<Rightarrow> gbi_memmap_entry list \<Rightarrow> nat" where
  "paging_get_usable_mem_size_from n [] = n"
| "paging_get_usable_mem_size_from n (e # es) =
     paging_get_usable_mem_size_from
       (if mm_type e = GBI_MEMMAP_USABLE then sz_add n (mm_length e) else n) es"

definition paging_get_usable_mem_size :: "gbi_memmap_entry list \<Rightarrow> nat" where
  "paging_get_usable_mem_size memmap = paging_get_usable_mem_size_from 0 memmap"

section \<open>Marking frames\<close>

primrec bit_set_run :: "bytes \<Rightarrow> nat \<Rightarrow> nat \<Rightarrow> bytes" where
  "bit_set_run bm start 0 = bm"
| "bit_set_run bm start (Suc n) = BIT_SET (bit_set_run bm start n) (start + n)"

definition paging_mark_entry_unavailable :: "bitmap_entry \<Rightarrow> nat \<Rightarrow> nat \<Rightarrow> bitmap_entry" where
  "paging_mark_entry_unavailable entry start page_count =
     entry\<lparr>bitmap := bit_set_run (bitmap entry) start page_count,
           available_pages := sz_sub (available_pages entry) page_count\<rparr>"

text \<open>A frame that is already free is skipped, so a double free is not counted twice.\<close>

primrec bit_clr_run :: "bytes \<times> nat \<Rightarrow> nat \<Rightarrow> nat \<Rightarrow> bytes \<times> nat" where
  "bit_clr_run ba start 0 = ba"
| "bit_clr_run ba start (Suc n) =
     (case bit_clr_run ba start n of (bm, avail) \<Rightarrow>
        if \<not> BIT_TST bm (start + n) then (bm, avail)
        else (BIT_CLR bm (start + n), sz_add avail 1))"

definition paging_mark_entry_available :: "bitmap_entry \<Rightarrow> nat \<Rightarrow> nat \<Rightarrow> bitmap_entry" where
  "paging_mark_entry_available entry start page_count =
     (case bit_clr_run (bitmap entry, available_pages entry) start page_count of (bm, avail) \<Rightarrow>
        entry\<lparr>bitmap := bm, available_pages := avail\<rparr>)"

section \<open>Initialisation\<close>

text \<open>\<open>sizeof(bitmap_entry_t)\<close>: a pointer and five 64-bit words.\<close>

abbreviation sizeof_bitmap_entry :: nat where "sizeof_bitmap_entry \<equiv> 48"

definition pmm_init_region :: "gbi_memmap_entry \<Rightarrow> bitmap_entry option" where
  "pmm_init_region region =
     (if mm_type region \<noteq> GBI_MEMMAP_USABLE then None
      else
        let base = PAGE_ALIGN_UP (mm_base region);
            end = PAGE_ALIGN_DOWN (sz_add (mm_base region) (mm_length region))
        in if end \<le> base then None
        else
          let total_pages = (end - base) div PAGE_SIZE;
              header_bytes = sizeof_bitmap_entry + (total_pages + 7) div 8;
              hdr_pages = (header_bytes + PAGE_SIZE - 1) div PAGE_SIZE
          in if total_pages < hdr_pages + PMM_MIN_REGION_PAGES then None
          else
            let bm = \<lparr>region_base = base, header_pages = hdr_pages,
                      capacity = total_pages - hdr_pages,
                      available_pages = total_pages - hdr_pages,
                      search_cursor = 0,
                      bitmap = replicate ((total_pages + 7) div 8) 0\<rparr>
            in Some (paging_mark_entry_unavailable bm 0 hdr_pages))"

fun pmm_init :: "gbi_memmap_entry list \<Rightarrow> bitmap_entry list" where
  "pmm_init [] = []"
| "pmm_init (r # rs) =
     (case pmm_init_region r of None \<Rightarrow> pmm_init rs | Some bm \<Rightarrow> bm # pmm_init rs)"

section \<open>Searching for free frames\<close>

text \<open>
  The stride of one turn of the search loop: 64 or 8 when a whole aligned word or byte is
  all used or all free, 0 when the bit has to be looked at alone; with it the bits read.
\<close>

definition find_step :: "bytes \<Rightarrow> nat \<Rightarrow> nat \<Rightarrow> nat \<times> u64" where
  "find_step bm i end =
     (let sb = (if i mod 64 = 0 \<and> i + 64 \<le> end then
                  let bits = ld64 bm (i div 8)
                  in (if bits = - 1 \<or> bits = 0 then (64, bits) else (0, bits))
                else (0, 0))
      in if fst sb = 0 \<and> i mod 8 = 0 \<and> i + 8 \<le> end then
           let bits = ucast (bm ! (i div 8))
           in (if bits = 0xFF \<or> bits = 0 then (8, bits) else (0, bits))
         else sb)"

function find_loop :: "bytes \<Rightarrow> nat \<Rightarrow> nat \<Rightarrow> nat \<Rightarrow> nat \<Rightarrow> nat \<Rightarrow> int" where
  "find_loop bm count end i free_run run_start =
     (if i < end then
        let (step, bits) = find_step bm i end in
        if step \<noteq> 0 then
          if bits \<noteq> 0 then find_loop bm count end (i + step) 0 run_start
          else
            let run_start = (if free_run = 0 then i else run_start);
                free_run = free_run + step
            in if free_run \<ge> count then int run_start
               else find_loop bm count end (i + step) free_run run_start
        else if BIT_TST bm i then find_loop bm count end (i + 1) 0 run_start
        else
          let run_start = (if free_run = 0 then i else run_start);
              free_run = free_run + 1
          in if free_run = count then int run_start
             else find_loop bm count end (i + 1) free_run run_start
      else - 1)"
  by pat_completeness auto
termination
  by (relation "measure (\<lambda>(bm, count, end, i, r, s). end - i)") auto

declare find_loop.simps [simp del]

definition paging_bitmap_find_free_in_range :: "bytes \<Rightarrow> nat \<Rightarrow> nat \<Rightarrow> nat \<Rightarrow> int" where
  "paging_bitmap_find_free_in_range bm count begin end =
     (if count = 0 \<or> begin \<ge> end then - 1 else find_loop bm count end begin 0 0)"

definition paging_bitmap_find_free :: "bitmap_entry \<Rightarrow> nat \<Rightarrow> int \<times> bitmap_entry" where
  "paging_bitmap_find_free entry count =
     (if count = 0 \<or> count > capacity entry then (- 1, entry)
      else
        let cursor = (if search_cursor entry \<ge> capacity entry then 0 else search_cursor entry);
            start1 = paging_bitmap_find_free_in_range (bitmap entry) count cursor (capacity entry);
            start = (if start1 < 0 \<and> cursor \<noteq> 0
                     then paging_bitmap_find_free_in_range (bitmap entry) count 0 cursor
                     else start1)
        in if start \<ge> 0 then
             let next = nat start + count
             in (start, entry\<lparr>search_cursor := (if next \<ge> capacity entry then 0 else next)\<rparr>)
           else (start, entry))"

section \<open>Allocation and release\<close>

fun pmm_alloc_from :: "bitmap_entry list \<Rightarrow> nat \<Rightarrow> nat \<times> bitmap_entry list" where
  "pmm_alloc_from [] page_count = (0, [])"
| "pmm_alloc_from (bm # bms) page_count =
     (if available_pages bm < page_count then
        let (p, bms') = pmm_alloc_from bms page_count in (p, bm # bms')
      else
        let (start, bm') = paging_bitmap_find_free bm page_count in
        if start < 0 then
          let (p, bms') = pmm_alloc_from bms page_count in (p, bm' # bms')
        else
          (sz_add (region_base bm') (sz_mul (header_pages bm' + nat start) PAGE_SIZE),
           paging_mark_entry_unavailable bm' (nat start) page_count # bms))"

definition pmm_try_alloc_pages :: "bitmap_entry list \<Rightarrow> nat \<Rightarrow> nat \<times> bitmap_entry list" where
  "pmm_try_alloc_pages bms page_count =
     (if page_count = 0 then (0, bms) else pmm_alloc_from bms page_count)"

text \<open>The message on the serial port aside, this is \<open>pmm_try_alloc_pages\<close>.\<close>

definition pmm_alloc_pages :: "bitmap_entry list \<Rightarrow> nat \<Rightarrow> nat \<times> bitmap_entry list" where
  "pmm_alloc_pages bms page_count = pmm_try_alloc_pages bms page_count"

definition pmm_available_pages :: "bitmap_entry list \<Rightarrow> nat" where
  "pmm_available_pages bms = foldl (\<lambda>total e. sz_add total (available_pages e)) 0 bms"

definition usable_start :: "bitmap_entry \<Rightarrow> nat" where
  "usable_start bm = sz_add (region_base bm) (sz_mul (header_pages bm) PAGE_SIZE)"

definition usable_end :: "bitmap_entry \<Rightarrow> nat" where
  "usable_end bm = sz_add (usable_start bm) (sz_mul (capacity bm) PAGE_SIZE)"

text \<open>An address in no region leaves every bitmap alone (the code logs it).\<close>

fun pmm_free_pages :: "bitmap_entry list \<Rightarrow> nat \<Rightarrow> nat \<Rightarrow> bitmap_entry list" where
  "pmm_free_pages [] paddr page_count = []"
| "pmm_free_pages (bm # bms) paddr page_count =
     (if paddr < usable_start bm \<or> paddr \<ge> usable_end bm
      then bm # pmm_free_pages bms paddr page_count
      else
        let idx = (paddr - usable_start bm) div PAGE_SIZE;
            page_count = (if sz_add idx page_count > capacity bm then capacity bm - idx else page_count);
            bm' = paging_mark_entry_available bm idx page_count
        in (if idx < search_cursor bm' then bm'\<lparr>search_cursor := idx\<rparr> else bm') # bms)"

section \<open>Bits\<close>

lemma BIT_TST_bit: "BIT_TST bm i = bit (bm ! (i div 8)) (i mod 8)"
proof -
  have "bit (bm ! (i div 8)) (i mod 8) \<longleftrightarrow> bm ! (i div 8) AND push_bit (i mod 8) 1 \<noteq> 0"
    by (simp add: bit_iff_and_push_bit_not_eq_0)
  then show ?thesis by (simp add: BIT_TST_def)
qed

lemma length_BIT [simp]: "length (BIT_SET bm i) = length bm" "length (BIT_CLR bm i) = length bm"
  by (simp_all add: BIT_SET_def BIT_CLR_def)

lemma div_mod8_eq: "i div 8 = j div 8 \<Longrightarrow> i mod 8 = j mod 8 \<Longrightarrow> i = (j::nat)"
  by (metis div_mult_mod_eq)

lemma BIT_TST_set [simp]:
  "i < 8 * length bm \<Longrightarrow> BIT_TST (BIT_SET bm i) j = (j = i \<or> BIT_TST bm j)"
  by (cases "j div 8 = i div 8")
     (auto simp: BIT_TST_bit BIT_SET_def bit_simps less_mult_imp_div_less mult.commute
        dest: div_mod8_eq)

lemma BIT_TST_clr [simp]:
  "i < 8 * length bm \<Longrightarrow> BIT_TST (BIT_CLR bm i) j = (j \<noteq> i \<and> BIT_TST bm j)"
  by (cases "j div 8 = i div 8")
     (auto simp: BIT_TST_bit BIT_CLR_def bit_simps less_mult_imp_div_less mult.commute
        dest: div_mod8_eq)

lemma length_bit_set_run [simp]: "length (bit_set_run bm start n) = length bm"
  by (induction n) simp_all

lemma BIT_TST_set_run [simp]:
  "start + n \<le> 8 * length bm \<Longrightarrow>
   BIT_TST (bit_set_run bm start n) j = (start \<le> j \<and> j < start + n \<or> BIT_TST bm j)"
  by (induction n) auto

lemma BIT_TST_replicate_0 [simp]: "i < 8 * n \<Longrightarrow> \<not> BIT_TST (replicate n 0) i"
  by (simp add: BIT_TST_bit less_mult_imp_div_less mult.commute)

section \<open>The search is a first-fit search\<close>

text \<open>
  The reference: look at every start from \<open>b\<close> on and take the first one from which
  \<open>count\<close> frames are free below \<open>e\<close>.
\<close>

definition run_free :: "bytes \<Rightarrow> nat \<Rightarrow> nat \<Rightarrow> bool" where
  "run_free bm s count = list_all (\<lambda>k. \<not> BIT_TST bm (s + k)) [0..<count]"

definition first_fit :: "bytes \<Rightarrow> nat \<Rightarrow> nat \<Rightarrow> nat \<Rightarrow> int" where
  "first_fit bm count b e =
     (case find (\<lambda>s. run_free bm s count) [b..<Suc e - count] of
        None \<Rightarrow> - 1 | Some s \<Rightarrow> int s)"

lemma run_free_iff: "run_free bm s count \<longleftrightarrow> (\<forall>k < count. \<not> BIT_TST bm (s + k))"
  by (auto simp: run_free_def list_all_iff)

lemma first_fit_hit:
  "0 < count \<Longrightarrow> b + count \<le> e \<Longrightarrow> run_free bm b count \<Longrightarrow> first_fit bm count b e = int b"
  by (simp add: first_fit_def upt_conv_Cons)

lemma first_fit_none:
  "(\<And>s. b \<le> s \<Longrightarrow> s + count \<le> e \<Longrightarrow> \<not> run_free bm s count) \<Longrightarrow> first_fit bm count b e = - 1"
  by (auto simp: first_fit_def find_None_iff split: option.split)

lemma first_fit_skip:
  assumes "b \<le> b'" and "\<And>s. b \<le> s \<Longrightarrow> s < b' \<Longrightarrow> s + count \<le> e \<Longrightarrow> \<not> run_free bm s count"
  shows "first_fit bm count b e = first_fit bm count b' e"
  using assms
proof (induction "b' - b" arbitrary: b)
  case 0
  then show ?case by simp
next
  case (Suc n)
  then have "first_fit bm count (Suc b) e = first_fit bm count b' e" by simp
  moreover have "first_fit bm count b e = first_fit bm count (Suc b) e"
  proof (cases "b < Suc e - count")
    case True
    with Suc show ?thesis by (simp add: first_fit_def upt_conv_Cons)
  qed (simp add: first_fit_def)
  ultimately show ?case by simp
qed

lemma first_fit_cases:
  obtains (none) "first_fit bm count b e = - 1"
      "\<And>s. b \<le> s \<Longrightarrow> s + count \<le> e \<Longrightarrow> \<not> run_free bm s count"
  | (hit) s where "first_fit bm count b e = int s" "b \<le> s" "s + count \<le> e \<or> count = 0 \<and> s \<le> e"
      "run_free bm s count" "\<And>s'. b \<le> s' \<Longrightarrow> s' < s \<Longrightarrow> \<not> run_free bm s' count"
proof (cases "find (\<lambda>s. run_free bm s count) [b..<Suc e - count]")
  case None
  then have "first_fit bm count b e = - 1" by (simp add: first_fit_def)
  moreover have "\<not> run_free bm s count" if "b \<le> s" "s + count \<le> e" for s
    using None that by (auto simp: find_None_iff)
  ultimately show thesis by (rule none)
next
  case (Some s)
  then obtain i where i: "i < length [b..<Suc e - count]" "run_free bm ([b..<Suc e - count] ! i) count"
      "s = [b..<Suc e - count] ! i"
      "\<forall>j<i. \<not> run_free bm ([b..<Suc e - count] ! j) count"
    by (auto simp: find_Some_iff)
  show thesis
  proof (rule hit)
    fix s' assume "b \<le> s'" "s' < s"
    with i have "s' - b < i" by simp
    with i \<open>b \<le> s'\<close> show "\<not> run_free bm s' count" by force
  qed (use Some i in \<open>auto simp: first_fit_def\<close>)
qed

text \<open>What a stride says about the bits it covers.\<close>

lemma BIT_TST_byte:
  "i mod 8 = 0 \<Longrightarrow> BIT_TST bm (i + k) = bit (bm ! (i div 8 + k div 8)) (k mod 8)"
  by (auto simp: BIT_TST_bit mod_eq_0_iff_dvd elim!: dvdE)

lemma ucast_u64_u8: "ucast (ucast (b :: u8) :: u64) = b"
  by (rule bit_word_eqI) (simp add: bit_simps)

lemma find_step_cases:
  assumes "find_step bm i end = (step, bits)" and "step \<noteq> 0"
  shows "i + step \<le> end" and "bits = 0 \<Longrightarrow> k < step \<Longrightarrow> \<not> BIT_TST bm (i + k)"
    and "bits \<noteq> 0 \<Longrightarrow> k < step \<Longrightarrow> BIT_TST bm (i + k)"
proof -
  consider (word) "i mod 64 = 0" "i + 64 \<le> end" "step = 64" "bits = ld64 bm (i div 8)" "bits = - 1 \<or> bits = 0"
    | (one) "i mod 8 = 0" "i + 8 \<le> end" "step = 8" "bits = ucast (bm ! (i div 8))" "bits = 0xFF \<or> bits = 0"
    using assms by (auto simp: find_step_def Let_def split: if_splits)
  then have "i + step \<le> end \<and> (k < step \<longrightarrow> BIT_TST bm (i + k) = (bits \<noteq> 0))"
  proof cases
    case word
    have i: "i mod 8 = 0" using word(1) by presburger
    have "bm ! (i div 8 + k div 8) = (if bits = 0 then 0 else - 1)" if "k < 64"
      using that word(4,5) ld64_eq_0 [of bm "i div 8"] ld64_eq_ones [of bm "i div 8"]
      by (auto simp: less_mult_imp_div_less)
    with word i show ?thesis by (auto simp: BIT_TST_byte)
  next
    case one
    have "bm ! (i div 8) = (if bits = 0 then 0 else - 1)"
      using one(4,5) ucast_u64_u8 [of "bm ! (i div 8)"] by auto
    with one show ?thesis by (auto simp: BIT_TST_byte)
  qed
  then show "i + step \<le> end" and "bits = 0 \<Longrightarrow> k < step \<Longrightarrow> \<not> BIT_TST bm (i + k)"
    and "bits \<noteq> 0 \<Longrightarrow> k < step \<Longrightarrow> BIT_TST bm (i + k)"
    by auto
qed

text \<open>
  The loop head \<open>(i, r)\<close> stands for a search from \<open>i - r\<close> whose first \<open>r\<close> frames are
  known to be free. A used block moves that start past it, a free block can complete it.
\<close>

lemma first_fit_used_block:
  assumes "r < count" and "r \<le> i" and "0 < step" and u: "\<And>k. k < step \<Longrightarrow> BIT_TST bm (i + k)"
  shows "first_fit bm count (i - r) end = first_fit bm count (i + step) end"
proof (rule first_fit_skip)
  fix t assume t: "i - r \<le> t" "t < i + step"
  show "\<not> run_free bm t count"
  proof (cases "t \<le> i")
    case True
    with t assms have "i - t < count" "t + (i - t) = i" by auto
    with u [of 0] \<open>0 < step\<close> show ?thesis by (auto simp: run_free_iff)
  next
    case False
    with t u [of "t - i"] assms(1) show ?thesis by (force simp: run_free_iff)
  qed
qed (use assms in simp)

lemma first_fit_free_block:
  assumes "r < count" and "r \<le> i" and p: "\<And>k. i - r \<le> k \<Longrightarrow> k < i \<Longrightarrow> \<not> BIT_TST bm k"
    and "i + step \<le> end" and c: "count \<le> r + step" and f: "\<And>k. k < step \<Longrightarrow> \<not> BIT_TST bm (i + k)"
  shows "first_fit bm count (i - r) end = int (i - r)"
proof (rule first_fit_hit)
  show "run_free bm (i - r) count"
  proof (unfold run_free_iff, intro allI impI)
    fix k assume k: "k < count"
    show "\<not> BIT_TST bm (i - r + k)"
    proof (cases "k < r")
      case True
      with assms(2) show ?thesis by (intro p) auto
    next
      case False
      with k c assms(2) have "i - r + k = i + (k - r)" "k - r < step" by auto
      with f show ?thesis by simp
    qed
  qed
qed (use assms in auto)

lemma find_loop_first_fit:
  assumes "r < count" and "r \<le> i" and "\<And>k. i - r \<le> k \<Longrightarrow> k < i \<Longrightarrow> \<not> BIT_TST bm k"
    and "0 < r \<Longrightarrow> s = i - r"
  shows "find_loop bm count end i r s = first_fit bm count (i - r) end"
  using assms
proof (induction bm count "end" i r s rule: find_loop.induct)
  case (1 bm count "end" i r s)
  note prems = "1.prems"
  note used = first_fit_used_block [OF prems(1,2), where bm = bm]
  note hit = first_fit_free_block [OF prems(1,2,3)]
  show ?case
  proof (cases "i < end")
    case False
    have "first_fit bm count (i - r) end = - 1"
      by (rule first_fit_none) (use False prems in auto)
    with False show ?thesis by (simp add: find_loop.simps [of bm count "end" i])
  next
    case True
    obtain step bits where fs: "find_step bm i end = (step, bits)" by fastforce
    note IH = "1.IH" [OF True fs [symmetric] refl]
    show ?thesis
    proof (cases "step = 0")
      case s0: True
      show ?thesis
      proof (cases "BIT_TST bm i")
        case b: True
        have "find_loop bm count end (i + 1) 0 s = first_fit bm count (i + 1 - 0) end"
          using s0 b prems(1) by (intro IH(3)) auto
        with used [of 1] True fs s0 b show ?thesis
          by (simp add: find_loop.simps [of bm count "end" i])
      next
        case b: False
        let ?s = "if r = 0 then i else s"
        have rs: "?s = i - r" using prems(4) by simp
        show ?thesis
        proof (cases "r + 1 = count")
          case True
          with hit [of 1] b rs \<open>i < end\<close> fs s0 show ?thesis
            by (simp add: find_loop.simps [of bm count "end" i])
        next
          case False
          have "find_loop bm count end (i + 1) (r + 1) ?s = first_fit bm count (i + 1 - (r + 1)) end"
          proof (rule IH(4) [OF _ b refl refl False])
            fix k assume "i + 1 - (r + 1) \<le> k" "k < i + 1"
            then show "\<not> BIT_TST bm k" using prems(3) [of k] b by (cases "k = i") auto
          qed (use s0 False prems(1,2) rs in auto)
          with False b rs \<open>i < end\<close> fs s0 show ?thesis
            by (simp add: find_loop.simps [of bm count "end" i])
        qed
      qed
    next
      case s1: False
      note st = find_step_cases [OF fs s1]
      show ?thesis
      proof (cases "bits = 0")
        case b: False
        have "find_loop bm count end (i + step) 0 s = first_fit bm count (i + step - 0) end"
          using s1 b prems(1) by (intro IH(1)) auto
        with used [of step] st(3) True fs s1 b show ?thesis
          by (simp add: find_loop.simps [of bm count "end" i])
      next
        case b: True
        let ?s = "if r = 0 then i else s"
        have rs: "?s = i - r" using prems(4) by simp
        show ?thesis
        proof (cases "count \<le> r + step")
          case c: True
          with hit [of step] st b rs True fs s1 show ?thesis
            by (simp add: find_loop.simps [of bm count "end" i])
        next
          case c: False
          have "find_loop bm count end (i + step) (r + step) ?s =
                first_fit bm count (i + step - (r + step)) end"
          proof (rule IH(2) [OF s1 _ refl refl])
            fix k assume "i + step - (r + step) \<le> k" "k < i + step"
            then show "\<not> BIT_TST bm k"
              using prems(3) [of k] st(2) [OF b, of "k - i"] by (cases "k < i") auto
          qed (use b c prems(1,2) rs in auto)
          with c b rs True fs s1 show ?thesis
            by (simp add: find_loop.simps [of bm count "end" i])
        qed
      qed
    qed
  qed
qed

lemma find_in_range_first_fit:
  "0 < count \<Longrightarrow> paging_bitmap_find_free_in_range bm count begin end = first_fit bm count begin end"
  using find_loop_first_fit [of 0 count "begin" bm 0 "end"] first_fit_none [of "begin" count "end" bm]
  by (auto simp: paging_bitmap_find_free_in_range_def)

text \<open>C2. The word-skipping search of a bitmap finds exactly what looking at every start bit
  by bit finds: the lowest start of a long enough run of free frames in the range, or
  nothing when there is none (or nothing was asked for).\<close>

theorem find_free_is_first_fit:
  "paging_bitmap_find_free_in_range bm count begin end =
     (if count = 0 then - 1 else first_fit bm count begin end)"
proof (cases "count = 0")
  case True
  then show ?thesis by (simp add: paging_bitmap_find_free_in_range_def)
next
  case False
  then show ?thesis by (simp add: find_in_range_first_fit)
qed

section \<open>Frames, accounting and the region invariant\<close>

text \<open>The frame an index stands for, and the frames a block covers.\<close>

definition frame :: "bitmap_entry \<Rightarrow> nat \<Rightarrow> nat" where
  "frame e i = region_base e + (header_pages e + i) * PAGE_SIZE"

definition block :: "nat \<Rightarrow> nat \<Rightarrow> nat set" where
  "block p n = (\<lambda>k. p + k * PAGE_SIZE) ` {..<n}"

definition free_idx :: "nat \<Rightarrow> bytes \<Rightarrow> nat set" where
  "free_idx cap bm = {i. i < cap \<and> \<not> BIT_TST bm i}"

definition used_frames :: "bitmap_entry \<Rightarrow> nat set" where
  "used_frames e = frame e ` {i. i < capacity e \<and> BIT_TST (bitmap e) i}"

definition all_frames :: "bitmap_entry \<Rightarrow> nat set" where
  "all_frames e = frame e ` {..<capacity e}"

text \<open>
  The region invariant: the bitmap covers the capacity, the counter of available pages is
  the number of clear bits, and the region lies below \<open>2 ^ 64\<close> on a page boundary.
\<close>

definition entry_wf :: "bitmap_entry \<Rightarrow> bool" where
  "entry_wf e \<longleftrightarrow> capacity e \<le> 8 * length (bitmap e)
     \<and> available_pages e = card (free_idx (capacity e) (bitmap e))
     \<and> 0 < header_pages e \<and> region_base e mod PAGE_SIZE = 0
     \<and> region_base e + (header_pages e + capacity e) * PAGE_SIZE < 2 ^ 64"

lemma finite_free_idx [simp]: "finite (free_idx cap bm)"
  by (simp add: free_idx_def)

lemma card_free_idx_le: "card (free_idx cap bm) \<le> cap"
  using card_mono [of "{..<cap}" "free_idx cap bm"] by (auto simp: free_idx_def)

lemma entry_wf_cap: "entry_wf e \<Longrightarrow> capacity e < 2 ^ 64"
  by (auto simp: entry_wf_def)

lemma frame_inj: "frame e i = frame e j \<longleftrightarrow> i = j"
  by (simp add: frame_def)

lemma block_frame: "block (frame e s) n = frame e ` {s..<s + n}"
proof -
  have "{s..<s + n} = (\<lambda>k. s + k) ` {..<n}"
    by (auto simp: image_iff le_iff_add)
  then show ?thesis by (auto simp: block_def frame_def image_image algebra_simps)
qed

lemma bit_clr_run_spec:
  assumes "bit_clr_run (bm, card (free_idx cap bm)) start n = (bm', av)"
    and "start + n \<le> cap" and "cap \<le> 8 * length bm" and "cap < 2 ^ 64"
  shows "length bm' = length bm \<and> av = card (free_idx cap bm')
    \<and> (\<forall>j. BIT_TST bm' j = (BIT_TST bm j \<and> \<not> (start \<le> j \<and> j < start + n)))"
  using assms
proof (induction n arbitrary: bm' av)
  case 0
  then show ?case by auto
next
  case (Suc n)
  obtain b a where ba: "bit_clr_run (bm, card (free_idx cap bm)) start n = (b, a)" by fastforce
  with Suc have IH: "length b = length bm" "a = card (free_idx cap b)"
      "\<And>j. BIT_TST b j = (BIT_TST bm j \<and> \<not> (start \<le> j \<and> j < start + n))"
    by auto
  show ?case
  proof (cases "BIT_TST b (start + n)")
    case False
    with Suc.prems ba have "bm' = b" "av = a" by auto
    with False IH show ?thesis by (auto simp: less_Suc_eq)
  next
    case True
    have lt: "start + n < 8 * length b" using Suc.prems IH(1) by simp
    have ins: "free_idx cap (BIT_CLR b (start + n)) = insert (start + n) (free_idx cap b)"
      using Suc.prems(2) lt by (auto simp: free_idx_def)
    moreover have "start + n \<notin> free_idx cap b" using True by (simp add: free_idx_def)
    ultimately have card: "card (free_idx cap (BIT_CLR b (start + n))) = Suc (card (free_idx cap b))"
      by simp
    have "card (free_idx cap (BIT_CLR b (start + n))) \<le> cap" by (rule card_free_idx_le)
    with card Suc.prems(4) have "sz_add a 1 = Suc (card (free_idx cap b))" by (simp add: IH(2))
    with True Suc.prems(1) ba card have "bm' = BIT_CLR b (start + n)" "av = card (free_idx cap bm')"
      by auto
    with IH lt show ?thesis by (auto simp: less_Suc_eq)
  qed
qed

lemma mark_available_wf:
  assumes "entry_wf e" and "s + n \<le> capacity e"
  shows "entry_wf (paging_mark_entry_available e s n)"
    and "used_frames (paging_mark_entry_available e s n) = used_frames e - block (frame e s) n"
proof -
  obtain bm av where r: "bit_clr_run (bitmap e, available_pages e) s n = (bm, av)" by fastforce
  have "bit_clr_run (bitmap e, card (free_idx (capacity e) (bitmap e))) s n = (bm, av)"
    using assms(1) r by (simp add: entry_wf_def)
  from bit_clr_run_spec [OF this assms(2)] assms(1) entry_wf_cap [OF assms(1)]
  have sp: "length bm = length (bitmap e)" "av = card (free_idx (capacity e) bm)"
      "\<And>j. BIT_TST bm j = (BIT_TST (bitmap e) j \<and> \<not> (s \<le> j \<and> j < s + n))"
    by (auto simp: entry_wf_def)
  have m: "paging_mark_entry_available e s n = e\<lparr>bitmap := bm, available_pages := av\<rparr>"
    by (simp add: paging_mark_entry_available_def r)
  show "entry_wf (paging_mark_entry_available e s n)"
    using assms sp(1,2) by (simp add: m entry_wf_def)
  show "used_frames (paging_mark_entry_available e s n) = used_frames e - block (frame e s) n"
    unfolding block_frame by (auto simp: used_frames_def frame_def m sp(3))
qed

lemma mark_unavailable_wf:
  assumes "entry_wf e" and "s + n \<le> capacity e" and "run_free (bitmap e) s n"
  shows "entry_wf (paging_mark_entry_unavailable e s n)"
    and "used_frames (paging_mark_entry_unavailable e s n) = used_frames e \<union> block (frame e s) n"
    and "used_frames e \<inter> block (frame e s) n = {}"
    and "n \<le> available_pages e"
proof -
  let ?e = "paging_mark_entry_unavailable e s n"
  have le: "s + n \<le> 8 * length (bitmap e)" using assms(1,2) by (simp add: entry_wf_def)
  have free: "\<not> BIT_TST (bitmap e) j" if "s \<le> j" "j < s + n" for j
    using assms(3) that by (auto simp: run_free_iff dest: spec [of _ "j - s"])
  have sub: "{s..<s + n} \<subseteq> free_idx (capacity e) (bitmap e)"
    using assms(2) free by (auto simp: free_idx_def)
  have eq: "free_idx (capacity e) (bit_set_run (bitmap e) s n) = free_idx (capacity e) (bitmap e) - {s..<s + n}"
    using le by (auto simp: free_idx_def)
  have c: "card (free_idx (capacity e) (bit_set_run (bitmap e) s n)) = available_pages e - n"
    using assms(1) sub by (simp add: eq card_Diff_subset entry_wf_def)
  show n: "n \<le> available_pages e"
    using card_mono [OF finite_free_idx sub] assms(1) by (simp add: entry_wf_def)
  have "available_pages e < 2 ^ 64"
    using assms(1) entry_wf_cap [OF assms(1)] card_free_idx_le [of "capacity e" "bitmap e"]
    by (simp add: entry_wf_def)
  with n c assms show "entry_wf ?e"
    by (simp add: entry_wf_def paging_mark_entry_unavailable_def)
  show "used_frames ?e = used_frames e \<union> block (frame e s) n"
    using le assms(2) unfolding block_frame
    by (auto simp: used_frames_def frame_def paging_mark_entry_unavailable_def)
  show "used_frames e \<inter> block (frame e s) n = {}"
    unfolding block_frame using free by (auto simp: used_frames_def frame_inj)
qed

lemma find_free_result:
  assumes "paging_bitmap_find_free e n = (start, e')"
  shows "\<exists>c. e' = e\<lparr>search_cursor := c\<rparr>"
    and "0 \<le> start \<Longrightarrow> 0 < n \<and> nat start + n \<le> capacity e \<and> run_free (bitmap e) (nat start) n"
proof -
  show "\<exists>c. e' = e\<lparr>search_cursor := c\<rparr>"
  proof (cases "e' = e")
    case True
    then have "e' = e\<lparr>search_cursor := search_cursor e\<rparr>" by simp
    then show ?thesis by blast
  next
    case False
    with assms show ?thesis
      by (auto simp: paging_bitmap_find_free_def Let_def split: if_splits)
  qed
next
  assume s: "0 \<le> start"
  have range: "nat v + n \<le> hi \<and> run_free (bitmap e) (nat v) n"
    if "paging_bitmap_find_free_in_range (bitmap e) n lo hi = v" "0 \<le> v" "n \<noteq> 0" for lo hi v
    using that by (cases rule: first_fit_cases [of "bitmap e" n lo hi])
      (auto simp: find_in_range_first_fit)
  show "0 < n \<and> nat start + n \<le> capacity e \<and> run_free (bitmap e) (nat start) n"
    using assms s range
    by (fastforce simp: paging_bitmap_find_free_def Let_def split: if_splits)
qed

lemma find_free_failed:
  "paging_bitmap_find_free e n = (start, e') \<Longrightarrow> start < 0 \<Longrightarrow> e' = e"
  by (auto simp: paging_bitmap_find_free_def Let_def split: if_splits)

definition layout :: "bitmap_entry \<Rightarrow> nat \<times> nat \<times> nat" where
  "layout e = (region_base e, header_pages e, capacity e)"

lemma layout_frames: "layout e = layout e' \<Longrightarrow> frame e = frame e' \<and> all_frames e = all_frames e'"
  by (auto simp: layout_def frame_def all_frames_def fun_eq_iff)

lemma layout_updates [simp]:
  "layout (e\<lparr>search_cursor := c\<rparr>) = layout e"
  "layout (paging_mark_entry_unavailable e s n) = layout e"
  "layout (paging_mark_entry_available e s n) = layout e"
  by (simp_all add: layout_def paging_mark_entry_unavailable_def paging_mark_entry_available_def
      split: prod.split)

lemma cursor_update [simp]:
  "entry_wf (e\<lparr>search_cursor := c\<rparr>) = entry_wf e"
  "used_frames (e\<lparr>search_cursor := c\<rparr>) = used_frames e"
  "frame (e\<lparr>search_cursor := c\<rparr>) = frame e"
  by (simp_all add: entry_wf_def used_frames_def frame_def fun_eq_iff)

lemma used_sub_all: "used_frames e \<subseteq> all_frames e"
  by (auto simp: used_frames_def all_frames_def)

lemma block_sub_all: "s + n \<le> capacity e \<Longrightarrow> block (frame e s) n \<subseteq> all_frames e"
  by (auto simp: block_frame all_frames_def)

text \<open>An allocation changes one region only, and only by taking a run of free frames in it.\<close>

definition alloc_failed :: "bitmap_entry list \<Rightarrow> nat \<Rightarrow> nat \<Rightarrow> bitmap_entry list \<Rightarrow> bool" where
  "alloc_failed es n p es' \<longleftrightarrow> p = 0 \<and> es' = es \<and>
     (\<forall>e \<in> set es. available_pages e < n \<or> fst (paging_bitmap_find_free e n) < 0)"

definition alloc_hit :: "bitmap_entry list \<Rightarrow> nat \<Rightarrow> nat \<Rightarrow> bitmap_entry list \<Rightarrow> bool" where
  "alloc_hit es n p es' \<longleftrightarrow> p \<noteq> 0 \<and> 0 < n \<and> (\<exists>us e vs c s. es = us @ e # vs \<and> p = frame e s
     \<and> s + n \<le> capacity e \<and> run_free (bitmap e) s n
     \<and> es' = us @ paging_mark_entry_unavailable (e\<lparr>search_cursor := c\<rparr>) s n # vs)"

lemma alloc_failed_Cons:
  "alloc_failed bms n p bms' \<Longrightarrow> available_pages bm < n \<or> fst (paging_bitmap_find_free bm n) < 0 \<Longrightarrow>
   alloc_failed (bm # bms) n p (bm # bms')"
  by (auto simp: alloc_failed_def)

lemma alloc_hit_Cons: "alloc_hit bms n p bms' \<Longrightarrow> alloc_hit (bm # bms) n p (bm # bms')"
  unfolding alloc_hit_def by (metis append_Cons)

lemma frame_address:
  assumes "entry_wf e" and "s < capacity e"
  shows "sz_add (region_base e) (sz_mul (header_pages e + s) PAGE_SIZE) = frame e s" and "frame e s \<noteq> 0"
  using assms by (simp_all add: entry_wf_def frame_def)

lemma alloc_from_outcome:
  assumes "pmm_alloc_from es n = (p, es')" and "\<forall>e \<in> set es. entry_wf e"
  shows "alloc_failed es n p es' \<or> alloc_hit es n p es'"
  using assms
proof (induction es n arbitrary: p es' rule: pmm_alloc_from.induct)
  case (1 n)
  then show ?case by (simp add: alloc_failed_def)
next
  case (2 bm bms n)
  obtain p2 bms2 where rec: "pmm_alloc_from bms n = (p2, bms2)" by fastforce
  obtain start bm' where ff: "paging_bitmap_find_free bm n = (start, bm')" by fastforce
  show ?case
  proof (cases "available_pages bm < n \<or> start < 0")
    case True
    then have "alloc_failed bms n p2 bms2 \<or> alloc_hit bms n p2 bms2"
      using "2.IH" "2.prems"(2) rec ff by (cases "available_pages bm < n") auto
    moreover have "p = p2" "es' = bm # bms2"
      using "2.prems"(1) True rec ff find_free_failed [OF ff] by (auto split: if_splits)
    ultimately show ?thesis using True ff by (auto intro: alloc_failed_Cons alloc_hit_Cons)
  next
    case False
    then have ok: "0 < n" "nat start + n \<le> capacity bm" "run_free (bitmap bm) (nat start) n"
      using find_free_result(2) [OF ff] by auto
    obtain c where c: "bm' = bm\<lparr>search_cursor := c\<rparr>" using find_free_result(1) [OF ff] by blast
    have "nat start < capacity bm" using ok by simp
    then have "sz_add (region_base bm) (sz_mul (header_pages bm + nat start) PAGE_SIZE) = frame bm (nat start)"
      and "frame bm (nat start) \<noteq> 0"
      using frame_address [of bm] "2.prems"(2) by auto
    with "2.prems"(1) False ff c have "p = frame bm (nat start)" "p \<noteq> 0"
      "es' = [] @ paging_mark_entry_unavailable (bm\<lparr>search_cursor := c\<rparr>) (nat start) n # bms"
      by auto
    with ok have "alloc_hit (bm # bms) n p es'" unfolding alloc_hit_def by blast
    then show ?thesis ..
  qed
qed

section \<open>The whole manager\<close>

definition pmm_wf :: "bitmap_entry list \<Rightarrow> bool" where
  "pmm_wf es \<longleftrightarrow> (\<forall>e \<in> set es. entry_wf e)
     \<and> sorted_wrt (\<lambda>a b. all_frames a \<inter> all_frames b = {}) es"

definition pmm_used :: "bitmap_entry list \<Rightarrow> nat set" where
  "pmm_used es = (\<Union>e \<in> set es. used_frames e)"

definition pmm_frames :: "bitmap_entry list \<Rightarrow> nat set" where
  "pmm_frames es = (\<Union>e \<in> set es. all_frames e)"

lemma pmm_wf_replace:
  assumes "pmm_wf (us @ e # vs)" and "entry_wf e'" and "layout e' = layout e"
  shows "pmm_wf (us @ e' # vs)" and "pmm_frames (us @ e' # vs) = pmm_frames (us @ e # vs)"
  using assms layout_frames [OF assms(3)]
  by (auto simp: pmm_wf_def pmm_frames_def sorted_wrt_append)

lemma pmm_wf_apart:
  assumes "pmm_wf (us @ e # vs)" and "e' \<in> set us \<union> set vs"
  shows "all_frames e \<inter> all_frames e' = {}"
  using assms by (auto simp: pmm_wf_def sorted_wrt_append)

lemma alloc_hit_spec:
  assumes "pmm_wf es" and "alloc_hit es n p es'"
  shows "pmm_wf es' \<and> pmm_frames es' = pmm_frames es \<and> block p n \<subseteq> pmm_frames es
    \<and> block p n \<inter> pmm_used es = {} \<and> pmm_used es' = pmm_used es \<union> block p n"
proof -
  from assms(2) obtain us e vs c s where h: "es = us @ e # vs" "p = frame e s" "s + n \<le> capacity e"
      "run_free (bitmap e) s n"
      "es' = us @ paging_mark_entry_unavailable (e\<lparr>search_cursor := c\<rparr>) s n # vs"
    unfolding alloc_hit_def by blast
  have wf: "entry_wf (e\<lparr>search_cursor := c\<rparr>)" using assms(1) h(1) by (auto simp: pmm_wf_def)
  have hyp: "s + n \<le> capacity (e\<lparr>search_cursor := c\<rparr>)" "run_free (bitmap (e\<lparr>search_cursor := c\<rparr>)) s n"
    using h by auto
  note m = mark_unavailable_wf [OF wf hyp]
  have other: "x \<notin> used_frames e'" if "x \<in> block p n" "e' \<in> set us \<union> set vs" for x e'
    using pmm_wf_apart [OF assms(1) [unfolded h(1)] that(2)] block_sub_all [OF h(3)] used_sub_all [of e']
      h(2) that(1) by blast
  have "block p n \<inter> pmm_used es = {}"
    using m(3) other h(1,2) by (auto simp: pmm_used_def)
  then show ?thesis
    using pmm_wf_replace [OF assms(1) [unfolded h(1)] m(1)] m(2) block_sub_all [OF h(3)] h(1,2,5)
    by (auto simp: pmm_used_def pmm_frames_def)
qed

lemma usable_bounds:
  assumes "entry_wf e"
  shows "usable_start e = frame e 0" and "usable_end e = frame e (capacity e)"
proof -
  have "region_base e + header_pages e * PAGE_SIZE + capacity e * PAGE_SIZE < 2 ^ 64"
    using assms by (simp add: entry_wf_def algebra_simps)
  then show "usable_start e = frame e 0" and "usable_end e = frame e (capacity e)"
    by (simp_all add: usable_start_def usable_end_def frame_def algebra_simps)
qed

lemma aligned_in_region:
  assumes "entry_wf e" and "p mod PAGE_SIZE = 0" and "usable_start e \<le> p" and "p < usable_end e"
  shows "p \<in> all_frames e"
proof -
  let ?i = "(p - frame e 0) div PAGE_SIZE"
  have m: "frame e 0 mod PAGE_SIZE = 0" using assms(1) by (simp add: entry_wf_def frame_def)
  with assms(2) have d: "PAGE_SIZE dvd p - frame e 0" by (simp add: dvd_diff_nat mod_eq_0_iff_dvd)
  have "p = frame e ?i"
    using d assms(1,3) by (auto simp: usable_bounds frame_def algebra_simps)
  moreover have "?i < capacity e"
  proof -
    have "p - frame e 0 < capacity e * PAGE_SIZE"
      using assms(1,3,4) by (simp add: usable_bounds frame_def algebra_simps)
    then show ?thesis by (rule less_mult_imp_div_less)
  qed
  ultimately show ?thesis by (auto simp: all_frames_def)
qed

lemma frame_mod: "entry_wf e \<Longrightarrow> frame e i mod PAGE_SIZE = 0"
  by (simp add: entry_wf_def frame_def mod_add_left_eq [symmetric])

text \<open>Releasing a block of one region clears exactly its frames.\<close>

lemma free_pages_spec:
  assumes "pmm_wf es" and "e \<in> set es" and "s + n \<le> capacity e" and "0 < n"
  shows "pmm_wf (pmm_free_pages es (frame e s) n)
    \<and> pmm_frames (pmm_free_pages es (frame e s) n) = pmm_frames es
    \<and> map layout (pmm_free_pages es (frame e s) n) = map layout es
    \<and> pmm_used (pmm_free_pages es (frame e s) n) = pmm_used es - block (frame e s) n"
  using assms(1,2)
proof (induction es)
  case Nil
  then show ?case by simp
next
  case (Cons b bs)
  have wfb: "entry_wf b" and wfs: "pmm_wf bs"
    and apart: "\<And>e'. e' \<in> set bs \<Longrightarrow> all_frames b \<inter> all_frames e' = {}"
    using Cons.prems(1) by (auto simp: pmm_wf_def)
  have wfe: "entry_wf e" using Cons.prems by (auto simp: pmm_wf_def)
  have fin: "frame e s \<in> all_frames e" using assms(3,4) by (auto simp: all_frames_def)
  have blk: "block (frame e s) n \<subseteq> all_frames e" by (rule block_sub_all [OF assms(3)])
  show ?case
  proof (cases "frame e s < usable_start b \<or> frame e s \<ge> usable_end b")
    case True
    have "e \<noteq> b" using True wfe assms(3,4) by (auto simp: usable_bounds frame_def)
    then have e: "e \<in> set bs" using Cons.prems(2) by simp
    note IH = Cons.IH [OF wfs e]
    let ?bs = "pmm_free_pages bs (frame e s) n"
    have fr: "all_frames b \<inter> all_frames e' = {}" if "e' \<in> set ?bs" for e'
    proof -
      from that obtain i where i: "i < length ?bs" "e' = ?bs ! i" by (auto simp: in_set_conv_nth)
      have len: "length ?bs = length bs" using IH by (metis length_map)
      have "layout e' = map layout ?bs ! i" using i by simp
      also have "\<dots> = layout (bs ! i)" using IH i len by simp
      finally show ?thesis using apart [of "bs ! i"] layout_frames i len by (metis nth_mem)
    qed
    have "used_frames b \<inter> block (frame e s) n = {}"
      using apart [OF e] blk used_sub_all by blast
    with True IH wfb fr show ?thesis by (auto simp: pmm_wf_def pmm_used_def pmm_frames_def)
  next
    case False
    then have "frame e s \<in> all_frames b"
      using aligned_in_region [OF wfb frame_mod [OF wfe]] by simp
    with fin apart Cons.prems(2) have e: "e = b" by auto
    have idx: "(frame b s - usable_start b) div PAGE_SIZE = s"
      using wfb by (simp add: usable_bounds frame_def)
    have sm: "sz_add s n = s + n" using assms(3) entry_wf_cap [OF wfb] e by simp
    note m = mark_available_wf [OF wfb assms(3) [unfolded e]]
    let ?b = "paging_mark_entry_available b s n"
    obtain c where r: "pmm_free_pages (b # bs) (frame b s) n = ?b\<lparr>search_cursor := c\<rparr> # bs"
    proof (cases "s < search_cursor ?b")
      case True
      then show thesis using that [of s] False e idx sm assms(3) by (simp add: Let_def)
    next
      case F: False
      then show thesis using that [of "search_cursor ?b"] False e idx sm assms(3) by (simp add: Let_def)
    qed
    have other: "x \<notin> used_frames e'" if "x \<in> block (frame b s) n" "e' \<in> set bs" for x e'
      using apart [OF that(2)] blk used_sub_all [of e'] that(1) e by blast
    have lay: "layout (?b\<lparr>search_cursor := c\<rparr>) = layout b" by simp
    show ?thesis
      using pmm_wf_replace [of "[]" b bs "?b\<lparr>search_cursor := c\<rparr>"] Cons.prems(1) m other lay
      unfolding e r by (auto simp: pmm_used_def)
  qed
qed

section \<open>Initialisation establishes the invariant\<close>

text \<open>
  What the boot loader's memory map has to be: its usable ranges do not wrap around and do
  not overlap.
\<close>

definition memmap_ok :: "gbi_memmap_entry list \<Rightarrow> bool" where
  "memmap_ok mm \<longleftrightarrow>
     (\<forall>r \<in> set mm. mm_type r = GBI_MEMMAP_USABLE \<longrightarrow> mm_base r + mm_length r + PAGE_SIZE < 2 ^ 64)
     \<and> sorted_wrt (\<lambda>a b. mm_type a = GBI_MEMMAP_USABLE \<and> mm_type b = GBI_MEMMAP_USABLE \<longrightarrow>
          mm_base a + mm_length a \<le> mm_base b \<or> mm_base b + mm_length b \<le> mm_base a) mm"

lemma header_fits:
  fixes total :: nat
  assumes "hdr = (48 + (total + 7) div 8 + 4096 - 1) div 4096" and "hdr + 4 \<le> total"
  shows "2 * hdr \<le> total" and "0 < hdr"
proof -
  have "4096 * hdr \<le> 48 + (total + 7) div 8 + 4095" using assms(1) by simp
  moreover have "8 * ((total + 7) div 8) \<le> total + 7" by simp
  ultimately show "2 * hdr \<le> total" using assms(2) by linarith
  show "0 < hdr" using assms(1) by simp
qed

lemma page_align:
  assumes "n + PAGE_SIZE < 2 ^ 64"
  shows "n \<le> PAGE_ALIGN_UP n" "PAGE_ALIGN_UP n mod PAGE_SIZE = 0" "PAGE_ALIGN_DOWN n \<le> n"
  using assms by (auto simp: PAGE_ALIGN_UP_def PAGE_ALIGN_DOWN_def)

lemma init_region_wf:
  assumes "pmm_init_region r = Some e" and "mm_base r + mm_length r + PAGE_SIZE < 2 ^ 64"
  shows "entry_wf e" and "all_frames e \<subseteq> {mm_base r..<mm_base r + mm_length r}"
    and "mm_type r = GBI_MEMMAP_USABLE"
    and "available_pages e + header_pages e = capacity e"
    and "\<And>i. i < capacity e \<Longrightarrow> BIT_TST (bitmap e) i = (i < header_pages e)"
proof -
  define base where "base = PAGE_ALIGN_UP (mm_base r)"
  define fin where "fin = PAGE_ALIGN_DOWN (sz_add (mm_base r) (mm_length r))"
  define total where "total = (fin - base) div PAGE_SIZE"
  define hdr where "hdr = (48 + (total + 7) div 8 + PAGE_SIZE - 1) div PAGE_SIZE"
  define bm where "bm = \<lparr>region_base = base, header_pages = hdr, capacity = total - hdr,
      available_pages = total - hdr, search_cursor = 0,
      bitmap = replicate ((total + 7) div 8) 0\<rparr>"
  have e: "e = paging_mark_entry_unavailable bm 0 hdr" and ge: "hdr + 4 \<le> total" and lt: "base < fin"
    and us: "mm_type r = GBI_MEMMAP_USABLE"
    using assms(1)
    unfolding pmm_init_region_def Let_def base_def [symmetric] fin_def [symmetric]
      total_def [symmetric] hdr_def [symmetric] bm_def [symmetric]
    by (auto split: if_splits)
  have sum: "sz_add (mm_base r) (mm_length r) = mm_base r + mm_length r" using assms(2) by simp
  have al: "mm_base r \<le> base" "base mod PAGE_SIZE = 0" "fin \<le> mm_base r + mm_length r"
    using page_align [of "mm_base r"] page_align [of "mm_base r + mm_length r"] assms(2)
    by (simp_all add: base_def fin_def sum)
  have tot: "base + total * PAGE_SIZE \<le> fin"
    using lt by (simp add: total_def)
  note hf = header_fits [OF hdr_def ge]
  have clear: "\<not> BIT_TST (bitmap bm) i" if "i < total" for i
    using that by (simp add: bm_def)
  have fi: "free_idx (capacity bm) (bitmap bm) = {..<capacity bm}"
    using clear by (auto simp: free_idx_def bm_def)
  have wf: "entry_wf bm"
    using al tot hf ge assms(2) fi by (auto simp: entry_wf_def bm_def)
  have hyp: "0 + hdr \<le> capacity bm" "run_free (bitmap bm) 0 hdr"
    using hf ge clear by (auto simp: bm_def run_free_iff)
  note m = mark_unavailable_wf [OF wf hyp]
  show "entry_wf e" unfolding e by (rule m(1))
  show "mm_type r = GBI_MEMMAP_USABLE" by (rule us)
  have "total - hdr < 2 ^ 64" using entry_wf_cap [OF wf] by (simp add: bm_def)
  with hf show "available_pages e + header_pages e = capacity e"
    by (simp add: e paging_mark_entry_unavailable_def bm_def)
  show "BIT_TST (bitmap e) i = (i < header_pages e)" if "i < capacity e" for i
    using that clear hf by (auto simp: e paging_mark_entry_unavailable_def bm_def)
  show "all_frames e \<subseteq> {mm_base r..<mm_base r + mm_length r}"
    using al tot ge by (auto simp: e all_frames_def frame_def paging_mark_entry_unavailable_def bm_def)
qed

lemma pmm_init_in:
  "e \<in> set (pmm_init mm) \<Longrightarrow> \<exists>r \<in> set mm. pmm_init_region r = Some e"
  by (induction mm) (auto split: option.splits)

lemma pmm_init_wf: "memmap_ok mm \<Longrightarrow> pmm_wf (pmm_init mm)"
proof (induction mm)
  case Nil
  then show ?case by (simp add: pmm_wf_def)
next
  case (Cons r rs)
  then have IH: "pmm_wf (pmm_init rs)" by (simp add: memmap_ok_def)
  show ?case
  proof (cases "pmm_init_region r")
    case None
    with IH show ?thesis by simp
  next
    case (Some e)
    note c = init_region_wf [OF Some]
    have r: "mm_type r = GBI_MEMMAP_USABLE" using Some by (auto simp: pmm_init_region_def split: if_splits)
    with Cons.prems have b: "mm_base r + mm_length r + PAGE_SIZE < 2 ^ 64" by (simp add: memmap_ok_def)
    have "all_frames e \<inter> all_frames e' = {}" if "e' \<in> set (pmm_init rs)" for e'
    proof -
      from pmm_init_in [OF that] obtain r' where r': "r' \<in> set rs" "pmm_init_region r' = Some e'" by blast
      then have t: "mm_type r' = GBI_MEMMAP_USABLE" by (auto simp: pmm_init_region_def split: if_splits)
      with Cons.prems r' have "mm_base r' + mm_length r' + PAGE_SIZE < 2 ^ 64" by (simp add: memmap_ok_def)
      from init_region_wf(2) [OF r'(2) this] c(2) [OF b] Cons.prems r' r t show ?thesis
        by (fastforce simp: memmap_ok_def)
    qed
    with Some IH c(1) [OF b] show ?thesis by (simp add: pmm_wf_def)
  qed
qed

section \<open>Histories of allocations and releases\<close>

text \<open>
  A history starts from the initialised manager and interleaves allocations with releases of
  blocks that are still out; \<open>live\<close> is the list of those blocks.
\<close>

inductive pmm_run :: "gbi_memmap_entry list \<Rightarrow> bitmap_entry list \<times> (nat \<times> nat) list \<Rightarrow> bool"
  for mm where
  init: "pmm_run mm (pmm_init mm, [])"
| alloc: "pmm_run mm (es, live) \<Longrightarrow> pmm_alloc_pages es n = (p, es') \<Longrightarrow> p \<noteq> 0 \<Longrightarrow>
    pmm_run mm (es', (p, n) # live)"
| alloc_failed: "pmm_run mm (es, live) \<Longrightarrow> pmm_alloc_pages es n = (0, es') \<Longrightarrow> pmm_run mm (es', live)"
| free: "pmm_run mm (es, live) \<Longrightarrow> (p, n) \<in> set live \<Longrightarrow>
    pmm_run mm (pmm_free_pages es p n, remove1 (p, n) live)"

abbreviation blk :: "nat \<times> nat \<Rightarrow> nat set" where
  "blk b \<equiv> block (fst b) (snd b)"

definition in_region :: "bitmap_entry list \<Rightarrow> nat \<Rightarrow> nat \<Rightarrow> bool" where
  "in_region es p n \<longleftrightarrow> (\<exists>e \<in> set es. \<exists>s. p = frame e s \<and> s + n \<le> capacity e)"

definition live_ok :: "bitmap_entry list \<Rightarrow> (nat \<times> nat) list \<Rightarrow> bool" where
  "live_ok es live \<longleftrightarrow> pmm_wf es \<and> sorted_wrt (\<lambda>a b. blk a \<inter> blk b = {}) live
     \<and> (\<forall>b \<in> set live. 0 < snd b \<and> blk b \<subseteq> pmm_used es \<and> in_region es (fst b) (snd b))"

lemma alloc_pages_outcome:
  assumes "pmm_alloc_pages es n = (p, es')" and "pmm_wf es"
  shows "p = 0 \<and> es' = es \<or> alloc_hit es n p es'"
  using assms alloc_from_outcome [of es n p es']
  by (auto simp: pmm_alloc_pages_def pmm_try_alloc_pages_def pmm_wf_def alloc_failed_def split: if_splits)

lemma in_region_layout:
  assumes "map layout es' = map layout es" and "in_region es p n"
  shows "in_region es' p n"
proof -
  from assms(2) obtain e s where e: "e \<in> set es" "p = frame e s" "s + n \<le> capacity e"
    by (auto simp: in_region_def)
  then obtain i where i: "i < length es" "e = es ! i" by (auto simp: in_set_conv_nth)
  have len: "length es' = length es" using assms(1) by (metis length_map)
  have "layout (es' ! i) = map layout es' ! i" using i len by simp
  also have "\<dots> = layout e" using assms(1) i by simp
  finally have lay: "layout (es' ! i) = layout e" .
  have "frame (es' ! i) = frame e" "capacity (es' ! i) = capacity e"
    using layout_frames [OF lay] lay by (simp_all add: layout_def)
  then show ?thesis using e i len unfolding in_region_def by (metis nth_mem)
qed

lemma hit_regions:
  assumes "alloc_hit es n p es'"
  shows "0 < n" and "in_region es p n" and "map layout es' = map layout es"
  using assms by (auto simp: alloc_hit_def in_region_def)

lemma live_ok_alloc:
  assumes "live_ok es live" and "alloc_hit es n p es'"
  shows "live_ok es' ((p, n) # live)"
proof -
  have wf: "pmm_wf es" using assms(1) by (simp add: live_ok_def)
  note h = alloc_hit_spec [OF wf assms(2)] and r = hit_regions [OF assms(2)]
  have fresh: "block p n \<inter> pmm_used es = {}" and used: "pmm_used es' = pmm_used es \<union> block p n"
    and wf': "pmm_wf es'"
    using h by simp_all
  have old: "0 < snd b" "blk b \<subseteq> pmm_used es" "in_region es (fst b) (snd b)" if "b \<in> set live" for b
    using assms(1) that by (simp_all add: live_ok_def)
  have "block p n \<inter> blk b = {}" if "b \<in> set live" for b
    using old(2) [OF that] fresh by blast
  moreover have "blk b \<subseteq> pmm_used es' \<and> in_region es' (fst b) (snd b)" if "b \<in> set live" for b
    using old(2,3) [OF that] used in_region_layout [OF r(3)] by blast
  moreover have "in_region es' p n" "block p n \<subseteq> pmm_used es'"
    using in_region_layout [OF r(3,2)] used by auto
  ultimately show ?thesis
    using assms(1) wf' r(1) old(1) by (simp add: live_ok_def)
qed

lemma live_ok_free:
  assumes "live_ok es live" and "(p, n) \<in> set live"
  shows "live_ok (pmm_free_pages es p n) (remove1 (p, n) live)"
proof -
  have wf: "pmm_wf es" and sw: "sorted_wrt (\<lambda>a b. blk a \<inter> blk b = {}) live"
    and old: "\<And>b. b \<in> set live \<Longrightarrow> 0 < snd b \<and> blk b \<subseteq> pmm_used es \<and> in_region es (fst b) (snd b)"
    using assms(1) by (auto simp: live_ok_def)
  from old [OF assms(2)] obtain e s where e: "e \<in> set es" "p = frame e s" "s + n \<le> capacity e" "0 < n"
    by (auto simp: in_region_def)
  have f: "pmm_wf (pmm_free_pages es p n)" "map layout (pmm_free_pages es p n) = map layout es"
    "pmm_used (pmm_free_pages es p n) = pmm_used es - block p n"
    using free_pages_spec [OF wf e(1,3,4)] by (simp_all add: e(2))
  from split_list_first [OF assms(2)] obtain us vs
    where uv: "live = us @ (p, n) # vs" "(p, n) \<notin> set us" by blast
  then have rem: "remove1 (p, n) live = us @ vs" by (simp add: remove1_append)
  have apart: "blk b \<inter> block p n = {}" if "b \<in> set (us @ vs)" for b
    using sw that unfolding uv(1) sorted_wrt_append by (auto dest!: bspec [where x = b] simp: Int_commute)
  have "blk b \<subseteq> pmm_used (pmm_free_pages es p n) \<and> in_region (pmm_free_pages es p n) (fst b) (snd b)"
    if "b \<in> set (us @ vs)" for b
  proof -
    have "b \<in> set live" using that uv(1) by auto
    then show ?thesis
      using old apart [OF that] in_region_layout [OF f(2)] unfolding f(3) by blast
  qed
  moreover have "sorted_wrt (\<lambda>a b. blk a \<inter> blk b = {}) (us @ vs)"
    using sw by (auto simp: uv(1) sorted_wrt_append)
  moreover have "\<forall>b \<in> set (us @ vs). 0 < snd b" using old uv(1) by auto
  ultimately show ?thesis unfolding rem using f(1) by (simp add: live_ok_def)
qed

lemma pmm_run_live_ok:
  assumes "pmm_run mm st" and "memmap_ok mm"
  shows "live_ok (fst st) (snd st)"
  using assms
proof (induction rule: pmm_run.induct)
  case init
  then show ?case by (simp add: live_ok_def pmm_init_wf)
next
  case (alloc es live n p es')
  then have ok: "live_ok es live" by simp
  then have "pmm_wf es" by (simp add: live_ok_def)
  from alloc_pages_outcome [OF alloc.hyps(2) this] alloc.hyps(3) have "alloc_hit es n p es'" by simp
  with ok show ?case by (simp add: live_ok_alloc)
next
  case (alloc_failed es live n es')
  then have ok: "live_ok es live" by simp
  then have "pmm_wf es" by (simp add: live_ok_def)
  from alloc_pages_outcome [OF alloc_failed.hyps(2) this] have "es' = es"
    by (auto simp: alloc_hit_def)
  with ok show ?case by simp
next
  case (free es live p n)
  then show ?case by (simp add: live_ok_free)
qed

text \<open>C3. Whatever sequence of page allocations and releases the kernel makes after
  \<open>pmm_init\<close>, the blocks that are out never share a frame; each is page aligned and lies in
  the usable frames of one region, behind that region's bitmap header.\<close>

theorem pmm_live_blocks_disjoint:
  assumes "memmap_ok mm" and "pmm_run mm (es, live)"
  shows "sorted_wrt (\<lambda>a b. blk a \<inter> blk b = {}) live
    \<and> (\<forall>(p, n) \<in> set live. p mod PAGE_SIZE = 0 \<and> block p n \<subseteq> pmm_frames es \<and> in_region es p n)"
proof -
  from pmm_run_live_ok [OF assms(2,1)] have ok: "live_ok es live" by simp
  have "p mod PAGE_SIZE = 0 \<and> block p n \<subseteq> pmm_frames es \<and> in_region es p n" if "(p, n) \<in> set live" for p n
  proof -
    have "in_region es p n" "pmm_wf es" using ok that by (auto simp: live_ok_def)
    moreover from this obtain e s where "e \<in> set es" "entry_wf e" "p = frame e s" "s + n \<le> capacity e"
      by (auto simp: in_region_def pmm_wf_def)
    then have "p mod PAGE_SIZE = 0" "block p n \<subseteq> all_frames e" "e \<in> set es"
      using frame_mod block_sub_all by auto
    ultimately show ?thesis by (auto simp: pmm_frames_def)
  qed
  with ok show ?thesis by (auto simp: live_ok_def)
qed

definition demo_map :: "gbi_memmap_entry list" where
  "demo_map = [\<lparr>mm_base = 0x100000, mm_length = 0xA000, mm_type = GBI_MEMMAP_USABLE\<rparr>]"

lemma demo_map_ok: "memmap_ok demo_map"
  by (simp add: memmap_ok_def demo_map_def)

lemma demo_init: "pmm_init demo_map = [\<lparr>region_base = 0x100000, header_pages = 1, capacity = 9,
    available_pages = 8, search_cursor = 0, bitmap = [1, 0]\<rparr>]"
  by code_simp

lemma demo_alloc: "fst (pmm_alloc_pages (pmm_init demo_map) 2) = 0x102000"
  unfolding demo_init by code_simp

theorem pmm_live_blocks_disjoint_witness:
  "\<exists>es. pmm_run demo_map (es, [(0x102000, 2)]) \<and> in_region es 0x102000 2"
proof -
  obtain es where "pmm_alloc_pages (pmm_init demo_map) 2 = (0x102000, es)"
    using demo_alloc by (metis prod.collapse)
  then have run: "pmm_run demo_map (es, [(0x102000, 2)])"
    using pmm_run.alloc [OF pmm_run.init] by simp
  from pmm_live_blocks_disjoint [OF demo_map_ok run] run show ?thesis by auto
qed

section \<open>Page accounting\<close>

lemma available_card:
  assumes "entry_wf e"
  shows "available_pages e = card (all_frames e - used_frames e)"
proof -
  have "all_frames e - used_frames e = frame e ` free_idx (capacity e) (bitmap e)"
    by (auto simp: all_frames_def used_frames_def free_idx_def frame_inj)
  moreover have "inj_on (frame e) (free_idx (capacity e) (bitmap e))"
    by (simp add: inj_on_def frame_inj)
  ultimately show ?thesis using assms by (simp add: card_image entry_wf_def)
qed

lemma foldl_sz_add:
  "a < 2 ^ 64 \<Longrightarrow> foldl (\<lambda>t e. sz_add t (f e)) a xs = (a + sum_list (map f xs)) mod 2 ^ 64"
proof (induction xs arbitrary: a)
  case (Cons x xs)
  have "foldl (\<lambda>t e. sz_add t (f e)) (sz_add a (f x)) xs = (sz_add a (f x) + sum_list (map f xs)) mod 2 ^ 64"
    by (rule Cons.IH) (simp add: sz_add_def)
  also have "\<dots> = (a + f x + sum_list (map f xs)) mod 2 ^ 64"
    unfolding sz_add_def by (rule mod_add_left_eq)
  finally show ?case by (simp add: add.assoc)
qed simp

lemma finite_frames [simp]: "finite (all_frames e)" "finite (used_frames e)" "finite (pmm_frames es)"
  by (simp_all add: all_frames_def used_frames_def pmm_frames_def)

lemma sum_available:
  "pmm_wf es \<Longrightarrow> sum_list (map available_pages es) = card (pmm_frames es - pmm_used es)"
proof (induction es)
  case (Cons e es)
  have wf: "entry_wf e" "pmm_wf es" and ap: "all_frames e \<inter> pmm_frames es = {}"
    using Cons.prems by (auto simp: pmm_wf_def pmm_frames_def)
  have "pmm_used es \<subseteq> pmm_frames es" using used_sub_all by (fastforce simp: pmm_used_def pmm_frames_def)
  then have "pmm_frames (e # es) - pmm_used (e # es) =
      (all_frames e - used_frames e) \<union> (pmm_frames es - pmm_used es)"
    using ap used_sub_all [of e] by (auto simp: pmm_frames_def pmm_used_def)
  moreover have "(all_frames e - used_frames e) \<inter> (pmm_frames es - pmm_used es) = {}"
    using ap by auto
  ultimately have "card (pmm_frames (e # es) - pmm_used (e # es)) =
      card (all_frames e - used_frames e) + card (pmm_frames es - pmm_used es)"
    by (simp add: card_Un_disjoint)
  with Cons.IH [OF wf(2)] available_card [OF wf(1)] show ?case by simp
qed (simp add: pmm_frames_def)

lemma card_frames_small:
  assumes "pmm_wf es"
  shows "card (pmm_frames es) < 2 ^ 64"
proof -
  have "pmm_frames es \<subseteq> (\<lambda>k. k * PAGE_SIZE) ` {..<2 ^ 52}"
  proof
    fix p assume "p \<in> pmm_frames es"
    then obtain e i where e: "entry_wf e" "p = frame e i" "i < capacity e"
      using assms by (auto simp: pmm_frames_def pmm_wf_def all_frames_def)
    then have m: "p mod PAGE_SIZE = 0" and "frame e i < 2 ^ 64"
      by (auto simp: frame_mod) (auto simp: entry_wf_def frame_def)
    then have "p div PAGE_SIZE < 2 ^ 52" using e(2) by auto
    moreover have "p = p div PAGE_SIZE * PAGE_SIZE" using m by (simp add: mod_eq_0_iff_dvd)
    ultimately show "p \<in> (\<lambda>k. k * PAGE_SIZE) ` {..<2 ^ 52}" by blast
  qed
  then have "card (pmm_frames es) \<le> card ((\<lambda>k. k * PAGE_SIZE) ` {..<2 ^ 52})"
    by (intro card_mono) auto
  also have "\<dots> \<le> 2 ^ 52" using card_image_le [of "{..<2 ^ 52}" "\<lambda>k. k * PAGE_SIZE"] by simp
  finally show ?thesis by simp
qed

lemma pmm_available_card:
  assumes "pmm_wf es"
  shows "pmm_available_pages es = card (pmm_frames es - pmm_used es)"
proof -
  have "card (pmm_frames es - pmm_used es) \<le> card (pmm_frames es)" by (intro card_mono) auto
  with card_frames_small [OF assms] have "card (pmm_frames es - pmm_used es) < 2 ^ 64" by simp
  then show ?thesis
    by (simp add: pmm_available_pages_def foldl_sz_add sum_available [OF assms])
qed

text \<open>A release of any address and any page count keeps the invariant: what lies outside the
  regions is ignored and what runs past a region's end is cut off.\<close>

lemma free_any_wf:
  assumes "pmm_wf es" and "n < 2 ^ 63"
  shows "pmm_wf (pmm_free_pages es p n) \<and> map layout (pmm_free_pages es p n) = map layout es"
  using assms(1)
proof (induction es)
  case (Cons b bs)
  have wfb: "entry_wf b" and wfs: "pmm_wf bs" using Cons.prems by (auto simp: pmm_wf_def)
  note IH = Cons.IH [OF wfs]
  have fr: "map all_frames (pmm_free_pages bs p n) = map all_frames bs"
    using IH layout_frames by (metis (no_types, lifting) map_eq_imp_length_eq nth_equalityI nth_map length_map)
  then have fs: "all_frames ` set (pmm_free_pages bs p n) = all_frames ` set bs" by (metis set_map)
  show ?case
  proof (cases "p < usable_start b \<or> p \<ge> usable_end b")
    case True
    have "all_frames b \<inter> all_frames c = {}" if "c \<in> set (pmm_free_pages bs p n)" for c
    proof -
      from that fs obtain d where "d \<in> set bs" "all_frames c = all_frames d" by (metis imageE imageI)
      with Cons.prems show ?thesis by (simp add: pmm_wf_def)
    qed
    with True IH wfb show ?thesis by (simp add: pmm_wf_def)
  next
    case False
    define idx where "idx = (p - usable_start b) div PAGE_SIZE"
    define k where "k = (if sz_add idx n > capacity b then capacity b - idx else n)"
    have "p - usable_start b < capacity b * PAGE_SIZE"
      using False wfb by (auto simp: usable_bounds frame_def algebra_simps)
    then have i: "idx < capacity b" unfolding idx_def by (rule less_mult_imp_div_less)
    have "capacity b * PAGE_SIZE < 2 ^ 64" using wfb by (simp add: entry_wf_def algebra_simps)
    then have "sz_add idx n = idx + n" using i assms(2) by (intro sz_add_small) simp
    then have ik: "idx + k \<le> capacity b" using i by (auto simp: k_def)
    let ?b = "paging_mark_entry_available b idx k"
    have r: "pmm_free_pages (b # bs) p n =
        (if idx < search_cursor ?b then ?b\<lparr>search_cursor := idx\<rparr> else ?b) # bs"
      using False by (simp add: Let_def idx_def [symmetric] k_def [symmetric])
    have "entry_wf (if idx < search_cursor ?b then ?b\<lparr>search_cursor := idx\<rparr> else ?b)"
      using mark_available_wf(1) [OF wfb ik] by simp
    moreover have "layout (if idx < search_cursor ?b then ?b\<lparr>search_cursor := idx\<rparr> else ?b) = layout b"
      by simp
    ultimately show ?thesis
      unfolding r using pmm_wf_replace(1) [of "[]" b bs] Cons.prems by simp
  qed
qed (simp add: pmm_wf_def)

datatype pmm_op = Alloc nat | Free nat nat

fun pmm_exec :: "bitmap_entry list \<Rightarrow> pmm_op list \<Rightarrow> bitmap_entry list" where
  "pmm_exec es [] = es"
| "pmm_exec es (Alloc n # ops) = pmm_exec (snd (pmm_alloc_pages es n)) ops"
| "pmm_exec es (Free p n # ops) = pmm_exec (pmm_free_pages es p n) ops"

lemma alloc_pages_wf: "pmm_wf es \<Longrightarrow> pmm_wf (snd (pmm_alloc_pages es n))"
  using alloc_pages_outcome [of es n "fst (pmm_alloc_pages es n)" "snd (pmm_alloc_pages es n)"] alloc_hit_spec
  by force

lemma pmm_exec_wf:
  "pmm_wf es \<Longrightarrow> \<forall>p n. Free p n \<in> set ops \<longrightarrow> n < 2 ^ 63 \<Longrightarrow> pmm_wf (pmm_exec es ops)"
  by (induction es ops rule: pmm_exec.induct) (auto simp: alloc_pages_wf free_any_wf)

text \<open>C15. The number of free pages the manager reports is the number of frames that are not
  marked, after any sequence of allocations and releases, double releases and releases of
  foreign addresses included (page counts below \<open>2 ^ 63\<close>, so that the bounds check does not
  wrap around).\<close>

theorem pmm_accounting_exact:
  assumes "memmap_ok mm" and "\<forall>p n. Free p n \<in> set ops \<longrightarrow> n < 2 ^ 63"
  shows "pmm_available_pages (pmm_exec (pmm_init mm) ops) =
    card (pmm_frames (pmm_exec (pmm_init mm) ops) - pmm_used (pmm_exec (pmm_init mm) ops))"
  by (rule pmm_available_card, rule pmm_exec_wf, rule pmm_init_wf) (use assms in auto)

theorem pmm_accounting_exact_witness:
  "pmm_available_pages (pmm_exec (pmm_init demo_map) [Alloc 2, Free 0x102000 2, Free 0x102000 2]) = 8
   \<and> card (pmm_frames (pmm_exec (pmm_init demo_map) [Alloc 2, Free 0x102000 2, Free 0x102000 2])
       - pmm_used (pmm_exec (pmm_init demo_map) [Alloc 2, Free 0x102000 2, Free 0x102000 2])) = 8"
proof -
  have "pmm_available_pages (pmm_exec (pmm_init demo_map) [Alloc 2, Free 0x102000 2, Free 0x102000 2]) = 8"
    unfolding demo_init by code_simp
  with pmm_accounting_exact [OF demo_map_ok, of "[Alloc 2, Free 0x102000 2, Free 0x102000 2]"]
  show ?thesis by simp
qed

section \<open>When an allocation fails\<close>

lemma find_in_range_none:
  assumes "paging_bitmap_find_free_in_range bm n lo hi < 0" and "0 < n" and "lo \<le> s" and "s + n \<le> hi"
  shows "\<not> run_free bm s n"
  using assms by (cases rule: first_fit_cases [of bm n lo hi]) (auto simp: find_in_range_first_fit)

lemma find_free_none:
  assumes "fst (paging_bitmap_find_free e n) < 0" and "0 < n" and "s + n \<le> capacity e"
    and "run_free (bitmap e) s n"
  shows "s < search_cursor e \<and> search_cursor e < s + n"
proof -
  define c where "c = (if search_cursor e \<ge> capacity e then 0 else search_cursor e)"
  define v where "v = paging_bitmap_find_free_in_range (bitmap e) n c (capacity e)"
  define w where "w = paging_bitmap_find_free_in_range (bitmap e) n 0 c"
  have "fst (paging_bitmap_find_free e n) = (if v < 0 \<and> c \<noteq> 0 then w else v)"
    using assms(2,3) unfolding paging_bitmap_find_free_def Let_def v_def [symmetric] w_def [symmetric]
      c_def [symmetric] by simp
  then have v: "v < 0" and w: "c \<noteq> 0 \<longrightarrow> w < 0" using assms(1) by (auto split: if_splits)
  have "s < c" using find_in_range_none [OF v [unfolded v_def] assms(2) _ assms(3)] assms(4) by force
  moreover from this have "\<not> s + n \<le> c"
    using find_in_range_none [of "bitmap e" n 0 c s] w assms(2,4) by (auto simp: w_def)
  ultimately show ?thesis by (auto simp: c_def split: if_splits)
qed

text \<open>C17. An allocation that fails changes nothing, and it fails only when the request fits no
  free run of any region, except runs that lie across the region's search cursor; so a request
  for a single page fails only when no page is free.\<close>

theorem pmm_alloc_fails_only_across_cursor:
  assumes "memmap_ok mm" and "\<forall>p n. Free p n \<in> set ops \<longrightarrow> n < 2 ^ 63"
    and "es = pmm_exec (pmm_init mm) ops" and "pmm_alloc_pages es n = (0, es')" and "0 < n"
  shows "es' = es \<and> (\<forall>e \<in> set es. \<forall>s. s + n \<le> capacity e \<and> run_free (bitmap e) s n
      \<longrightarrow> s < search_cursor e \<and> search_cursor e < s + n)"
proof -
  have wf: "pmm_wf es" using assms(1-3) by (simp add: pmm_exec_wf pmm_init_wf)
  then have "alloc_failed es n 0 es'"
    using alloc_from_outcome [of es n 0 es'] assms(4,5)
    by (auto simp: pmm_alloc_pages_def pmm_try_alloc_pages_def pmm_wf_def alloc_hit_def)
  then have f: "es' = es" "\<And>e. e \<in> set es \<Longrightarrow> available_pages e < n \<or> fst (paging_bitmap_find_free e n) < 0"
    by (auto simp: alloc_failed_def)
  have "s < search_cursor e \<and> search_cursor e < s + n"
    if e: "e \<in> set es" and s: "s + n \<le> capacity e" "run_free (bitmap e) s n" for e s
  proof -
    have "n \<le> available_pages e" using mark_unavailable_wf(4) [OF _ s] wf e by (auto simp: pmm_wf_def)
    with f(2) [OF e] find_free_none [OF _ assms(5) s] show ?thesis by auto
  qed
  with f(1) show ?thesis by blast
qed

definition scattered :: "bitmap_entry list" where
  "scattered = pmm_exec (pmm_init demo_map)
     [Alloc 1, Alloc 1, Free 0x102000 1, Alloc 2, Free 0x103000 1, Free 0x104000 2]"

lemma scattered_eval: "scattered = [\<lparr>region_base = 0x100000, header_pages = 1, capacity = 9,
    available_pages = 8, search_cursor = 2, bitmap = [1, 0]\<rparr>]"
  unfolding scattered_def demo_init by code_simp

lemma scattered_full: "fst (pmm_alloc_pages scattered 8) = 0"
  unfolding scattered_eval by code_simp

theorem pmm_alloc_fails_only_across_cursor_witness:
  "1 < search_cursor (hd scattered) \<and> search_cursor (hd scattered) < 1 + 8"
proof -
  let ?ops = "[Alloc 1, Alloc 1, Free 0x102000 1, Alloc 2, Free 0x103000 1, Free 0x104000 2]"
  obtain es' where a: "pmm_alloc_pages scattered 8 = (0, es')" using scattered_full by (metis prod.collapse)
  have ok: "\<forall>p n. Free p n \<in> set ?ops \<longrightarrow> n < 2 ^ 63" by simp
  have "0 < (8::nat)" by simp
  from pmm_alloc_fails_only_across_cursor [OF demo_map_ok ok scattered_def a this]
  have "\<forall>e \<in> set scattered. \<forall>s. s + 8 \<le> capacity e \<and> run_free (bitmap e) s 8
      \<longrightarrow> s < search_cursor e \<and> search_cursor e < s + 8" by blast
  moreover have "hd scattered \<in> set scattered" "1 + 8 \<le> capacity (hd scattered)"
    by (simp_all add: scattered_eval)
  moreover have "run_free (bitmap (hd scattered)) 1 8" unfolding scattered_eval by code_simp
  ultimately show ?thesis by blast
qed

text \<open>C19. The exception is real: with every allocation released again and all eight frames behind
  the region's header mark free, in one run, a request for eight pages fails, because the run
  lies across the search cursor and the two halves of the bitmap are searched apart.\<close>

theorem pmm_spurious_out_of_memory:
  "pmm_available_pages scattered = 8 \<and> list_all (\<lambda>e. run_free (bitmap e) 1 8 \<and> capacity e = 9) scattered
   \<and> fst (pmm_alloc_pages scattered 8) = 0 \<and> fst (pmm_alloc_pages (pmm_init demo_map) 8) = 0x102000"
proof (intro conjI)
  show "pmm_available_pages scattered = 8" unfolding scattered_eval by code_simp
  show "list_all (\<lambda>e. run_free (bitmap e) 1 8 \<and> capacity e = 9) scattered"
    unfolding scattered_eval by code_simp
  show "fst (pmm_alloc_pages scattered 8) = 0" by (rule scattered_full)
  show "fst (pmm_alloc_pages (pmm_init demo_map) 8) = 0x102000" unfolding demo_init by code_simp
qed

end
