(* ===== verification/Pipe.thy ===== *)
theory Pipe
  imports Prelude
begin

text \<open>
  Anonymous pipes, \<open>kernel/src/fs/pipe.c\<close>. The shared \<open>pipe_state_t\<close> is a record; each
  critical section under its spin lock is one state transformer. A blocking call is a loop of
  turns: a turn either returns to the caller or asks for a second look with interrupts off,
  which puts the task to sleep when nothing has changed. The interleavings of turns, sleeps and
  wake-ups of any number of tasks are the relation \<open>pipe_reach\<close>.
\<close>

section \<open>State\<close>

abbreviation PIPE_BUFFER_SIZE :: nat where "PIPE_BUFFER_SIZE \<equiv> 4096"

record pipe_state =
  read_pos :: nat
  write_pos :: nat
  pcount :: nat
  readers :: int
  writers :: int
  nonblock :: u8
  write_nonblock :: u8
  pbuffer :: bytes

definition min_size :: "nat \<Rightarrow> nat \<Rightarrow> nat" where
  "min_size a b = (if a < b then a else b)"

lemma min_size_le: "min_size a b \<le> a"
  by (simp add: min_size_def)

lemma copy_progress:
  "\<not> min_size (min_size (n - copied) c) x < min_size (n - copied) c \<Longrightarrow> copied < n \<Longrightarrow> 0 < c \<Longrightarrow>
   n - (copied + min_size (min_size (n - copied) c) x) < n - copied"
  by (auto simp: min_size_def split: if_splits)

text \<open>What one turn of a blocking call ends with, and the answer of the second look.\<close>

datatype turn = Return int | Continue | Recheck

datatype look = Sleep | Awake

section \<open>Reading\<close>

function pipe_read_loop :: "pipe_state \<Rightarrow> nat \<Rightarrow> nat \<Rightarrow> bytes \<Rightarrow> pipe_state \<times> nat \<times> bytes" where
  "pipe_read_loop s sz copied dst =
     (if copied < sz \<and> pcount s > 0 then
        let bytes = min_size (sz - copied) (pcount s);
            first = min_size bytes (sz_sub PIPE_BUFFER_SIZE (read_pos s));
            dst1 = dst @ take first (drop (read_pos s) (pbuffer s));
            s1 = s\<lparr>read_pos := (read_pos s + first) mod PIPE_BUFFER_SIZE, pcount := pcount s - first\<rparr>;
            remaining = bytes - first
        in if remaining > 0 then
             pipe_read_loop
               (s1\<lparr>read_pos := read_pos s1 + remaining, pcount := pcount s1 - remaining\<rparr>)
               sz (copied + first + remaining)
               (dst1 @ take remaining (drop (read_pos s1) (pbuffer s1)))
           else pipe_read_loop s1 sz (copied + first) dst1
      else (s, copied, dst))"
  by pat_completeness auto
termination
  by (relation "measure (\<lambda>(s, sz, copied, dst). sz - copied)")
     (use min_size_le in \<open>auto simp del: sz_sub_small intro: copy_progress\<close>)

declare pipe_read_loop.simps [simp del]

text \<open>
  One turn of \<open>pipe_read_inode\<close>: the state after it, the outcome, the bytes handed out and
  whether the wait queue is woken. \<open>args\<close> says that inode and buffer are not null,
  \<open>intr\<close> is the answer of \<open>signal_should_interrupt\<close>.
\<close>

definition pipe_read_turn :: "bool \<Rightarrow> pipe_state option \<Rightarrow> nat \<Rightarrow> bool
    \<Rightarrow> pipe_state option \<times> turn \<times> bytes \<times> bool" where
  "pipe_read_turn args st sz intr =
     (if \<not> args \<or> sz = 0 then (st, Return 0, [], False)
      else case st of
        None \<Rightarrow> (None, Return (- EIO), [], False)
      | Some s \<Rightarrow>
          let (s', copied, dst) = pipe_read_loop s sz 0 [] in
          if copied > 0 then (Some s', Return (int copied), dst, True)
          else if writers s' = 0 then (Some s', Return 0, dst, False)
          else if nonblock s' \<noteq> 0 then (Some s', Return (- EAGAIN), dst, False)
          else if intr then (Some s', Return (- EINTR), dst, False)
          else (Some s', Recheck, dst, False))"

definition pipe_read_recheck :: "pipe_state \<Rightarrow> bool \<Rightarrow> look" where
  "pipe_read_recheck s same_pending =
     (if pcount s = 0 \<and> writers s \<noteq> 0 \<and> same_pending then Sleep else Awake)"

section \<open>Writing\<close>

function pipe_write_loop :: "pipe_state \<Rightarrow> bytes \<Rightarrow> nat \<Rightarrow> pipe_state \<times> nat" where
  "pipe_write_loop s src copied =
     (if copied < length src \<and> pcount s < PIPE_BUFFER_SIZE then
        let space = PIPE_BUFFER_SIZE - pcount s;
            bytes = min_size (length src - copied) space;
            first = min_size bytes (sz_sub PIPE_BUFFER_SIZE (write_pos s));
            s1 = s\<lparr>pbuffer := blit (pbuffer s) (write_pos s) (take first (drop copied src)),
                   write_pos := (write_pos s + first) mod PIPE_BUFFER_SIZE,
                   pcount := pcount s + first\<rparr>;
            remaining = bytes - first
        in if remaining > 0 then
             pipe_write_loop
               (s1\<lparr>pbuffer := blit (pbuffer s1) (write_pos s1) (take remaining (drop (copied + first) src)),
                   write_pos := write_pos s1 + remaining,
                   pcount := pcount s1 + remaining\<rparr>)
               src (copied + first + remaining)
           else pipe_write_loop s1 src (copied + first)
      else (s, copied))"
  by pat_completeness auto
termination
  by (relation "measure (\<lambda>(s, src, copied). length src - copied)")
     (use min_size_le in \<open>auto simp del: sz_sub_small intro: copy_progress\<close>)

declare pipe_write_loop.simps [simp del]

text \<open>
  One turn of \<open>pipe_write_inode\<close>, with what the call has already copied: the state, the
  outcome, the new count of copied bytes and whether the wait queue is woken.
\<close>

definition pipe_write_turn :: "bool \<Rightarrow> pipe_state option \<Rightarrow> bytes \<Rightarrow> nat \<Rightarrow> bool
    \<Rightarrow> pipe_state option \<times> turn \<times> nat \<times> bool" where
  "pipe_write_turn args st src copied intr =
     (if \<not> args \<or> src = [] then (st, Return 0, copied, False)
      else case st of
        None \<Rightarrow> (None, Return (- EIO), copied, False)
      | Some s \<Rightarrow>
          if readers s = 0 then
            (Some s, Return (if copied \<noteq> 0 then int copied else - EPIPE), copied, False)
          else
            let (s', copied') = pipe_write_loop s src copied;
                full = (pcount s' = PIPE_BUFFER_SIZE);
                woken = (copied' > 0);
                partial = (\<lambda>e. Return (if copied' \<noteq> 0 then int copied' else e))
            in if copied' = length src then (Some s', Return (int copied'), copied', woken)
               else if \<not> full then (Some s', Continue, copied', woken)
               else if write_nonblock s' \<noteq> 0 then (Some s', partial (- EAGAIN), copied', woken)
               else if intr then (Some s', partial (- EINTR), copied', woken)
               else (Some s', Recheck, copied', woken))"

definition pipe_write_recheck :: "pipe_state \<Rightarrow> bool \<Rightarrow> look" where
  "pipe_write_recheck s same_pending =
     (if pcount s = PIPE_BUFFER_SIZE \<and> readers s \<noteq> 0 \<and> same_pending then Sleep else Awake)"

section \<open>Control operations\<close>

abbreviation (input) TTY_IOCTL_GET_FLAGS :: nat where "TTY_IOCTL_GET_FLAGS \<equiv> 0x5401"
abbreviation (input) TTY_IOCTL_SET_FLAGS :: nat where "TTY_IOCTL_SET_FLAGS \<equiv> 0x5402"
abbreviation (input) TTY_IOCTL_FIONBIO :: nat where "TTY_IOCTL_FIONBIO \<equiv> 0x5421"
abbreviation (input) TTY_NONBLOCK :: u32 where "TTY_NONBLOCK \<equiv> 16"

text \<open>
  \<open>user\<close> is the 32-bit word \<open>copy_from_user\<close> reads at \<open>arg\<close>, \<open>None\<close> when it fails;
  \<open>wr_ok\<close> is the success of \<open>copy_to_user\<close>. The last component is the word written back.
\<close>

definition pipe_flags_ioctl :: "pipe_state option \<Rightarrow> nat \<Rightarrow> bool \<Rightarrow> u32 option \<Rightarrow> bool \<Rightarrow> bool
    \<Rightarrow> pipe_state option \<times> int \<times> u32 option" where
  "pipe_flags_ioctl st request arg user wr_ok write_end =
     (case st of None \<Rightarrow> (None, - EIO, None)
      | Some s \<Rightarrow>
          if \<not> arg then (st, - EINVAL, None)
          else
            let set_nb = (\<lambda>v. Some (if write_end then s\<lparr>write_nonblock := v\<rparr> else s\<lparr>nonblock := v\<rparr>));
                get_nb = (if write_end then write_nonblock s else nonblock s)
            in if request = TTY_IOCTL_FIONBIO then
                 (case user of None \<Rightarrow> (st, - EFAULT, None)
                  | Some on \<Rightarrow> (set_nb (if on \<noteq> 0 then 1 else 0), 0, None))
               else if request = TTY_IOCTL_SET_FLAGS then
                 (case user of None \<Rightarrow> (st, - EFAULT, None)
                  | Some flags \<Rightarrow> (set_nb (if flags AND TTY_NONBLOCK \<noteq> 0 then 1 else 0), 0, None))
               else if request = TTY_IOCTL_GET_FLAGS then
                 (let flags = (if get_nb \<noteq> 0 then TTY_NONBLOCK else 0)
                  in if wr_ok then (st, 0, Some flags) else (st, - EFAULT, None))
               else (st, - ENOTTY, None))"

definition pipe_read_ioctl :: "pipe_state option \<Rightarrow> nat \<Rightarrow> bool \<Rightarrow> u32 option \<Rightarrow> bool
    \<Rightarrow> pipe_state option \<times> int \<times> u32 option" where
  "pipe_read_ioctl st request arg user wr_ok = pipe_flags_ioctl st request arg user wr_ok False"

definition pipe_write_ioctl :: "pipe_state option \<Rightarrow> nat \<Rightarrow> bool \<Rightarrow> u32 option \<Rightarrow> bool
    \<Rightarrow> pipe_state option \<times> int \<times> u32 option" where
  "pipe_write_ioctl st request arg user wr_ok = pipe_flags_ioctl st request arg user wr_ok True"



section \<open>Creation and release\<close>

datatype open_mode = O_RDONLY | O_WRONLY | O_RDWR

text \<open>
  The five allocations of \<open>pipe_create_file_pair\<close>, in the order the code makes them, succeed
  or fail as \<open>allocs\<close> says; the ends are the open modes of the two files.
\<close>

definition pipe_new :: pipe_state where
  "pipe_new = \<lparr>read_pos = 0, write_pos = 0, pcount = 0, readers = 1, writers = 1,
     nonblock = 0, write_nonblock = 0, pbuffer = replicate PIPE_BUFFER_SIZE 0\<rparr>"

definition pipe_create_file_pair :: "bool \<Rightarrow> bool \<Rightarrow> bool \<times> bool \<times> bool \<times> bool
    \<Rightarrow> (int, pipe_state \<times> open_mode \<times> open_mode) sum" where
  "pipe_create_file_pair outs state_ok allocs =
     (if \<not> outs then Inl (- EINVAL)
      else if \<not> state_ok then Inl (- ENOMEM)
      else case allocs of (read_inode, write_inode, read_file, write_file) \<Rightarrow>
        if \<not> read_inode \<or> \<not> write_inode \<or> \<not> read_file \<or> \<not> write_file then Inl (- ENOMEM)
        else Inr (pipe_new, O_RDONLY, O_WRONLY))"

definition pipe_set_nonblock :: "open_mode \<Rightarrow> pipe_state \<Rightarrow> pipe_state" where
  "pipe_set_nonblock mode s =
     (if mode = O_WRONLY then s\<lparr>write_nonblock := 1\<rparr> else s\<lparr>nonblock := 1\<rparr>)"

text \<open>The state after a release, \<open>None\<close> when it is freed, which also empties the wait queue.\<close>

definition pipe_file_release :: "open_mode \<Rightarrow> pipe_state \<Rightarrow> pipe_state option" where
  "pipe_file_release mode s =
     (let s' = (if mode = O_RDONLY then s\<lparr>readers := readers s - 1\<rparr>
                else if mode = O_WRONLY then s\<lparr>writers := writers s - 1\<rparr> else s)
      in if readers s' \<le> 0 \<and> writers s' \<le> 0 then None else Some s')"

section \<open>The ring invariant\<close>

definition pipe_inv :: "pipe_state \<Rightarrow> bool" where
  "pipe_inv s \<longleftrightarrow> length (pbuffer s) = PIPE_BUFFER_SIZE \<and> read_pos s < PIPE_BUFFER_SIZE
     \<and> pcount s \<le> PIPE_BUFFER_SIZE \<and> write_pos s = (read_pos s + pcount s) mod PIPE_BUFFER_SIZE"

definition pipe_contents :: "pipe_state \<Rightarrow> bytes" where
  "pipe_contents s = ring_slice (pbuffer s) (read_pos s) (pcount s)"

lemma min_size_min [simp]: "min_size a b = min a b"
  by (simp add: min_size_def)

lemma length_pipe_contents [simp]: "length (pipe_contents s) = pcount s"
  by (simp add: pipe_contents_def)

lemma pipe_new_inv: "pipe_inv pipe_new" and pipe_new_contents: "pipe_contents pipe_new = []"
  by (simp_all add: pipe_inv_def pipe_contents_def pipe_new_def)

text \<open>The two copies of one read, and of one write, are the ring operations.\<close>

lemma pipe_read_loop_done:
  "\<not> (copied < sz \<and> pcount s > 0) \<Longrightarrow> pipe_read_loop s sz copied dst = (s, copied, dst)"
  unfolding pipe_read_loop.simps [of s sz copied dst] by (rule if_not_P)

lemma ring_turn:
  assumes "p < L" and "n \<le> L" and "f = min n (L - p)" and "0 < n - f"
  shows "(p + f) mod L = 0" and "(p + n) mod L = n - (f::nat)"
proof -
  have f: "f = L - p" using assms(3,4) by linarith
  with assms(1) show "(p + f) mod L = 0" by simp
  have "p + n = (n - f) + L" "n - f < L" using f assms by linarith+
  then show "(p + n) mod L = n - f" by simp
qed

lemma pipe_read_loop_spec:
  assumes "pipe_inv s" and n: "min sz (pcount s) = n"
  shows "pipe_read_loop s sz 0 [] =
    (s\<lparr>read_pos := (read_pos s + n) mod PIPE_BUFFER_SIZE, pcount := pcount s - n\<rparr>, n,
     ring_slice (pbuffer s) (read_pos s) n)"
proof (cases "0 < n")
  case False
  then have "n = 0" "\<not> (0 < sz \<and> pcount s > 0)" using n by auto
  moreover from assms(1) have "(read_pos s + 0) mod PIPE_BUFFER_SIZE = read_pos s" by (simp add: pipe_inv_def)
  ultimately show ?thesis by (simp add: pipe_read_loop_done)
next
  case True
  define f where "f = min n (PIPE_BUFFER_SIZE - read_pos s)"
  have inv: "length (pbuffer s) = PIPE_BUFFER_SIZE" "read_pos s < PIPE_BUFFER_SIZE" "n \<le> PIPE_BUFFER_SIZE"
    using assms by (auto simp: pipe_inv_def)
  then have sub: "sz_sub PIPE_BUFFER_SIZE (read_pos s) = PIPE_BUFFER_SIZE - read_pos s" by simp
  have stop: "\<not> (n < sz \<and> pcount s - n > 0)" using n by linarith
  have go: "0 < sz \<and> pcount s > 0" using True n by linarith
  have get: "ring_slice (pbuffer s) (read_pos s) n =
      take f (drop (read_pos s) (pbuffer s)) @ take (n - f) (pbuffer s)"
    using ring_get_slice [of "read_pos s" "pbuffer s" n] inv
    by (simp add: ring_get_def f_def Let_def min.commute)
  note step = pipe_read_loop.simps [of s sz 0 "[]", unfolded if_P [OF go] Let_def min_size_min sub
      diff_zero n f_def [symmetric] add_0 append_Nil]
  show ?thesis
  proof (cases "0 < n - f")
    case True
    then have "f + (n - f) = n" "pcount s - f - (n - f) = pcount s - n" by simp_all
    with True stop show ?thesis
      using ring_turn [OF inv(2,3) f_def True] unfolding step if_P [OF True]
      by (simp add: get pipe_read_loop_done)
  next
    case False
    then have "f = n" by (simp add: f_def)
    with stop show ?thesis unfolding step if_not_P [OF False] by (simp add: get pipe_read_loop_done)
  qed
qed

lemma pipe_write_loop_done:
  "\<not> (copied < length src \<and> pcount s < PIPE_BUFFER_SIZE) \<Longrightarrow> pipe_write_loop s src copied = (s, copied)"
  unfolding pipe_write_loop.simps [of s src copied] by (rule if_not_P)

lemma pipe_write_loop_spec:
  assumes "pipe_inv s" and "copied \<le> length src"
    and n: "min (length src - copied) (PIPE_BUFFER_SIZE - pcount s) = n"
  shows "pipe_write_loop s src copied =
    (s\<lparr>pbuffer := ring_put (pbuffer s) (write_pos s) (take n (drop copied src)),
       write_pos := (write_pos s + n) mod PIPE_BUFFER_SIZE, pcount := pcount s + n\<rparr>, copied + n)"
proof (cases "0 < n")
  case False
  then have "n = 0" "\<not> (copied < length src \<and> pcount s < PIPE_BUFFER_SIZE)" using n by auto
  moreover have "write_pos s mod PIPE_BUFFER_SIZE = write_pos s" using assms(1) by (simp add: pipe_inv_def)
  ultimately show ?thesis by (simp add: pipe_write_loop_done ring_put_def)
next
  case True
  define f where "f = min n (PIPE_BUFFER_SIZE - write_pos s)"
  have inv: "length (pbuffer s) = PIPE_BUFFER_SIZE" "write_pos s < PIPE_BUFFER_SIZE" "n \<le> PIPE_BUFFER_SIZE"
    using assms by (auto simp: pipe_inv_def)
  then have sub: "sz_sub PIPE_BUFFER_SIZE (write_pos s) = PIPE_BUFFER_SIZE - write_pos s" by simp
  have go: "copied < length src \<and> pcount s < PIPE_BUFFER_SIZE" using True n by linarith
  have stop: "\<not> (copied + n < length src \<and> pcount s + n < PIPE_BUFFER_SIZE)" using n by linarith
  have ln: "length (take n (drop copied src)) = n" using assms(2) n by auto
  have put: "ring_put (pbuffer s) (write_pos s) (take n (drop copied src)) =
      blit (blit (pbuffer s) (write_pos s) (take f (drop copied src))) 0
        (take (n - f) (drop (copied + f) src))"
  proof -
    have "min (length (pbuffer s) - write_pos s) n = f" "min f n = f"
      using inv by (simp_all add: f_def min.commute)
    then show ?thesis unfolding ring_put_def Let_def ln by (simp add: drop_take add.commute)
  qed
  note step = pipe_write_loop.simps [of s src copied, unfolded if_P [OF go] Let_def min_size_min sub
      n f_def [symmetric]]
  show ?thesis
  proof (cases "0 < n - f")
    case True
    then have "copied + f + (n - f) = copied + n" "pcount s + f + (n - f) = pcount s + n" by simp_all
    with True stop show ?thesis
      using ring_turn [OF inv(2,3) f_def True] unfolding step if_P [OF True]
      by (simp add: put pipe_write_loop_done)
  next
    case False
    then have "f = n" by (simp add: f_def)
    with stop show ?thesis unfolding step if_not_P [OF False] by (simp add: put pipe_write_loop_done)
  qed
qed

lemma pipe_read_contents:
  assumes "pipe_inv s" and "pipe_read_loop s sz 0 [] = (s', n, dst)"
  shows "pipe_inv s' \<and> n = min sz (pcount s) \<and> dst = take sz (pipe_contents s)
    \<and> pipe_contents s' = drop sz (pipe_contents s) \<and> (n = 0 \<longrightarrow> s' = s)
    \<and> writers s' = writers s \<and> readers s' = readers s \<and> nonblock s' = nonblock s"
proof -
  let ?n = "min sz (pcount s)"
  have r: "s' = s\<lparr>read_pos := (read_pos s + ?n) mod PIPE_BUFFER_SIZE, pcount := pcount s - ?n\<rparr>"
      "n = ?n" "dst = ring_slice (pbuffer s) (read_pos s) ?n"
    using pipe_read_loop_spec [OF assms(1) refl, of sz] assms(2) by auto
  have inv: "pipe_inv s'"
    using assms(1) ring_pos_add [of ?n "pcount s" "read_pos s" PIPE_BUFFER_SIZE]
    by (auto simp: r(1) pipe_inv_def)
  have t: "take sz (pipe_contents s) = take ?n (pipe_contents s)"
    "drop sz (pipe_contents s) = drop ?n (pipe_contents s)"
    by (auto simp: min_def)
  have "pipe_contents s' = drop sz (pipe_contents s)"
    unfolding t using assms(1) by (simp add: r(1) pipe_contents_def pipe_inv_def)
  moreover have "dst = take sz (pipe_contents s)" unfolding t by (simp add: r(3) pipe_contents_def)
  moreover have "n = 0 \<longrightarrow> s' = s" using r(1,2) assms(1) by (auto simp: pipe_inv_def)
  ultimately show ?thesis using inv r by simp
qed

lemma pipe_write_contents:
  assumes "pipe_inv s" and "copied \<le> length src" and "pipe_write_loop s src copied = (s', c')"
  shows "pipe_inv s' \<and> c' = copied + min (length src - copied) (PIPE_BUFFER_SIZE - pcount s)
    \<and> pipe_contents s' = pipe_contents s @ take (c' - copied) (drop copied src)
    \<and> pcount s' = pcount s + (c' - copied) \<and> (c' = copied \<longrightarrow> s' = s)
    \<and> writers s' = writers s \<and> readers s' = readers s \<and> write_nonblock s' = write_nonblock s"
proof -
  define n where "n = min (length src - copied) (PIPE_BUFFER_SIZE - pcount s)"
  define d where "d = take n (drop copied src)"
  have r: "s' = s\<lparr>pbuffer := ring_put (pbuffer s) (write_pos s) d,
       write_pos := (write_pos s + n) mod PIPE_BUFFER_SIZE, pcount := pcount s + n\<rparr>" "c' = copied + n"
    using pipe_write_loop_spec [OF assms(1,2) n_def [symmetric]] assms(3) by (auto simp: d_def)
  have ld: "length d = n" by (simp add: d_def n_def)
  have le: "pcount s + n \<le> PIPE_BUFFER_SIZE" using assms(1) unfolding n_def pipe_inv_def by linarith
  have b: "length (pbuffer s) = PIPE_BUFFER_SIZE" "read_pos s < length (pbuffer s)"
    "pcount s + length d \<le> length (pbuffer s)"
    "write_pos s = (read_pos s + pcount s) mod length (pbuffer s)"
    using assms(1) ld le by (auto simp: pipe_inv_def)
  have w: "write_pos s < length (pbuffer s)" unfolding b(4) b(1) by (rule mod_less_divisor) simp
  have "length d \<le> length (pbuffer s)" using b(3) by linarith
  with w have lp: "length (ring_put (pbuffer s) (write_pos s) d) = length (pbuffer s)"
    by (rule length_ring_put)
  have "pipe_contents s' = pipe_contents s @ d"
    using ring_slice_put [OF b(2,3)] by (simp add: r(1) pipe_contents_def b(4) ld)
  moreover have "(write_pos s + n) mod PIPE_BUFFER_SIZE = (read_pos s + (pcount s + n)) mod PIPE_BUFFER_SIZE"
    unfolding b(4) b(1) by (simp only: mod_add_left_eq add.assoc)
  then have "pipe_inv s'"
    using b(1,2) lp le by (simp add: r(1) pipe_inv_def)
  moreover have "s' = s" if "n = 0"
    using r(1) w b(1) that by (simp add: ring_put_def d_def)
  ultimately show ?thesis using r by (simp add: n_def d_def)
qed

text \<open>The buffer is a bounded queue of bytes.\<close>

definition pipe_push :: "pipe_state \<Rightarrow> bytes \<Rightarrow> pipe_state \<times> nat" where
  "pipe_push s xs = pipe_write_loop s xs 0"

definition pipe_pop :: "pipe_state \<Rightarrow> nat \<Rightarrow> pipe_state \<times> bytes" where
  "pipe_pop s k = (let (s', n, dst) = pipe_read_loop s k 0 [] in (s', dst))"

lemma pipe_pop_eq: "pipe_inv s \<Longrightarrow> pipe_inv (fst (pipe_pop s k)) \<and> snd (pipe_pop s k) = take k (pipe_contents s)
    \<and> pipe_contents (fst (pipe_pop s k)) = drop k (pipe_contents s)"
  by (cases "pipe_read_loop s k 0 []") (simp add: pipe_pop_def pipe_read_contents)

lemma pipe_push_eq: "pipe_inv s \<Longrightarrow> pipe_inv (fst (pipe_push s xs))
    \<and> snd (pipe_push s xs) = min (length xs) (PIPE_BUFFER_SIZE - pcount s)
    \<and> pipe_contents (fst (pipe_push s xs)) = pipe_contents s @ take (snd (pipe_push s xs)) xs"
  using pipe_write_contents [of s 0 xs "fst (pipe_push s xs)" "snd (pipe_push s xs)"]
  by (simp add: pipe_push_def)

interpretation pipe_q: bounded_fifo pipe_inv pipe_contents PIPE_BUFFER_SIZE pipe_push pipe_pop
  by unfold_locales (simp_all add: pipe_pop_eq pipe_push_eq, simp add: pipe_inv_def)

section \<open>Turns\<close>

text \<open>A turn of a read on a pipe in its invariant, branch by branch.\<close>

lemma pipe_read_turn_eq:
  assumes "pipe_inv s" and "0 < sz"
  shows "pipe_contents s \<noteq> [] \<Longrightarrow> \<exists>s'. pipe_read_turn True (Some s) sz intr =
      (Some s', Return (int (min sz (pcount s))), take sz (pipe_contents s), True)
      \<and> pipe_inv s' \<and> pipe_contents s' = drop sz (pipe_contents s)"
    and "pipe_contents s = [] \<Longrightarrow> pipe_read_turn True (Some s) sz intr =
      (Some s, (if writers s = 0 then Return 0 else if nonblock s \<noteq> 0 then Return (- EAGAIN)
                else if intr then Return (- EINTR) else Recheck), [], False)"
proof -
  obtain s' n dst where l: "pipe_read_loop s sz 0 [] = (s', n, dst)" by (metis prod_cases3)
  note c = pipe_read_contents [OF assms(1) l]
  have e: "pipe_contents s = [] \<longleftrightarrow> pcount s = 0" by (metis length_0_conv length_pipe_contents)
  show "\<exists>s'. pipe_read_turn True (Some s) sz intr =
      (Some s', Return (int (min sz (pcount s))), take sz (pipe_contents s), True)
      \<and> pipe_inv s' \<and> pipe_contents s' = drop sz (pipe_contents s)" if "pipe_contents s \<noteq> []"
    using that e c assms(2) by (intro exI [of _ s']) (simp add: pipe_read_turn_def l)
  show "pipe_read_turn True (Some s) sz intr =
      (Some s, (if writers s = 0 then Return 0 else if nonblock s \<noteq> 0 then Return (- EAGAIN)
                else if intr then Return (- EINTR) else Recheck), [], False)" if "pipe_contents s = []"
    using that e c assms(2) by (simp add: pipe_read_turn_def l)
qed

lemma pipe_write_turn_eq:
  assumes "pipe_inv s" and "copied \<le> length src"
    and "pipe_write_turn args (Some s) src copied intr = (st', out, c', woken)"
  shows "\<exists>s'. st' = Some s' \<and> pipe_inv s' \<and> copied \<le> c' \<and> c' \<le> length src
    \<and> pipe_contents s' = pipe_contents s @ take (c' - copied) (drop copied src)
    \<and> readers s' = readers s \<and> writers s' = writers s \<and> (woken \<or> s' = s)"
proof (cases "\<not> args \<or> src = [] \<or> readers s = 0")
  case True
  then have "st' = Some s" "c' = copied" using assms(3) by (auto simp: pipe_write_turn_def split: if_splits)
  with assms(1,2) show ?thesis by simp
next
  case False
  obtain s' k where l: "pipe_write_loop s src copied = (s', k)" by fastforce
  note c = pipe_write_contents [OF assms(1,2) l]
  have "st' = Some s'" "c' = k" "woken = (k > 0)"
    using False assms(3) by (auto simp: pipe_write_turn_def l Let_def split: if_splits)
  moreover have k: "k = copied + min (length src - copied) (PIPE_BUFFER_SIZE - pcount s)"
    "k = copied \<longrightarrow> s' = s" using c by blast+
  then have "copied \<le> k" "k \<le> length src" "k = 0 \<longrightarrow> s' = s" using assms(2) by linarith+
  ultimately show ?thesis using c by blast
qed

lemma pipe_read_turn_any:
  assumes "pipe_inv s" and "pipe_read_turn args (Some s) sz intr = (st', out, dst, woken)"
  shows "\<exists>s'. st' = Some s' \<and> pipe_inv s' \<and> pipe_contents s = dst @ pipe_contents s' \<and> (woken \<or> s' = s)"
proof (cases "\<not> args \<or> sz = 0")
  case True
  with assms show ?thesis by (simp add: pipe_read_turn_def)
next
  case False
  with pipe_read_turn_eq [OF assms(1), of sz intr] assms show ?thesis
    by (cases "pipe_contents s = []") auto
qed

section \<open>Interleavings\<close>

text \<open>
  The pipe, the tasks asleep in a read and in a write, and the wake-ups that are under way: a
  call drops the lock before it wakes the queue, so other tasks may run in between.
\<close>

record pipe_sys =
  sys_pipe :: "pipe_state option"
  asleep_r :: "nat set"
  asleep_w :: "nat set"
  wakes :: nat

text \<open>
  \<open>pipe_reach y sent got\<close>: the system can be in \<open>y\<close> after calls that accepted the bytes
  \<open>sent\<close> and handed out the bytes \<open>got\<close>. A call makes its turns one by one; between them
  any other task may run, be woken, or leave its sleep for a signal.
\<close>

inductive pipe_reach :: "pipe_sys \<Rightarrow> bytes \<Rightarrow> bytes \<Rightarrow> bool" where
  create: "pipe_create_file_pair outs ok allocs = Inr (s, r, w) \<Longrightarrow>
    pipe_reach \<lparr>sys_pipe = Some s, asleep_r = {}, asleep_w = {}, wakes = 0\<rparr> [] []"
| read_turn: "pipe_reach y sent got \<Longrightarrow> sys_pipe y = Some s \<Longrightarrow>
    pipe_read_turn args (Some s) sz intr = (st', out, dst, woken) \<Longrightarrow>
    pipe_reach (y\<lparr>sys_pipe := st', wakes := wakes y + of_bool woken\<rparr>) sent (got @ dst)"
| read_sleep: "pipe_reach y sent got \<Longrightarrow> sys_pipe y = Some s \<Longrightarrow> pipe_read_recheck s same = Sleep \<Longrightarrow>
    pipe_reach (y\<lparr>asleep_r := insert t (asleep_r y)\<rparr>) sent got"
| write_turn: "pipe_reach y sent got \<Longrightarrow> sys_pipe y = Some s \<Longrightarrow> copied \<le> length src \<Longrightarrow>
    pipe_write_turn args (Some s) src copied intr = (st', out, copied', woken) \<Longrightarrow>
    pipe_reach (y\<lparr>sys_pipe := st', wakes := wakes y + of_bool woken\<rparr>)
      (sent @ take (copied' - copied) (drop copied src)) got"
| write_sleep: "pipe_reach y sent got \<Longrightarrow> sys_pipe y = Some s \<Longrightarrow> pipe_write_recheck s same = Sleep \<Longrightarrow>
    pipe_reach (y\<lparr>asleep_w := insert t (asleep_w y)\<rparr>) sent got"
| ioctl: "pipe_reach y sent got \<Longrightarrow> sys_pipe y = Some s \<Longrightarrow>
    pipe_flags_ioctl (Some s) request arg user wr_ok wend = (st', rc, wb) \<Longrightarrow>
    pipe_reach (y\<lparr>sys_pipe := st'\<rparr>) sent got"
| set_nonblock: "pipe_reach y sent got \<Longrightarrow> sys_pipe y = Some s \<Longrightarrow>
    pipe_reach (y\<lparr>sys_pipe := Some (pipe_set_nonblock mode s)\<rparr>) sent got"
| release: "pipe_reach y sent got \<Longrightarrow> sys_pipe y = Some s \<Longrightarrow> pipe_file_release mode s = Some s' \<Longrightarrow>
    pipe_reach (y\<lparr>sys_pipe := Some s', wakes := wakes y + 1\<rparr>) sent got"
| release_last: "pipe_reach y sent got \<Longrightarrow> sys_pipe y = Some s \<Longrightarrow> pipe_file_release mode s = None \<Longrightarrow>
    pipe_reach (y\<lparr>sys_pipe := None, asleep_r := {}, asleep_w := {}\<rparr>) sent got"
| wake: "pipe_reach y sent got \<Longrightarrow> 0 < wakes y \<Longrightarrow>
    pipe_reach (y\<lparr>asleep_r := {}, asleep_w := {}, wakes := wakes y - 1\<rparr>) sent got"
| signal: "pipe_reach y sent got \<Longrightarrow>
    pipe_reach (y\<lparr>asleep_r := asleep_r y - {t}, asleep_w := asleep_w y - {t}\<rparr>) sent got"

definition stream_ok :: "pipe_state option \<Rightarrow> bytes \<Rightarrow> bytes \<Rightarrow> bool" where
  "stream_ok st sent got = (case st of None \<Rightarrow> \<exists>lost. sent = got @ lost
     | Some s \<Rightarrow> pipe_inv s \<and> sent = got @ pipe_contents s)"

definition sleepers_ok :: "pipe_sys \<Rightarrow> bool" where
  "sleepers_ok y = (case sys_pipe y of None \<Rightarrow> asleep_r y = {} \<and> asleep_w y = {}
     | Some s \<Rightarrow> (asleep_r y \<noteq> {} \<longrightarrow> pcount s = 0 \<and> writers s \<noteq> 0)
              \<and> (asleep_w y \<noteq> {} \<longrightarrow> pcount s = PIPE_BUFFER_SIZE \<and> readers s \<noteq> 0))"

lemma pipe_flag_ops:
  "pipe_flags_ioctl (Some s) request arg user wr_ok wend = (st', rc, wb) \<Longrightarrow>
   \<exists>a b. st' = Some (s\<lparr>nonblock := a, write_nonblock := b\<rparr>)"
  "\<exists>a b. pipe_set_nonblock mode s = s\<lparr>nonblock := a, write_nonblock := b\<rparr>"
  by (cases s; auto simp: pipe_flags_ioctl_def pipe_set_nonblock_def Let_def split: if_splits option.splits)+

lemma pipe_flag_update [simp]:
  "pipe_inv (s\<lparr>nonblock := a, write_nonblock := b\<rparr>) = pipe_inv s"
  "pipe_contents (s\<lparr>nonblock := a, write_nonblock := b\<rparr>) = pipe_contents s"
  "pipe_inv (s\<lparr>readers := r\<rparr>) = pipe_inv s" "pipe_inv (s\<lparr>writers := r\<rparr>) = pipe_inv s"
  "pipe_contents (s\<lparr>readers := r\<rparr>) = pipe_contents s" "pipe_contents (s\<lparr>writers := r\<rparr>) = pipe_contents s"
  by (simp_all add: pipe_inv_def pipe_contents_def)

lemma pipe_release_contents:
  "pipe_file_release mode s = Some s' \<Longrightarrow> pipe_inv s' = pipe_inv s \<and> pipe_contents s' = pipe_contents s"
  by (auto simp: pipe_file_release_def Let_def split: if_splits)

lemma pipe_reach_stream: "pipe_reach y sent got \<Longrightarrow> stream_ok (sys_pipe y) sent got"
proof (induction rule: pipe_reach.induct)
  case (create outs ok allocs s r w)
  then have "s = pipe_new" by (auto simp: pipe_create_file_pair_def split: if_splits prod.splits)
  then show ?case by (simp add: stream_ok_def pipe_new_inv pipe_new_contents)
next
  case (read_turn y sent got s args sz intr st' out dst woken)
  then show ?case using pipe_read_turn_any [OF _ read_turn.hyps(3)] by (auto simp: stream_ok_def)
next
  case (write_turn y sent got s copied src args intr st' out copied' woken)
  then show ?case using pipe_write_turn_eq [OF _ write_turn.hyps(3,4)] by (auto simp: stream_ok_def)
next
  case (ioctl y sent got s request arg user wr_ok wend st' rc wb)
  then show ?case using pipe_flag_ops(1) [OF ioctl.hyps(3)] by (auto simp: stream_ok_def)
next
  case (set_nonblock y sent got s mode)
  then show ?case using pipe_flag_ops(2) [of mode s] by (auto simp: stream_ok_def)
next
  case (release y sent got s mode s')
  then show ?case using pipe_release_contents [OF release.hyps(3)] by (auto simp: stream_ok_def)
qed (auto simp: stream_ok_def)

lemma pipe_reach_sleepers: "pipe_reach y sent got \<Longrightarrow> 0 < wakes y \<or> sleepers_ok y"
proof (induction rule: pipe_reach.induct)
  case (read_turn y sent got s args sz intr st' out dst woken)
  from pipe_reach_stream [OF read_turn.hyps(1)] read_turn.hyps(2) have "pipe_inv s"
    by (simp add: stream_ok_def)
  from pipe_read_turn_any [OF this read_turn.hyps(3)] read_turn show ?case
    by (auto simp: sleepers_ok_def)
next
  case (write_turn y sent got s copied src args intr st' out copied' woken)
  from pipe_reach_stream [OF write_turn.hyps(1)] write_turn.hyps(2) have "pipe_inv s"
    by (simp add: stream_ok_def)
  from pipe_write_turn_eq [OF this write_turn.hyps(3,4)] write_turn show ?case
    by (auto simp: sleepers_ok_def)
next
  case (ioctl y sent got s request arg user wr_ok wend st' rc wb)
  then show ?case using pipe_flag_ops(1) [OF ioctl.hyps(3)] by (auto simp: sleepers_ok_def)
next
  case (set_nonblock y sent got s mode)
  then show ?case using pipe_flag_ops(2) [of mode s] by (auto simp: sleepers_ok_def)
next
  case (signal y sent got t)
  then show ?case by (auto simp: sleepers_ok_def split: option.splits)
next
  case (wake y sent got)
  then show ?case by (auto simp: sleepers_ok_def split: option.splits)
qed (auto simp: sleepers_ok_def pipe_read_recheck_def pipe_write_recheck_def split: if_splits)

text \<open>C4. However the reads and writes of any number of tasks interleave, the bytes the readers
  got are the bytes the writers had accepted, in order, none lost and none twice; what is still
  under way is in the buffer, which never holds more than its 4096 bytes.\<close>

theorem pipe_stream_in_order:
  assumes "pipe_reach y sent got" and "sys_pipe y = Some s"
  shows "sent = got @ pipe_contents s \<and> length (pipe_contents s) \<le> PIPE_BUFFER_SIZE"
  using pipe_reach_stream [OF assms(1)] assms(2) pipe_q.contents_bound [of s]
  by (simp add: stream_ok_def)

lemma pipe_write_all:
  assumes "pipe_inv s" and "src \<noteq> []" and "readers s \<noteq> 0" and "length src \<le> PIPE_BUFFER_SIZE - pcount s"
  shows "\<exists>s'. pipe_write_turn True (Some s) src 0 intr = (Some s', Return (int (length src)), length src, True)
    \<and> pipe_inv s' \<and> pipe_contents s' = pipe_contents s @ src"
proof -
  obtain s' c where l: "pipe_write_loop s src 0 = (s', c)" by fastforce
  have "c = length src" "pipe_inv s'" "pipe_contents s' = pipe_contents s @ src"
    using pipe_write_contents [OF assms(1) _ l] assms(4) by auto
  with assms(2,3) l show ?thesis by (simp add: pipe_write_turn_def)
qed

lemma demo_pipe: "\<exists>y s. pipe_reach y [1, 2, 3] [1, 2] \<and> sys_pipe y = Some s"
proof -
  let ?y = "\<lparr>sys_pipe = Some pipe_new, asleep_r = {}, asleep_w = {}, wakes = 0\<rparr>"
  have y: "pipe_reach ?y [] []"
    by (rule pipe_reach.create [of True True "(True, True, True, True)" pipe_new O_RDONLY O_WRONLY])
       (simp add: pipe_create_file_pair_def)
  obtain s1 where w: "pipe_write_turn True (Some pipe_new) [1, 2, 3] 0 False = (Some s1, Return 3, 3, True)"
    "pipe_inv s1" "pipe_contents s1 = [1, 2, 3]"
    using pipe_write_all [OF pipe_new_inv, of "[1, 2, 3]" False]
    by (auto simp: pipe_new_def pipe_contents_def)
  obtain s2 out where r: "pipe_read_turn True (Some s1) 2 False = (Some s2, out, [1, 2], True)"
    using pipe_read_turn_eq(1) [OF w(2), of 2 False] w(3) by auto
  have "pipe_reach (?y\<lparr>sys_pipe := Some s1, wakes := 1\<rparr>) [1, 2, 3] []"
    using pipe_reach.write_turn [OF y _ _ w(1)] by simp
  from pipe_reach.read_turn [OF this _ r] show ?thesis by (intro exI [of _ s2] exI conjI) auto
qed

theorem pipe_stream_in_order_witness:
  "\<exists>y s. pipe_reach y [1, 2, 3] [1, 2] \<and> sys_pipe y = Some s \<and> pipe_contents s = [3]"
proof -
  obtain y s where r: "pipe_reach y [1, 2, 3] [1, 2]" "sys_pipe y = Some s" using demo_pipe by blast
  from pipe_stream_in_order [OF this] have "pipe_contents s = [3]" by simp
  with r show ?thesis by blast
qed

text \<open>C5. No wake-up is lost: when no wake-up is under way, a task asleep in a read faces an
  empty pipe that still has a writer, and a task asleep in a write faces a full pipe that still
  has a reader; after the last release nobody is left asleep.\<close>

theorem pipe_no_lost_wakeup:
  assumes "pipe_reach y sent got" and "wakes y = 0"
  shows "case sys_pipe y of
      None \<Rightarrow> asleep_r y = {} \<and> asleep_w y = {}
    | Some s \<Rightarrow> (asleep_r y = {} \<or> pcount s = 0 \<and> writers s \<noteq> 0)
             \<and> (asleep_w y = {} \<or> pcount s = PIPE_BUFFER_SIZE \<and> readers s \<noteq> 0)"
  using pipe_reach_sleepers [OF assms(1)] assms(2) by (auto simp: sleepers_ok_def split: option.splits)

theorem pipe_no_lost_wakeup_witness:
  "\<exists>y s. pipe_reach y [] [] \<and> wakes y = 0 \<and> sys_pipe y = Some s \<and> asleep_r y = {7} \<and> pcount s = 0"
proof -
  let ?y = "\<lparr>sys_pipe = Some pipe_new, asleep_r = {}, asleep_w = {}, wakes = 0\<rparr>"
  have "pipe_reach ?y [] []"
    by (rule pipe_reach.create [of True True "(True, True, True, True)" pipe_new O_RDONLY O_WRONLY])
       (simp add: pipe_create_file_pair_def)
  then have r: "pipe_reach (?y\<lparr>asleep_r := insert 7 (asleep_r ?y)\<rparr>) [] []"
    by (rule pipe_reach.read_sleep [where s = pipe_new and same = True])
       (simp_all add: pipe_read_recheck_def pipe_new_def)
  from pipe_no_lost_wakeup [OF r] r show ?thesis by (intro exI conjI) auto
qed

text \<open>C21. What a read of a pipe returns: the oldest bytes, as many as are there and asked for;
  on an empty pipe the end of the file once the last writer is gone, \<open>EAGAIN\<close> on a
  non-blocking end, \<open>EINTR\<close> for a signal, and otherwise it goes to sleep.\<close>

theorem pipe_read_branches:
  assumes "pipe_inv s" and "0 < sz"
  shows "\<exists>s'. pipe_inv s' \<and> pipe_contents s' = drop sz (pipe_contents s) \<and>
    pipe_read_turn True (Some s) sz intr =
      (Some s', (if pipe_contents s \<noteq> [] then Return (int (min sz (length (pipe_contents s))))
                 else if writers s = 0 then Return 0
                 else if nonblock s \<noteq> 0 then Return (- EAGAIN)
                 else if intr then Return (- EINTR) else Recheck),
       take sz (pipe_contents s), pipe_contents s \<noteq> [])"
  using pipe_read_turn_eq [OF assms] assms(1) by (cases "pipe_contents s = []") auto

theorem pipe_read_branches_witness:
  "\<exists>s'. pipe_read_turn True (Some pipe_new) 10 True = (Some s', Return (- EINTR), [], False)"
  using pipe_read_branches [OF pipe_new_inv, of 10 True] pipe_new_contents
  by (auto simp: pipe_new_def)



end
