(* ===== verification/Clock.thy ===== *)
theory Clock
  imports Prelude "HOL-Library.Signed_Division"
begin

text \<open>
  Time keeping: the extension of a 32-bit HPET counter to 64 bits and the time stamp counter
  that replaces it (\<open>kernel/src/ACPI/impl/acpi_hpet.c\<close>), the conversions between counts,
  nanoseconds and time stamps (\<open>kernel/src/sched/clock.c\<close>,
  \<open>kernel/src/syscalls/impl/sys_clock.c\<close>) and the calendar of the file systems
  (\<open>kernel/src/ACPI/impl/acpi_time.c\<close>). Hardware registers are arguments. The calendar code
  computes in 64-bit signed integers far from their ends and is modelled on \<open>int\<close> with the
  truncating division of C.
\<close>

section \<open>The HPET counter\<close>

abbreviation (input) HPET_COUNTER_WRAP :: u64 where "HPET_COUNTER_WRAP \<equiv> 0x100000000"

record hpet_state =
  hpet_found :: bool
  hpet_counter_32 :: bool
  hpet_extended :: u64
  tsc_clock :: bool
  tsc_base :: u64
  tsc_counts_base :: u64
  tsc_mult :: u64
  tsc_last :: u64
  femtosecondsPerTick :: u64

text \<open>
  The value the time stamp counter stands for: a 128-bit product, shifted and cut to 64 bits.
\<close>

definition tsc_counts :: "hpet_state \<Rightarrow> u64 \<Rightarrow> u64" where
  "tsc_counts h tsc = tsc_counts_base h +
     ucast (drop_bit 32 ((ucast (tsc - tsc_base h) :: 128 word) * ucast (tsc_mult h)))"

text \<open>
  One turn of the compare-and-exchange loop on \<open>hpet_extended\<close>, with the extended value
  \<open>seen\<close> it has loaded: the value to return, and the value to store if there is one.
\<close>

definition hpet_extend :: "u64 \<Rightarrow> u64 \<Rightarrow> u64 \<times> u64 option" where
  "hpet_extend seen raw =
     (let now = (seen AND NOT (HPET_COUNTER_WRAP - 1)) OR raw
      in if now < seen then
           if seen - now < HPET_COUNTER_WRAP div 2 then (seen, None)
           else (now + HPET_COUNTER_WRAP, Some (now + HPET_COUNTER_WRAP))
         else (now, Some now))"

text \<open>
  \<open>raw\<close> is the main counter register and \<open>tsc\<close> the time stamp counter at the time of the
  call; the loops are run with the exchange that succeeds.
\<close>

definition hpet_read_counter :: "u64 \<Rightarrow> u64 \<Rightarrow> hpet_state \<Rightarrow> u64 \<times> hpet_state" where
  "hpet_read_counter raw tsc h =
     (if tsc_clock h then
        let now = tsc_counts h tsc
        in if now > tsc_last h then (now, h\<lparr>tsc_last := now\<rparr>) else (tsc_last h, h)
      else if \<not> hpet_found h then (0, h)
      else if \<not> hpet_counter_32 h then (raw, h)
      else case hpet_extend (hpet_extended h) (raw AND (HPET_COUNTER_WRAP - 1)) of
          (r, None) \<Rightarrow> (r, h)
        | (r, Some v) \<Rightarrow> (r, h\<lparr>hpet_extended := v\<rparr>))"

definition hpet_get_femtoseconds :: "u64 \<Rightarrow> u64 \<Rightarrow> hpet_state \<Rightarrow> u64 \<times> hpet_state" where
  "hpet_get_femtoseconds raw tsc h =
     (if \<not> hpet_found h \<or> femtosecondsPerTick h = 0 then (0, h)
      else let (c, h') = hpet_read_counter raw tsc h in (c * femtosecondsPerTick h, h'))"

definition hpet_tsc_params :: "hpet_state \<Rightarrow> (u64 \<times> u64 \<times> u64) option" where
  "hpet_tsc_params h = (if tsc_clock h then Some (tsc_base h, tsc_counts_base h, tsc_mult h) else None)"

section \<open>Counts, nanoseconds and time stamps\<close>

abbreviation (input) NS_PER_SEC :: u64 where "NS_PER_SEC \<equiv> 1000000000"
abbreviation (input) femtosecondsPerSecond :: u64 where "femtosecondsPerSecond \<equiv> 1000000000000000"
abbreviation (input) femtosecondsPerMillisecond :: u64 where "femtosecondsPerMillisecond \<equiv> 1000000000000"
abbreviation (input) femtosecondsPerNanosecond :: u64 where "femtosecondsPerNanosecond \<equiv> 1000000"

definition clock_ns_to_counts :: "u64 \<Rightarrow> u64 \<Rightarrow> u64" where
  "clock_ns_to_counts fpt ns =
     (if fpt = 0 then 0
      else let per_sec = femtosecondsPerSecond div fpt
           in (ns div NS_PER_SEC) * per_sec + (ns mod NS_PER_SEC) * femtosecondsPerNanosecond div fpt)"

definition clock_counts_to_ns :: "u64 \<Rightarrow> u64 \<Rightarrow> u64" where
  "clock_counts_to_ns fpt counts =
     (if fpt = 0 then 0
      else let per_sec = femtosecondsPerSecond div fpt
           in (counts div per_sec) * NS_PER_SEC + (counts mod per_sec) * fpt div femtosecondsPerNanosecond)"

record clock_timespec =
  tv_sec :: int
  tv_nsec :: int

definition ts_ok :: "clock_timespec \<Rightarrow> bool" where
  "ts_ok ts \<longleftrightarrow> tv_sec ts \<ge> 0 \<and> tv_nsec ts \<ge> 0 \<and> tv_nsec ts < 1000000000"

definition ts_ns :: "clock_timespec \<Rightarrow> u64" where
  "ts_ns ts = word_of_int (tv_sec ts) * 1000000000 + word_of_int (tv_nsec ts)"

definition ns_ts :: "u64 \<Rightarrow> clock_timespec" where
  "ns_ts ns = \<lparr>tv_sec = sint (ns div 1000000000), tv_nsec = sint (ns mod 1000000000)\<rparr>"

section \<open>The calendar\<close>

definition days_from_civil :: "int \<Rightarrow> int \<Rightarrow> int \<Rightarrow> int" where
  "days_from_civil y0 m d =
     (let y = y0 - (if m \<le> 2 then 1 else 0);
          era = (if y \<ge> 0 then y else y - 399) sdiv 400;
          yoe = y - era * 400;
          doy = (153 * (m + (if m > 2 then -3 else 9)) + 2) sdiv 5 + d - 1;
          doe = yoe * 365 + yoe sdiv 4 - yoe sdiv 100 + doy
      in era * 146097 + doe - 719468)"

definition clock_from_civil :: "int \<Rightarrow> int \<Rightarrow> int \<Rightarrow> int \<Rightarrow> int \<Rightarrow> int \<Rightarrow> int" where
  "clock_from_civil year mon day hour minute sec =
     days_from_civil year mon day * 86400 + hour * 3600 + minute * 60 + sec"

definition clock_from_dos :: "u16 \<Rightarrow> u16 \<Rightarrow> int" where
  "clock_from_dos date time =
     (if date = 0 then 0
      else clock_from_civil (1980 + uint (drop_bit 9 date)) (uint (drop_bit 5 date AND 0xF))
             (uint (date AND 0x1F)) (uint (drop_bit 11 time)) (uint (drop_bit 5 time AND 0x3F))
             (uint (time AND 0x1F) * 2))"

text \<open>The first half of \<open>clock_to_dos\<close>, from a number of days to year, month and day.\<close>

definition civil_from_days :: "int \<Rightarrow> int \<times> int \<times> int" where
  "civil_from_days days0 =
     (let days = days0 + 719468;
          era = (if days \<ge> 0 then days else days - 146096) sdiv 146097;
          doe = days - era * 146097;
          yoe = (doe - doe sdiv 1460 + doe sdiv 36524 - doe sdiv 146096) sdiv 365;
          doy = doe - (365 * yoe + yoe sdiv 4 - yoe sdiv 100);
          mp = (5 * doy + 2) sdiv 153;
          d = doy - (153 * mp + 2) sdiv 5 + 1;
          m = (if mp < 10 then mp + 3 else mp - 9)
      in (yoe + era * 400 + (if m \<le> 2 then 1 else 0), m, d))"

definition clock_to_dos :: "int \<Rightarrow> u32" where
  "clock_to_dos t =
     (let days = t sdiv 86400; rem = t smod 86400;
          (y, m, d) = civil_from_days days
      in if y < 1980 then 0
         else let date = word_of_int (push_bit 9 (y - 1980) OR push_bit 5 m OR d) :: u16;
                  time = word_of_int (push_bit 11 (rem sdiv 3600) OR push_bit 5 (rem sdiv 60 smod 60)
                           OR rem smod 60 sdiv 2) :: u16
              in push_bit 16 (ucast date) OR ucast time)"

section \<open>The real-time clock\<close>

definition bcd_to_bin :: "u8 \<Rightarrow> u8" where
  "bcd_to_bin v = drop_bit 4 v * 10 + (v AND 0x0F)"

record rtc_time =
  rtc_sec :: u8
  rtc_min :: u8
  rtc_hour :: u8
  rtc_day :: u8
  rtc_mon :: u8
  rtc_year :: u16

text \<open>
  \<open>cmos\<close> is the content of the CMOS registers while they are read, \<open>century\<close> the century
  register the FADT names, 0 for none or no FADT.
\<close>

definition rtc_get_time :: "(u8 \<Rightarrow> u8) \<Rightarrow> u8 \<Rightarrow> rtc_time" where
  "rtc_get_time cmos century =
     (let binary = cmos 0x0B AND 0x04 \<noteq> 0;
          cv = (\<lambda>v. if binary then v else bcd_to_bin v);
          year = ucast (cv (cmos 0x09)) :: u16
      in \<lparr>rtc_sec = cv (cmos 0x00), rtc_min = cv (cmos 0x02), rtc_hour = cv (cmos 0x04),
          rtc_day = cv (cmos 0x07), rtc_mon = cv (cmos 0x08),
          rtc_year = (if century \<noteq> 0 then year + ucast (cv (cmos century)) * 100
                      else if year < 70 then year + 2000 else year + 1900)\<rparr>)"

record clock_state =
  realtime_read :: bool
  realtime_base :: u64

definition clock_monotonic_ns :: "u64 \<Rightarrow> u64 \<Rightarrow> u64" where
  "clock_monotonic_ns fpt counter = clock_counts_to_ns fpt counter"

text \<open>The two counter values are those of the two calls that read the monotonic clock.\<close>

definition clock_realtime_ns :: "u64 \<Rightarrow> rtc_time \<Rightarrow> u64 \<Rightarrow> u64 \<Rightarrow> clock_state \<Rightarrow> u64 \<times> clock_state" where
  "clock_realtime_ns fpt t c1 c2 k =
     (let k' = (if realtime_read k then k
                else let secs = clock_from_civil (uint (rtc_year t)) (uint (rtc_mon t)) (uint (rtc_day t))
                                  (uint (rtc_hour t)) (uint (rtc_min t)) (uint (rtc_sec t))
                     in \<lparr>realtime_read = True,
                         realtime_base = word_of_int secs * NS_PER_SEC - clock_monotonic_ns fpt c1\<rparr>)
      in (realtime_base k' + clock_monotonic_ns fpt c2, k'))"

abbreviation (input) CLOCK_REALTIME :: int where "CLOCK_REALTIME \<equiv> 0"
abbreviation (input) CLOCK_MONOTONIC :: int where "CLOCK_MONOTONIC \<equiv> 1"
abbreviation (input) CLOCK_MONOTONIC_RAW :: int where "CLOCK_MONOTONIC_RAW \<equiv> 4"
abbreviation (input) CLOCK_REALTIME_COARSE :: int where "CLOCK_REALTIME_COARSE \<equiv> 5"
abbreviation (input) CLOCK_MONOTONIC_COARSE :: int where "CLOCK_MONOTONIC_COARSE \<equiv> 6"
abbreviation (input) CLOCK_BOOTTIME :: int where "CLOCK_BOOTTIME \<equiv> 7"

definition clock_read :: "int \<Rightarrow> u64 \<Rightarrow> rtc_time \<Rightarrow> u64 \<Rightarrow> u64 \<Rightarrow> clock_state \<Rightarrow> (int, u64) sum \<times> clock_state" where
  "clock_read clock fpt t c1 c2 k =
     (if clock = CLOCK_REALTIME \<or> clock = CLOCK_REALTIME_COARSE then
        let (ns, k') = clock_realtime_ns fpt t c1 c2 k in (Inr ns, k')
      else if clock = CLOCK_MONOTONIC \<or> clock = CLOCK_MONOTONIC_RAW \<or> clock = CLOCK_MONOTONIC_COARSE
              \<or> clock = CLOCK_BOOTTIME then
        (Inr (clock_monotonic_ns fpt c2), k)
      else (Inl (- EINVAL), k))"

text \<open>The time stamp a call hands to the user, when the copy out succeeds.\<close>

definition sys_clock_gettime :: "int \<Rightarrow> bool \<Rightarrow> bool \<Rightarrow> u64 \<Rightarrow> rtc_time \<Rightarrow> u64 \<Rightarrow> u64 \<Rightarrow> clock_state
    \<Rightarrow> int \<times> clock_timespec option \<times> clock_state" where
  "sys_clock_gettime clock user_ts wr_ok fpt t c1 c2 k =
     (case clock_read clock fpt t c1 c2 k of
        (Inl e, k') \<Rightarrow> (e, None, k')
      | (Inr ns, k') \<Rightarrow> if \<not> user_ts \<or> \<not> wr_ok then (- EFAULT, None, k') else (0, Some (ns_ts ns), k'))"

definition sys_clock_getres :: "int \<Rightarrow> bool \<Rightarrow> bool \<Rightarrow> u64 \<Rightarrow> rtc_time \<Rightarrow> u64 \<Rightarrow> u64 \<Rightarrow> clock_state
    \<Rightarrow> int \<times> clock_timespec option \<times> clock_state" where
  "sys_clock_getres clock user_ts wr_ok fpt t c1 c2 k =
     (case clock_read clock fpt t c1 c2 k of
        (Inl e, k') \<Rightarrow> (e, None, k')
      | (Inr ns, k') \<Rightarrow>
          if \<not> user_ts then (0, None, k')
          else let res = (if fpt \<noteq> 0 then (fpt + femtosecondsPerNanosecond - 1) div femtosecondsPerNanosecond else 1)
               in if wr_ok then (0, Some \<lparr>tv_sec = 0, tv_nsec = sint res\<rparr>, k') else (- EFAULT, None, k'))"

section \<open>Calendar arithmetic\<close>

lemma sdiv_pos [simp]: "0 \<le> a \<Longrightarrow> 0 < b \<Longrightarrow> a sdiv b = a div (b::int)"
  by (cases "a = 0") (simp_all add: signed_divide_int_def)

lemma smod_pos [simp]: "0 \<le> a \<Longrightarrow> 0 < b \<Longrightarrow> a smod b = a mod (b::int)"
  by (cases "a = 0") (simp_all add: signed_modulo_int_def minus_div_mult_eq_mod)

definition leap :: "int \<Rightarrow> bool" where
  "leap y \<longleftrightarrow> y mod 4 = 0 \<and> (y mod 100 \<noteq> 0 \<or> y mod 400 = 0)"

definition month_days :: "int \<Rightarrow> int \<Rightarrow> int" where
  "month_days y m = (if m = 2 then if leap y then 29 else 28
     else if m = 4 \<or> m = 6 \<or> m = 9 \<or> m = 11 then 30 else 31)"

text \<open>
  The day \<open>doy\<close> of the year \<open>k\<close> of a 400-year era, counted from the first of March, and
  the year recovered from it: years are split into centuries, leap cycles and the rest.
\<close>

definition era_days :: "int \<Rightarrow> int" where
  "era_days k = k * 365 + k div 4 - k div 100"

definition year_days :: "int \<Rightarrow> int" where
  "year_days k = (if leap (k + 1) then 366 else 365)"

lemma year_split:
  assumes "0 \<le> k" and "k < 400"
  obtains c q s :: int where "k = 100 * c + 4 * q + s" "0 \<le> c" "c \<le> 3" "0 \<le> q" "q \<le> 24" "0 \<le> s" "s \<le> 3"
    "era_days k = 36524 * c + 1461 * q + 365 * s"
    "year_days k = 366 \<and> s = 3 \<and> (q \<noteq> 24 \<or> c = 3) \<or> year_days k = 365 \<and> (s \<noteq> 3 \<or> q = 24 \<and> c \<noteq> 3)"
proof -
  define c q s where "c = k div 100" and "q = k mod 100 div 4" and "s = k mod 100 mod 4"
  have k: "k = 100 * c + 4 * q + s" by (simp add: c_def q_def s_def)
  have b: "0 \<le> c" "c \<le> 3" "0 \<le> q" "q \<le> 24" "0 \<le> s" "s \<le> 3"
    using assms by (auto simp: c_def q_def s_def)
  have "k div 100 = c" by (simp add: c_def)
  moreover have "k div 4 = 25 * c + q" using k b by (intro int_div_pos_eq [where r = s]) simp_all
  ultimately have d: "era_days k = 36524 * c + 1461 * q + 365 * s" by (simp add: era_days_def k)
  have "(k + 1) mod 4 = 0 \<longleftrightarrow> s = 3" using k b by presburger
  moreover have "(k + 1) mod 100 = (4 * q + s + 1) mod 100" unfolding k
    by (metis add.assoc mod_mult_self4)
  then have "(k + 1) mod 100 = 0 \<longleftrightarrow> 4 * q + s + 1 = 100"
    using b by (cases "4 * q + s + 1 = 100") (auto simp: mod_pos_pos_trivial)
  then have "(k + 1) mod 100 = 0 \<longleftrightarrow> q = 24 \<and> s = 3" using b by presburger
  moreover have "(k + 1) mod 400 = 0 \<longleftrightarrow> k = 399"
    using assms by (cases "k = 399") (auto simp: mod_pos_pos_trivial)
  then have "(k + 1) mod 400 = 0 \<longleftrightarrow> c = 3 \<and> q = 24 \<and> s = 3" using k b by linarith
  ultimately have "year_days k = 366 \<and> s = 3 \<and> (q \<noteq> 24 \<or> c = 3) \<or> year_days k = 365 \<and> (s \<noteq> 3 \<or> q = 24 \<and> c \<noteq> 3)"
    by (auto simp: year_days_def leap_def)
  from that [OF k b d this] show ?thesis .
qed

lemma era_year:
  assumes "0 \<le> k" and "k < 400" and "0 \<le> doy" and "doy < year_days k" and x: "x = era_days k + doy"
  shows "(x - x div 1460 + x div 36524 - x div 146096) div 365 = k" and "0 \<le> x" and "x < 146097"
proof -
  obtain c q s where f: "k = 100 * c + 4 * q + s" "0 \<le> c" "c \<le> 3" "0 \<le> q" "q \<le> 24" "0 \<le> s" "s \<le> 3"
    "era_days k = 36524 * c + 1461 * q + 365 * s"
    "year_days k = 366 \<and> s = 3 \<and> (q \<noteq> 24 \<or> c = 3) \<or> year_days k = 365 \<and> (s \<noteq> 3 \<or> q = 24 \<and> c \<noteq> 3)"
    using year_split [OF assms(1,2)] by blast
  have xe: "x = 36524 * c + 1461 * q + 365 * s + doy" using x f by simp
  define e :: int where "e = (if 24 * c + q + 365 * s + doy \<ge> 1460 then 1 else 0)"
  have len: "doy \<le> 364 \<or> doy = 365 \<and> s = 3 \<and> (q \<noteq> 24 \<or> c = 3)" using assms(4) f(9) by linarith
  show "0 \<le> x" "x < 146097" using xe f len assms(3) by linarith+
  have c1: "x div 1460 = 25 * c + q + e"
  proof (rule int_div_pos_eq [where r = "24 * c + q + 365 * s + doy - 1460 * e"])
    show "x = 1460 * (25 * c + q + e) + (24 * c + q + 365 * s + doy - 1460 * e)"
      using xe by simp
  qed (use f len assms(3) in \<open>auto simp: e_def\<close>)
  have c2: "x div 36524 - x div 146096 = c"
  proof (cases "x < 146096")
    case True
    have "1461 * q + 365 * s + doy < 36524 \<or> c = 3" using f len True xe by linarith
    then have "x div 36524 = c" using f len True xe assms(3)
      by (intro int_div_pos_eq [where r = "1461 * q + 365 * s + doy"]) linarith+
    moreover have "x div 146096 = 0" using True \<open>0 \<le> x\<close> by simp
    ultimately show ?thesis by simp
  next
    case False
    then have "x = 146096" using \<open>x < 146097\<close> by simp
    moreover from this have "c = 3" using f len xe by linarith
    ultimately show ?thesis by simp
  qed
  show "(x - x div 1460 + x div 36524 - x div 146096) div 365 = k"
  proof (rule int_div_pos_eq [where r = "doy - e"])
    show "x - x div 1460 + x div 36524 - x div 146096 = 365 * k + (doy - e)"
      using c1 c2 xe f(1) by simp
  qed (use f len assms(3) in \<open>auto simp: e_def\<close>)
qed


text \<open>Months are counted from March, so that the leap day comes last.\<close>

lemma month_split:
  assumes m: "1 \<le> m" "m \<le> 12" and d: "1 \<le> d" "d \<le> month_days y m"
    and mp: "mp = (if m > 2 then m - 3 else m + 9)" and doy: "doy = (153 * mp + 2) div 5 + d - 1"
  shows "0 \<le> doy" and "(5 * doy + 2) div 153 = mp" and "doy - (153 * mp + 2) div 5 + 1 = d"
    and "(if mp < 10 then mp + 3 else mp - 9) = m"
    and "doy < 365 \<or> doy = 365 \<and> m = 2 \<and> leap y"
proof -
  have "m = 1 \<or> m = 2 \<or> m = 3 \<or> m = 4 \<or> m = 5 \<or> m = 6 \<or> m = 7 \<or> m = 8 \<or> m = 9 \<or> m = 10 \<or> m = 11 \<or> m = 12"
    using m by presburger
  then have all: "0 \<le> doy \<and> 0 \<le> 5 * doy + 2 - 153 * mp \<and> 5 * doy + 2 - 153 * mp < 153
      \<and> (doy < 365 \<or> doy = 365 \<and> m = 2 \<and> leap y)"
    using d by (elim disjE) (auto simp: mp doy month_days_def split: if_splits)
  then show "0 \<le> doy" "doy < 365 \<or> doy = 365 \<and> m = 2 \<and> leap y" by blast+
  show "(5 * doy + 2) div 153 = mp"
    using all by (intro int_div_pos_eq [where r = "5 * doy + 2 - 153 * mp"]) simp_all
  show "doy - (153 * mp + 2) div 5 + 1 = d" by (simp add: doy)
  show "(if mp < 10 then mp + 3 else mp - 9) = m" using m by (simp add: mp)
qed

lemma leap_era: "leap (k + 400 * e) = leap k"
proof -
  have "(k + 400 * e) mod 4 = k mod 4" "(k + 400 * e) mod 100 = k mod 100"
    using mod_mult_self2 [of k 4 "100 * e"] mod_mult_self2 [of k 100 "4 * e"] by simp_all
  then show ?thesis by (simp add: leap_def)
qed

lemma civil_roundtrip:
  assumes y: "1 \<le> y" and m: "1 \<le> m" "m \<le> 12" and d: "1 \<le> d" "d \<le> month_days y m"
  shows "civil_from_days (days_from_civil y m d) = (y, m, d)"
    and "(y - 1) * 365 - 719468 \<le> days_from_civil y m d"
proof -
  define y' where "y' = y - (if m \<le> 2 then 1 else 0)"
  define mp where "mp = (if m > 2 then m - 3 else m + 9)"
  define doy where "doy = (153 * mp + 2) div 5 + d - 1"
  define k e where "k = y' mod 400" and "e = y' div 400"
  note ms = month_split [OF m d mp_def doy_def]
  have y': "0 \<le> y'" "y' = k + 400 * e" "0 \<le> k" "k < 400" "0 \<le> e"
    using y by (auto simp: y'_def k_def e_def)
  have "0 \<le> mp" using m by (simp add: mp_def)
  have "y' + 1 = y" if "m = 2" using that by (simp add: y'_def)
  then have "leap (k + 1)" if "doy = 365" using ms(5) that leap_era [of "k + 1" e] y' by (auto simp: algebra_simps)
  then have doy: "doy < year_days k" using ms(5) by (auto simp: year_days_def)
  define x where "x = era_days k + doy"
  note er = era_year [OF y'(3,4) ms(1) doy x_def]
  have k': "y' - e * 400 = k" using y' by simp
  have mm: "m + (if m > 2 then - 3 else 9) = mp" by (simp add: mp_def)
  have dfc: "days_from_civil y m d = e * 146097 + x - 719468"
    unfolding days_from_civil_def Let_def y'_def [symmetric] mm using y' \<open>0 \<le> mp\<close>
    by (simp add: k' e_def [symmetric] x_def era_days_def doy_def)
  have ed: "(e * 146097 + x) div 146097 = e"
    using er by (intro int_div_pos_eq [where r = x]) simp_all
  have sub: "x - (365 * k + k div 4 - k div 100) = doy" by (simp add: x_def era_days_def)
  have pos: "0 \<le> x - x div 1460 + x div 36524 - x div 146096"
    using pos_imp_zdiv_nonneg_iff [of 365 "x - x div 1460 + x div 36524 - x div 146096"]
    unfolding er(1) using y'(3) by simp
  have a1: "(if 0 \<le> e * 146097 + x then e * 146097 + x else e * 146097 + x - 146096) sdiv 146097 = e"
    using ed er(2) y'(5) by simp
  have a2: "e * 146097 + x - e * 146097 = x" by simp
  have a3: "(x - x sdiv 1460 + x sdiv 36524 - x sdiv 146096) sdiv 365 = k"
    using er(2) pos by (simp only: sdiv_pos zero_less_numeral er(1))
  have a4: "x - (365 * k + k sdiv 4 - k sdiv 100) = doy" using y'(3) sub by simp
  have a5: "(5 * doy + 2) sdiv 153 = mp" using ms(1,2) by simp
  have a6: "doy - (153 * mp + 2) sdiv 5 + 1 = d" using ms(3) \<open>0 \<le> mp\<close> by simp
  have a7: "k + e * 400 + (if m \<le> 2 then 1 else 0) = y" using y'(2) by (simp add: y'_def split: if_splits)
  show "civil_from_days (days_from_civil y m d) = (y, m, d)"
    unfolding civil_from_days_def dfc Let_def diff_add_cancel a1 a2 a3 a4 a5 a6 ms(4) a7 by (rule refl)
  have "365 * y' \<le> e * 146097 + x" using y' er ms(1)
    using zdiv_mono2 [of k 4 100] by (simp add: x_def era_days_def)
  then show "(y - 1) * 365 - 719468 \<le> days_from_civil y m d"
    unfolding dfc by (simp add: y'_def split: if_splits)
qed

section \<open>FAT time stamps\<close>

definition dos_valid :: "u16 \<Rightarrow> u16 \<Rightarrow> bool" where
  "dos_valid date time \<longleftrightarrow>
     (let y = 1980 + uint (drop_bit 9 date); m = uint (drop_bit 5 date AND 0xF); d = uint (date AND 0x1F)
      in 1 \<le> m \<and> m \<le> 12 \<and> 1 \<le> d \<and> d \<le> month_days y m)
     \<and> uint (drop_bit 11 time) < 24 \<and> uint (drop_bit 5 time AND 0x3F) < 60 \<and> uint (time AND 0x1F) < 30"

lemma dos_masks: "(0xF :: u16) = mask 4" "(0x1F :: u16) = mask 5" "(0x3F :: u16) = mask 6"
  by (simp_all add: mask_eq_exp_minus_1)

lemma dos_date: "word_of_int (push_bit 9 (uint (drop_bit 9 date)) OR push_bit 5 (uint (drop_bit 5 date AND 0xF))
    OR uint (date AND 0x1F)) = (date :: u16)" (is "?w = _")
proof (rule bit_word_eqI)
  show "bit ?w n = bit date n" if "n < LENGTH(16)" for n
    using that by (cases "9 \<le> n") (auto simp: dos_masks bit_simps)
qed

lemma dos_time: "word_of_int (push_bit 11 (uint (drop_bit 11 time)) OR push_bit 5 (uint (drop_bit 5 time AND 0x3F))
    OR uint (time AND 0x1F)) = (time :: u16)" (is "?w = _")
proof (rule bit_word_eqI)
  show "bit ?w n = bit time n" if "n < LENGTH(16)" for n
    using that by (cases "11 \<le> n") (auto simp: dos_masks bit_simps)
qed

lemma day_split:
  fixes h m s :: int
  assumes "0 \<le> h" "h < 24" "0 \<le> m" "m < 60" "0 \<le> s" "s < 30" and "0 \<le> days"
    and T: "T = days * 86400 + h * 3600 + m * 60 + s * 2"
  shows "T sdiv 86400 = days" and "T smod 86400 sdiv 3600 = h" and "T smod 86400 sdiv 60 smod 60 = m"
    and "T smod 86400 smod 60 sdiv 2 = s"
proof -
  define r where "r = h * 3600 + m * 60 + s * 2"
  have r: "0 \<le> r" "r < 86400" using assms by (auto simp: r_def)
  have T': "0 \<le> T" "T = 86400 * days + r" using assms r by (simp_all add: r_def)
  have d: "T div 86400 = days" using T' r by (intro int_div_pos_eq) simp_all
  then show "T sdiv 86400 = days" using T' by simp
  have "T mod 86400 = T - days * 86400" using d by (metis minus_div_mult_eq_mod)
  then have m: "T smod 86400 = r" using T' by simp
  show "T smod 86400 sdiv 3600 = h" unfolding m using r assms
    by (simp, intro int_div_pos_eq [where r = "m * 60 + s * 2"]) (simp_all add: r_def)
  have "r div 60 = h * 60 + m" using assms by (intro int_div_pos_eq [where r = "s * 2"]) (simp_all add: r_def)
  then show "T smod 86400 sdiv 60 smod 60 = m" unfolding m using r assms by simp
  have "r = s * 2 + 60 * (h * 60 + m)" by (simp add: r_def)
  then have "r mod 60 = s * 2" using assms by (simp only: mod_mult_self2) simp
  then show "T smod 86400 smod 60 sdiv 2 = s" unfolding m using r assms by simp
qed

text \<open>C16. FAT time stamps survive the trip through seconds since 1970: for every date and time
  a directory entry can hold, from 1980 to 2107, converting to seconds and back gives the same
  two words.\<close>

theorem clock_dos_roundtrip:
  assumes "dos_valid date time"
  shows "clock_to_dos (clock_from_dos date time) = push_bit 16 (ucast date) OR ucast time"
proof -
  define y m d where "y = 1980 + uint (drop_bit 9 date)" and "m = uint (drop_bit 5 date AND 0xF)"
    and "d = uint (date AND 0x1F)"
  define h i s where "h = uint (drop_bit 11 time)" and "i = uint (drop_bit 5 time AND 0x3F)"
    and "s = uint (time AND 0x1F)"
  have v: "1 \<le> m" "m \<le> 12" "1 \<le> d" "d \<le> month_days y m" "h < 24" "i < 60" "s < 30" "1980 \<le> y"
    using assms by (auto simp: dos_valid_def Let_def y_def m_def d_def h_def i_def s_def)
  have p: "0 \<le> h" "0 \<le> i" "0 \<le> s" by (simp_all add: h_def i_def s_def)
  have "date \<noteq> 0" using v(1) by (auto simp: m_def)
  then have tm: "clock_from_dos date time = days_from_civil y m d * 86400 + h * 3600 + i * 60 + s * 2"
    by (simp add: clock_from_dos_def clock_from_civil_def y_def m_def d_def h_def i_def s_def)
  have c: "civil_from_days (days_from_civil y m d) = (y, m, d)" "0 \<le> days_from_civil y m d"
    using civil_roundtrip [of y m d] v by simp_all
  note t = day_split [OF p(1) v(5) p(2) v(6) p(3) v(7) c(2) tm]
  have "y - 1980 = uint (drop_bit 9 date)" by (simp add: y_def)
  with v(8) show ?thesis unfolding clock_to_dos_def Let_def t c(1) prod.case
    by (simp add: m_def d_def h_def i_def s_def dos_date dos_time)
qed

theorem clock_dos_roundtrip_witness:
  "clock_to_dos (clock_from_dos 0x5D6C 0x6C20) = 0x5D6C6C20"
  using clock_dos_roundtrip [of "0x5D6C" "0x6C20"]
  by (simp add: dos_valid_def month_days_def leap_def)

section \<open>Extending the counter\<close>

lemma unat_high_low:
  fixes w r :: u64
  shows "unat ((w AND NOT (HPET_COUNTER_WRAP - 1)) OR (r AND (HPET_COUNTER_WRAP - 1))) =
    unat w div 2 ^ 32 * 2 ^ 32 + unat r mod 2 ^ 32"
proof -
  have m: "(HPET_COUNTER_WRAP - 1 :: u64) = mask 32" by (simp add: mask_eq_exp_minus_1)
  have "uint ((w AND NOT (mask 32)) OR (r AND mask 32)) = concat_bit 32 (uint r) (drop_bit 32 (uint w))"
    by (rule bit_eqI) (auto simp: bit_simps dest: bit_imp_le_length)
  also have "\<dots> = uint w div 2 ^ 32 * 2 ^ 32 + uint r mod 2 ^ 32"
    by (simp add: concat_bit_eq take_bit_eq_mod push_bit_eq_mult drop_bit_eq_div)
  finally have "int (unat ((w AND NOT (mask 32)) OR (r AND mask 32))) =
      int (unat w div 2 ^ 32 * 2 ^ 32 + unat r mod 2 ^ 32)"
    by (simp add: zdiv_int zmod_int)
  then show ?thesis unfolding m by (simp only: of_nat_eq_iff)
qed

text \<open>
  \<open>L\<close> is the extended value so far and \<open>T\<close> the true count at which the register was
  read: no more than half a turn of the 32-bit counter ahead of \<open>L\<close>, or behind it because
  another processor has extended the counter in the meantime.
\<close>

lemma hpet_extend_nat:
  assumes s: "unat seen = L" and r: "unat raw mod 2 ^ 32 = T mod 2 ^ 32" and b: "L + 2 ^ 33 < 2 ^ 64"
    and n: "n = L div 2 ^ 32 * 2 ^ 32 + T mod 2 ^ 32"
  shows "hpet_extend seen (raw AND (HPET_COUNTER_WRAP - 1)) =
    (if n < L then if L - n < 2 ^ 31 then (seen, None)
                   else (of_nat (n + 2 ^ 32), Some (of_nat (n + 2 ^ 32)))
     else (of_nat n, Some (of_nat n)))"
proof -
  define now where "now = (seen AND NOT (HPET_COUNTER_WRAP - 1)) OR (raw AND (HPET_COUNTER_WRAP - 1))"
  have now: "unat now = n" unfolding now_def unat_high_low n s r ..
  then have w: "now = of_nat n" by (simp flip: now)
  have "unat (seen - now) = L - n" if "n < L" using that now s by (simp add: unat_minus_small)
  then have "seen - now < HPET_COUNTER_WRAP div 2 \<longleftrightarrow> L - n < 2 ^ 31" if "n < L"
    using that by (simp add: word_less_nat_alt)
  moreover have "now < seen \<longleftrightarrow> n < L" using now s by (simp add: word_less_nat_alt)
  moreover have "now + HPET_COUNTER_WRAP = of_nat (n + 2 ^ 32)" by (simp add: w)
  ultimately show ?thesis unfolding hpet_extend_def Let_def now_def [symmetric] by (auto simp: w)
qed

lemma block_of:
  fixes T :: nat shows "T = T div 2 ^ 32 * 2 ^ 32 + T mod 2 ^ 32"
  by simp

lemma hpet_extend_max:
  assumes s: "unat seen = L" and r: "unat raw mod 2 ^ 32 = T mod 2 ^ 32" and b: "L + 2 ^ 33 < 2 ^ 64"
    and near: "L \<le> T \<and> T \<le> L + 2 ^ 31 \<or> T < L \<and> L < T + 2 ^ 31 \<and> T div 2 ^ 32 = L div 2 ^ 32"
  shows "hpet_extend seen (raw AND (HPET_COUNTER_WRAP - 1)) =
    (of_nat (max T L), if T < L then None else Some (of_nat (max T L)))"
proof -
  define q m where "q = L div 2 ^ 32" and "m = T mod (2 ^ 32 :: nat)"
  note e = hpet_extend_nat [OF s r b refl]
  have L: "q * 2 ^ 32 \<le> L" "L < q * 2 ^ 32 + 2 ^ 32"
    using block_of [of L] pos_mod_bound [of "2 ^ 32" "int L"] unfolding q_def [symmetric] by (simp_all add: q_def)
  have m: "m < 2 ^ 32" by (simp add: m_def)
  have T: "T = T div 2 ^ 32 * 2 ^ 32 + m" using block_of [of T] by (simp add: m_def)
  consider "T div 2 ^ 32 = q" | "L \<le> T" "T \<le> L + 2 ^ 31" "T div 2 ^ 32 = q + 1"
  proof -
    have "T div 2 ^ 32 = q \<or> T div 2 ^ 32 = q + 1" if "L \<le> T" "T \<le> L + 2 ^ 31"
    proof -
      have "q * 2 ^ 32 < (T div 2 ^ 32 + 1) * 2 ^ 32" "T div 2 ^ 32 * 2 ^ 32 < (q + 2) * 2 ^ 32"
        using T m L that by (simp_all add: algebra_simps)
      then have "q < T div 2 ^ 32 + 1" "T div 2 ^ 32 < q + 2" by (simp_all only: mult_less_cancel2)
      then show ?thesis by linarith
    qed
    then show ?thesis using near that by (auto simp: q_def)
  qed
  then show ?thesis
  proof cases
    case 1
    have sw: "of_nat L = seen" by (simp flip: s)
    have "q * 2 ^ 32 + m = T" using T 1 by simp
    then show ?thesis using e near sw unfolding q_def [symmetric] m_def [symmetric] by auto
  next
    case 2
    then have "q * 2 ^ 32 + m + 2 ^ 32 = T" using T by simp
    then show ?thesis using e 2 unfolding q_def [symmetric] m_def [symmetric] by auto
  qed
qed

text \<open>C18. The 64-bit clock made of a 32-bit HPET counter is exact: when the register is read at
  the true count \<open>T\<close>, at most half a turn after the last extension \<open>L\<close>, the call returns
  \<open>T\<close> and remembers it, and a reader that another processor has overtaken within one turn
  gets the newer count, so time never goes backwards.\<close>

theorem hpet_counter_exact:
  assumes "\<not> tsc_clock h" and "hpet_found h" and "hpet_counter_32 h"
    and "unat (hpet_extended h) = L" and "unat raw mod 2 ^ 32 = T mod 2 ^ 32" and "L + 2 ^ 33 < 2 ^ 64"
    and "L \<le> T \<and> T \<le> L + 2 ^ 31 \<or> T < L \<and> L < T + 2 ^ 31 \<and> T div 2 ^ 32 = L div 2 ^ 32"
  shows "hpet_read_counter raw tsc h = (of_nat (max T L), h\<lparr>hpet_extended := of_nat (max T L)\<rparr>)"
proof -
  have "of_nat L = hpet_extended h" by (simp flip: assms(4))
  then have "h\<lparr>hpet_extended := of_nat L\<rparr> = h" by (cases h) simp
  with assms(1-3) show ?thesis
    unfolding hpet_read_counter_def hpet_extend_max [OF assms(4-7)] by (auto simp: max_def)
qed

definition demo_hpet :: hpet_state where
  "demo_hpet = \<lparr>hpet_found = True, hpet_counter_32 = True, hpet_extended = 0xFFFFFFF0, tsc_clock = False,
     tsc_base = 0, tsc_counts_base = 0, tsc_mult = 0, tsc_last = 0, femtosecondsPerTick = 69841279\<rparr>"

theorem hpet_counter_exact_witness:
  "fst (hpet_read_counter 0x10 0 demo_hpet) = 0x100000010"
  using hpet_counter_exact [of demo_hpet "0xFFFFFFF0" "0x10" "0x100000010" 0]
  by (simp add: demo_hpet_def)

text \<open>C33. A reader that is overtaken across the end of a turn sets the clock ahead: it read the
  register at \<open>T\<close> just before the counter went round, another processor has already extended
  the clock to \<open>L\<close> in the next turn, and the call stores and returns \<open>T + 2 ^ 32\<close>, which
  lies a whole turn in the future.\<close>

theorem hpet_overtaken_jumps:
  assumes "unat seen = L" and "unat raw mod 2 ^ 32 = T mod 2 ^ 32" and "L + 2 ^ 33 < 2 ^ 64"
    and "T < L" and "L < T + 2 ^ 31" and "T div 2 ^ 32 + 1 = L div 2 ^ 32"
  shows "hpet_extend seen (raw AND (HPET_COUNTER_WRAP - 1)) = (of_nat (T + 2 ^ 32), Some (of_nat (T + 2 ^ 32)))"
proof -
  have e: "L div 2 ^ 32 * 2 ^ 32 + T mod 2 ^ 32 = T + 2 ^ 32"
    using block_of [of T] unfolding assms(6) [symmetric] by simp
  show ?thesis using hpet_extend_nat [OF assms(1-3) refl] assms(5) unfolding e by simp
qed

theorem hpet_overtaken_jumps_witness:
  "hpet_extend 0x100000005 (0xFFFFFFFF AND (HPET_COUNTER_WRAP - 1)) = (0x1FFFFFFFF, Some 0x1FFFFFFFF)"
  using hpet_overtaken_jumps [of "0x100000005" "0x100000005" "0xFFFFFFFF" "0xFFFFFFFF"] by simp

section \<open>Conversions\<close>

lemma counts_nat_mono:
  fixes p t :: nat
  assumes "0 < p" and "p * t \<le> N * M" and "0 < M" and "a \<le> b"
  shows "a div p * N + a mod p * t div M \<le> b div p * N + b mod p * t div M"
proof (cases "a div p = b div p")
  case True
  have "a mod p \<le> b mod p" using assms(4) True
    by (metis add_le_cancel_left div_mult_mod_eq)
  then show ?thesis using True by (simp add: div_le_mono)
next
  case False
  then have lt: "a div p + 1 \<le> b div p" using assms(4) div_le_mono [of a b p] by linarith
  have "a mod p * t \<le> N * M" using assms(1,2) by (meson le_trans less_imp_le mod_less_divisor mult_le_mono1)
  then have "a mod p * t div M \<le> N" using assms(3) by (metis div_le_mono nonzero_mult_div_cancel_right not_less0)
  then have "a div p * N + a mod p * t div M \<le> (a div p + 1) * N" by simp
  also have "\<dots> \<le> b div p * N" using lt by (rule mult_le_mono1)
  finally show ?thesis by simp
qed

lemma clock_counts_nat:
  assumes f: "0 < fpt" "fpt \<le> 100000000" and p: "p = 10 ^ 15 div unat fpt"
    and b: "(unat c div p + 1) * 10 ^ 9 < 2 ^ 64"
  shows "unat (clock_counts_to_ns fpt c) = unat c div p * 10 ^ 9 + unat c mod p * unat fpt div 10 ^ 6"
    and "0 < p" and "p * unat fpt \<le> 10 ^ 9 * 10 ^ 6"
proof -
  have t: "0 < unat fpt" "unat fpt \<le> 100000000"
    using f by (auto simp: word_le_nat_alt word_less_nat_alt unat_gt_0)
  have p1: "unat (femtosecondsPerSecond div fpt) = p" by (simp add: unat_div p)
  show pp: "0 < p" using t by (auto simp: p div_greater_zero_iff)
  show le: "p * unat fpt \<le> 10 ^ 9 * 10 ^ 6" using times_div_less_eq_dividend [of "unat fpt" "10 ^ 15"]
    by (simp add: p mult.commute)
  have r: "unat c mod p * unat fpt \<le> 10 ^ 15"
    using le_trans [OF mult_le_mono1 [OF less_imp_le [OF mod_less_divisor [OF pp]]] le] by simp
  have "unat (c mod (femtosecondsPerSecond div fpt) * fpt) = unat c mod p * unat fpt"
    using r by (subst unat_mult_small) (simp_all only: unat_mod p1, simp)
  then have m: "unat (c mod (femtosecondsPerSecond div fpt) * fpt div femtosecondsPerNanosecond) =
      unat c mod p * unat fpt div 10 ^ 6"
    by (simp add: unat_div)
  have "unat c mod p * unat fpt div 10 ^ 6 \<le> 10 ^ 9"
    using div_le_mono [OF r, of "10 ^ 6"] by simp
  with b have s: "unat c div p * 10 ^ 9 + unat c mod p * unat fpt div 10 ^ 6 < 2 ^ 64" by simp
  moreover have "unat (c div (femtosecondsPerSecond div fpt) * NS_PER_SEC) = unat c div p * 10 ^ 9"
  proof -
    have "unat (c div (femtosecondsPerSecond div fpt)) = unat c div p" unfolding unat_div [of c] p1 ..
    with b show ?thesis by (subst unat_mult_small) simp_all
  qed
  moreover have "fpt \<noteq> 0" using f(1) by auto
  ultimately show "unat (clock_counts_to_ns fpt c) = unat c div p * 10 ^ 9 + unat c mod p * unat fpt div 10 ^ 6"
    unfolding clock_counts_to_ns_def Let_def
    by (simp only: if_False) (subst unat_plus_small, simp_all only: m, simp)
qed

text \<open>C27. The monotonic clock never goes backwards: for every HPET period the specification
  allows, up to 100 nanoseconds, a later count gives a later or equal number of nanoseconds, as
  long as the nanoseconds fit 64 bits.\<close>

theorem clock_counts_monotone:
  assumes "0 < fpt" and "fpt \<le> 100000000" and "c1 \<le> c2"
    and "(unat c2 div (10 ^ 15 div unat fpt) + 1) * 10 ^ 9 < 2 ^ 64"
  shows "clock_counts_to_ns fpt c1 \<le> clock_counts_to_ns fpt c2"
proof -
  let ?p = "10 ^ 15 div unat fpt"
  have "unat c1 \<le> unat c2" using assms(3) by (simp add: word_le_nat_alt)
  moreover from this have "(unat c1 div ?p + 1) * 10 ^ 9 < 2 ^ 64"
    using assms(4) le_less_trans [OF mult_le_mono1 [OF add_le_mono1 [OF div_le_mono]]] by blast
  ultimately show ?thesis
    using counts_nat_mono [of ?p "unat fpt" "10 ^ 9" "10 ^ 6" "unat c1" "unat c2"]
      clock_counts_nat [OF assms(1,2) refl assms(4)] clock_counts_nat [OF assms(1,2) refl, of c1]
    by (simp add: word_le_nat_alt)
qed

theorem clock_counts_monotone_witness:
  "clock_counts_to_ns 69841279 14318178 \<le> clock_counts_to_ns 69841279 14318180"
  using clock_counts_monotone [of 69841279 14318178 14318180] by simp

lemma ts_ns_nat:
  assumes "ts_ok ts" and "tv_sec ts < 18446744073"
  shows "unat (ts_ns ts) = nat (tv_sec ts) * 10 ^ 9 + nat (tv_nsec ts)"
proof -
  define a b where "a = nat (tv_sec ts)" and "b = nat (tv_nsec ts)"
  have ab: "tv_sec ts = int a" "tv_nsec ts = int b" "a < 18446744073" "b < 10 ^ 9"
    using assms by (auto simp: ts_ok_def a_def b_def)
  have "ts_ns ts = of_nat (a * 10 ^ 9 + b)" by (simp add: ts_ns_def ab)
  moreover have "a * 10 ^ 9 + b < 2 ^ 64" using ab by simp
  ultimately show ?thesis using unat_of_nat_small [of "a * 10 ^ 9 + b", where ?'a = 64] by (simp add: a_def b_def)
qed

lemma ns_ts_ts_ns:
  assumes "ts_ok ts" and "tv_sec ts < 18446744073"
  shows "ns_ts (ts_ns ts) = ts"
proof -
  have n: "unat (ts_ns ts) = nat (tv_sec ts) * 10 ^ 9 + nat (tv_nsec ts)" by (rule ts_ns_nat [OF assms])
  have r: "nat (tv_nsec ts) < 10 ^ 9" "nat (tv_sec ts) < 18446744073" "0 \<le> tv_sec ts" "0 \<le> tv_nsec ts"
    using assms by (auto simp: ts_ok_def)
  have s: "sint w = int (unat w)" if "unat w < 2 ^ 63" for w :: u64
  proof -
    have "int (unat w) < int (2 ^ 63)" using that by (simp only: of_nat_less_iff)
    then show ?thesis using signed_take_bit_int_eq_self [of 63 "uint w"] order_trans [OF _ uint_nonnegative, of "- (2 ^ 63)" w]
      by (simp add: sint_uint)
  qed
  have d: "unat (ts_ns ts div 1000000000) = nat (tv_sec ts)" using n r by (simp add: unat_div)
  have m: "unat (ts_ns ts mod 1000000000) = nat (tv_nsec ts)" using n r by (simp add: unat_mod)
  have "sint (ts_ns ts div 1000000000) = tv_sec ts" using s [of "ts_ns ts div 1000000000"] d r by simp
  moreover have "sint (ts_ns ts mod 1000000000) = tv_nsec ts" using s [of "ts_ns ts mod 1000000000"] m r by simp
  ultimately show ?thesis by (simp add: ns_ts_def)
qed

end
