(* ===== verification/Eventfd.thy ===== *)
theory Eventfd
  imports Pipe Clock
begin

text \<open>
  Event counters and timers behind a file descriptor, \<open>kernel/src/fs/eventfd.c\<close>. As for
  pipes, a blocking call is a loop of turns with a second look before it sleeps. The operations
  run under the big kernel lock, so a turn is one state transformer; \<open>ev_reach\<close> are the
  interleavings of the turns of any number of tasks. The armed timers are kept as the list the
  code threads through \<open>next\<close>.
\<close>

section \<open>Shared parts\<close>

text \<open>
  The word \<open>copy_from_user\<close> reads is \<open>user\<close>, \<open>None\<close> when it fails; \<open>wr_ok\<close> is the success of
  \<open>copy_to_user\<close>. The result is the new flag, the return code and the word written back.
\<close>

definition nonblock_ioctl :: "bool \<Rightarrow> nat \<Rightarrow> bool \<Rightarrow> u32 option \<Rightarrow> bool \<Rightarrow> bool \<times> int \<times> u32 option" where
  "nonblock_ioctl nb request arg user wr_ok =
     (if \<not> arg then (nb, - EINVAL, None)
      else if request = TTY_IOCTL_FIONBIO then
        (case user of None \<Rightarrow> (nb, - EFAULT, None) | Some on \<Rightarrow> (on \<noteq> 0, 0, None))
      else if request = TTY_IOCTL_SET_FLAGS then
        (case user of None \<Rightarrow> (nb, - EFAULT, None) | Some flags \<Rightarrow> (flags AND TTY_NONBLOCK \<noteq> 0, 0, None))
      else if request = TTY_IOCTL_GET_FLAGS then
        (let flags = (if nb then TTY_NONBLOCK else 0) in if wr_ok then (nb, 0, Some flags) else (nb, - EFAULT, None))
      else (nb, - ENOTTY, None))"

text \<open>
  The objects of a new descriptor. \<open>install\<close> answers with the return value, the objects it
  has freed and whether the descriptor is closed on exec. The two allocations succeed or fail
  as told and \<open>slot\<close> is the answer of \<open>vfs_install\<close>; when it is an error, \<open>vfs_file_put\<close>
  drops the only reference to the file, which drops the inode, whose \<open>drop\<close> operation frees
  the data before inode and file go.
\<close>

datatype fd_object = Data | Inode | File

definition install :: "bool \<Rightarrow> bool \<Rightarrow> int \<Rightarrow> bool \<Rightarrow> int \<times> fd_object list \<times> bool" where
  "install inode_ok file_ok slot cloexec =
     (if \<not> inode_ok \<or> \<not> file_ok then
        (- ENOMEM, (if inode_ok then [Inode] else []) @ (if file_ok then [File] else []), False)
      else if slot < 0 then (slot, [Data, Inode, File], False)
      else (slot, [], cloexec))"

text \<open>The first half of \<open>block_on\<close>: a pending signal ends the call.\<close>

definition block_on :: "bool \<Rightarrow> turn" where
  "block_on intr = (if intr then Return (- EINTR) else Recheck)"

text \<open>The second half, with interrupts off: \<open>ready\<close> is asked once more before sleeping.\<close>

definition block_look :: "bool \<Rightarrow> bool \<Rightarrow> look" where
  "block_look ready same_pending = (if \<not> ready \<and> same_pending then Sleep else Awake)"

section \<open>Event counters\<close>

abbreviation (input) COUNT_MAX :: u64 where "COUNT_MAX \<equiv> 0xFFFFFFFFFFFFFFFE"

record evfd =
  count :: u64
  semaphore :: bool
  ev_nonblock :: bool

definition ev_readable :: "evfd \<Rightarrow> bool" where
  "ev_readable e = (count e > 0)"

definition ev_writable :: "evfd \<Rightarrow> bool" where
  "ev_writable e = (count e < COUNT_MAX)"

text \<open>
  One turn of a read and of a write: the state, the outcome, the value handed out, and whether
  the wait queue is woken.
\<close>

definition ev_read :: "evfd \<Rightarrow> nat \<Rightarrow> bool \<Rightarrow> evfd \<times> turn \<times> u64 option \<times> bool" where
  "ev_read e sz intr =
     (if sz < 8 then (e, Return (- EINVAL), None, False)
      else if count e \<noteq> 0 then
        let v = (if semaphore e then 1 else count e)
        in (e\<lparr>count := count e - v\<rparr>, Return 8, Some v, True)
      else if ev_nonblock e then (e, Return (- EAGAIN), None, False)
      else (e, block_on intr, None, False))"

definition ev_write :: "evfd \<Rightarrow> u64 \<Rightarrow> nat \<Rightarrow> bool \<Rightarrow> evfd \<times> turn \<times> bool" where
  "ev_write e v sz intr =
     (if sz < 8 then (e, Return (- EINVAL), False)
      else if v = 0xFFFFFFFFFFFFFFFF then (e, Return (- EINVAL), False)
      else if COUNT_MAX - count e \<ge> v then (e\<lparr>count := count e + v\<rparr>, Return 8, v \<noteq> 0)
      else if ev_nonblock e then (e, Return (- EAGAIN), False)
      else (e, block_on intr, False))"

definition ev_poll :: "evfd \<Rightarrow> int" where
  "ev_poll e = (if count e \<noteq> 0 then POLLIN else 0) OR (if count e < COUNT_MAX then POLLOUT else 0)"

definition ev_ioctl :: "evfd \<Rightarrow> nat \<Rightarrow> bool \<Rightarrow> u32 option \<Rightarrow> bool \<Rightarrow> evfd \<times> int \<times> u32 option" where
  "ev_ioctl e request arg user wr_ok =
     (let (nb, rc, out) = nonblock_ioctl (ev_nonblock e) request arg user wr_ok
      in (e\<lparr>ev_nonblock := nb\<rparr>, rc, out))"

abbreviation (input) EFD_SEMAPHORE :: u32 where "EFD_SEMAPHORE \<equiv> 0x1"
abbreviation (input) EFD_NONBLOCK :: u32 where "EFD_NONBLOCK \<equiv> 0x800"
abbreviation (input) EFD_CLOEXEC :: u32 where "EFD_CLOEXEC \<equiv> 0x80000"

text \<open>The counter, the return value and the objects freed on the way.\<close>

definition eventfd_create :: "u64 \<Rightarrow> u32 \<Rightarrow> bool \<Rightarrow> bool \<Rightarrow> bool \<Rightarrow> int \<Rightarrow> evfd option \<times> int \<times> fd_object list" where
  "eventfd_create initval flags data_ok inode_ok file_ok slot =
     (if flags AND NOT (EFD_SEMAPHORE OR EFD_NONBLOCK OR EFD_CLOEXEC) \<noteq> 0 then (None, - EINVAL, [])
      else if \<not> data_ok then (None, - ENOMEM, [])
      else
        let e = \<lparr>count = initval, semaphore = flags AND EFD_SEMAPHORE \<noteq> 0, ev_nonblock = flags AND EFD_NONBLOCK \<noteq> 0\<rparr>;
            (fd, freed, cloexec) = install inode_ok file_ok slot (flags AND EFD_CLOEXEC \<noteq> 0)
        in if fd < 0 then (None, fd, freed @ [Data]) else (Some e, fd, freed))"

definition sys_eventfd2 :: "u64 \<Rightarrow> u64 \<Rightarrow> bool \<Rightarrow> bool \<Rightarrow> bool \<Rightarrow> int \<Rightarrow> evfd option \<times> int \<times> fd_object list" where
  "sys_eventfd2 initval flags = eventfd_create (initval AND 0xFFFFFFFF) (ucast flags)"

definition sys_eventfd :: "u64 \<Rightarrow> bool \<Rightarrow> bool \<Rightarrow> bool \<Rightarrow> int \<Rightarrow> evfd option \<times> int \<times> fd_object list" where
  "sys_eventfd initval = eventfd_create (initval AND 0xFFFFFFFF) 0"

section \<open>Timers\<close>

record tfd =
  tfd_clock :: int
  tfd_nonblock :: bool
  armed :: bool
  expire :: u64
  interval :: u64
  ticks :: u64

record tfd_state =
  tfds :: "nat \<Rightarrow> tfd"
  armed_list :: "nat list"
  tick_hooked :: bool

definition put_tfd :: "nat \<Rightarrow> tfd \<Rightarrow> tfd_state \<Rightarrow> tfd_state" where
  "put_tfd i t s = s\<lparr>tfds := (tfds s)(i := t)\<rparr>"

definition tfd_unlink :: "nat \<Rightarrow> tfd_state \<Rightarrow> tfd_state" where
  "tfd_unlink i s = s\<lparr>armed_list := remove1 i (armed_list s)\<rparr>"

definition tfd_update :: "u64 \<Rightarrow> nat \<Rightarrow> tfd_state \<Rightarrow> tfd_state \<times> bool" where
  "tfd_update now i s =
     (let t = tfds s i in
      if \<not> armed t then (s, False)
      else if now < expire t then (s, False)
      else if interval t \<noteq> 0 then
        let n = (now - expire t) div interval t + 1
        in (put_tfd i (t\<lparr>ticks := ticks t + n, expire := expire t + n * interval t\<rparr>) s, True)
      else (tfd_unlink i (put_tfd i (t\<lparr>ticks := ticks t + 1, armed := False\<rparr>) s), True))"

text \<open>
  The tick walks the list it finds at the start and has the next timer in hand before it
  updates one, which can only take that one off the list. The second component are the
  timers whose wait queue is woken; \<open>nows\<close> gives the counter at each update.
\<close>

fun tfd_tick_walk :: "(nat \<Rightarrow> u64) \<Rightarrow> nat list \<Rightarrow> tfd_state \<Rightarrow> tfd_state \<times> nat list" where
  "tfd_tick_walk nows [] s = (s, [])"
| "tfd_tick_walk nows (i # is) s =
     (let (s1, fired) = tfd_update (nows i) i s; (s2, woken) = tfd_tick_walk nows is s1
      in (s2, if fired then i # woken else woken))"

definition tfd_tick :: "(nat \<Rightarrow> u64) \<Rightarrow> tfd_state \<Rightarrow> tfd_state \<times> nat list" where
  "tfd_tick nows s = tfd_tick_walk nows (armed_list s) s"

definition tfd_ready :: "u64 \<Rightarrow> nat \<Rightarrow> tfd_state \<Rightarrow> tfd_state \<times> bool" where
  "tfd_ready now i s = (let s' = fst (tfd_update now i s) in (s', ticks (tfds s' i) > 0))"

text \<open>
  One turn of a read. The last component is the deadline of the sleep that may follow, 0 for
  none.
\<close>

definition tfd_read :: "u64 \<Rightarrow> nat \<Rightarrow> nat \<Rightarrow> bool \<Rightarrow> tfd_state \<Rightarrow> tfd_state \<times> turn \<times> u64 option \<times> u64" where
  "tfd_read now i sz intr s =
     (if sz < 8 then (s, Return (- EINVAL), None, 0)
      else
        let s1 = fst (tfd_update now i s);
            got = ticks (tfds s1 i);
            s2 = put_tfd i ((tfds s1 i)\<lparr>ticks := 0\<rparr>) s1;
            deadline = (if armed (tfds s2 i) then expire (tfds s2 i) else 0)
        in if got \<noteq> 0 then (s2, Return 8, Some got, 0)
           else if tfd_nonblock (tfds s2 i) then (s2, Return (- EAGAIN), None, 0)
           else (s2, block_on intr, None, deadline))"

definition tfd_poll :: "u64 \<Rightarrow> nat \<Rightarrow> tfd_state \<Rightarrow> tfd_state \<times> int" where
  "tfd_poll now i s =
     (let s' = fst (tfd_update now i s) in (s', if ticks (tfds s' i) \<noteq> 0 then POLLIN else 0))"

definition tfd_ioctl :: "nat \<Rightarrow> nat \<Rightarrow> bool \<Rightarrow> u32 option \<Rightarrow> bool \<Rightarrow> tfd_state \<Rightarrow> tfd_state \<times> int \<times> u32 option" where
  "tfd_ioctl i request arg user wr_ok s =
     (let (nb, rc, out) = nonblock_ioctl (tfd_nonblock (tfds s i)) request arg user wr_ok
      in (put_tfd i ((tfds s i)\<lparr>tfd_nonblock := nb\<rparr>) s, rc, out))"

definition tfd_drop :: "nat \<Rightarrow> tfd_state \<Rightarrow> tfd_state" where
  "tfd_drop i s = tfd_unlink i s"

abbreviation (input) TFD_TIMER_ABSTIME :: u32 where "TFD_TIMER_ABSTIME \<equiv> 0x1"
abbreviation (input) TFD_NONBLOCK :: u32 where "TFD_NONBLOCK \<equiv> 0x800"
abbreviation (input) TFD_CLOEXEC :: u32 where "TFD_CLOEXEC \<equiv> 0x80000"

text \<open>
  \<open>i\<close> is the address of the new timer, \<open>None\<close> when its allocation fails; \<open>hook_ok\<close> is the success
  of \<open>tick_register\<close>.
\<close>

definition timerfd_create :: "int \<Rightarrow> u32 \<Rightarrow> bool \<Rightarrow> nat option \<Rightarrow> bool \<Rightarrow> bool \<Rightarrow> int \<Rightarrow> tfd_state
    \<Rightarrow> tfd_state \<times> int \<times> fd_object list" where
  "timerfd_create clock flags hook_ok data inode_ok file_ok slot s =
     (if clock \<noteq> CLOCK_REALTIME \<and> clock \<noteq> CLOCK_MONOTONIC \<and> clock \<noteq> CLOCK_BOOTTIME then (s, - EINVAL, [])
      else if flags AND NOT (TFD_NONBLOCK OR TFD_CLOEXEC) \<noteq> 0 then (s, - EINVAL, [])
      else if \<not> tick_hooked s \<and> \<not> hook_ok then (s, - ENOMEM, [])
      else
        let s1 = s\<lparr>tick_hooked := True\<rparr>
        in case data of
             None \<Rightarrow> (s1, - ENOMEM, [])
           | Some i \<Rightarrow>
               let t = \<lparr>tfd_clock = clock, tfd_nonblock = flags AND TFD_NONBLOCK \<noteq> 0, armed = False,
                        expire = 0, interval = 0, ticks = 0\<rparr>;
                   (fd, freed, cloexec) = install inode_ok file_ok slot (flags AND TFD_CLOEXEC \<noteq> 0)
               in if fd < 0 then (s1, fd, freed @ [Data]) else (put_tfd i t s1, fd, freed))"

record itimerspec =
  it_interval :: clock_timespec
  it_value :: clock_timespec

definition tfd_current :: "u64 \<Rightarrow> u64 \<Rightarrow> tfd \<Rightarrow> itimerspec" where
  "tfd_current fpt now t =
     (let left0 = (if armed t \<and> expire t > now then expire t - now else 0);
          left = (if armed t \<and> left0 = 0 then 1 else left0)
      in \<lparr>it_interval = ns_ts (clock_counts_to_ns fpt (interval t)),
          it_value = ns_ts (if armed t then clock_counts_to_ns fpt left else 0)\<rparr>)"

text \<open>
  \<open>target\<close> is the timer behind the descriptor, \<open>None\<close> when \<open>tfd_from_fd\<close> finds none;
  \<open>old_now\<close>, \<open>now_counts\<close> are the counter at its two readings and \<open>clock_ns\<close> what
  \<open>clock_read\<close> fills in for the timer's clock.
\<close>

definition timerfd_settime :: "u64 \<Rightarrow> nat option \<Rightarrow> u32 \<Rightarrow> itimerspec \<Rightarrow> bool \<Rightarrow> u64 \<Rightarrow> u64 \<Rightarrow> u64 \<Rightarrow> tfd_state
    \<Rightarrow> tfd_state \<times> int \<times> itimerspec option" where
  "timerfd_settime fpt target flags new old old_now now_counts clock_ns s =
     (if flags AND NOT TFD_TIMER_ABSTIME \<noteq> 0 then (s, - EINVAL, None)
      else if \<not> ts_ok (it_value new) \<or> \<not> ts_ok (it_interval new) then (s, - EINVAL, None)
      else case target of
        None \<Rightarrow> (s, - EINVAL, None)
      | Some i \<Rightarrow>
          let out = (if old then Some (tfd_current fpt old_now (tfds s i)) else None);
              s1 = tfd_unlink i s;
              t1 = (tfds s1 i)\<lparr>armed := False, ticks := 0, interval := clock_ns_to_counts fpt (ts_ns (it_interval new))\<rparr>;
              ns = ts_ns (it_value new)
          in if ns \<noteq> 0 then
               let rel = (if flags AND TFD_TIMER_ABSTIME \<noteq> 0 then if ns > clock_ns then ns - clock_ns else 0 else ns);
                   t2 = t1\<lparr>expire := now_counts + clock_ns_to_counts fpt rel, armed := True\<rparr>
               in ((put_tfd i t2 s1)\<lparr>armed_list := i # armed_list s1\<rparr>, 0, out)
             else (put_tfd i t1 s1, 0, out))"

definition timerfd_gettime :: "u64 \<Rightarrow> nat option \<Rightarrow> u64 \<Rightarrow> u64 \<Rightarrow> tfd_state \<Rightarrow> tfd_state \<times> int \<times> itimerspec option" where
  "timerfd_gettime fpt target now1 now2 s =
     (case target of
        None \<Rightarrow> (s, - EINVAL, None)
      | Some i \<Rightarrow> let s' = fst (tfd_update now1 i s) in (s', 0, Some (tfd_current fpt now2 (tfds s' i))))"

section \<open>Interleavings on an event counter\<close>

text \<open>The counter and the tasks asleep in a read and in a write; a wake-up empties both sets.\<close>

record ev_sys =
  sys_ev :: evfd
  ev_asleep_r :: "nat set"
  ev_asleep_w :: "nat set"

definition ev_woken :: "bool \<Rightarrow> evfd \<Rightarrow> ev_sys \<Rightarrow> ev_sys" where
  "ev_woken woken e y = (if woken then \<lparr>sys_ev = e, ev_asleep_r = {}, ev_asleep_w = {}\<rparr> else y\<lparr>sys_ev := e\<rparr>)"

text \<open>
  \<open>ev_reach y put got\<close>: the system can be in \<open>y\<close> after calls that put \<open>put\<close> into the
  counter, its initial value included, and took \<open>got\<close> out of it.
\<close>

inductive ev_reach :: "ev_sys \<Rightarrow> nat \<Rightarrow> nat \<Rightarrow> bool" where
  create: "sys_eventfd2 initval flags d_ok i_ok f_ok slot = (Some e, fd, freed) \<Longrightarrow>
    ev_reach \<lparr>sys_ev = e, ev_asleep_r = {}, ev_asleep_w = {}\<rparr> (unat (count e)) 0"
| create_plain: "sys_eventfd initval d_ok i_ok f_ok slot = (Some e, fd, freed) \<Longrightarrow>
    ev_reach \<lparr>sys_ev = e, ev_asleep_r = {}, ev_asleep_w = {}\<rparr> (unat (count e)) 0"
| read: "ev_reach y put got \<Longrightarrow> ev_read (sys_ev y) sz intr = (e', out, v, woken) \<Longrightarrow>
    ev_reach (ev_woken woken e' y) put (got + (case v of None \<Rightarrow> 0 | Some n \<Rightarrow> unat n))"
| read_sleep: "ev_reach y put got \<Longrightarrow> block_look (ev_readable (sys_ev y)) same = Sleep \<Longrightarrow>
    ev_reach (y\<lparr>ev_asleep_r := insert t (ev_asleep_r y)\<rparr>) put got"
| write_turn: "ev_reach y put got \<Longrightarrow> ev_write (sys_ev y) v sz intr = (e', out, woken) \<Longrightarrow>
    ev_reach (ev_woken woken e' y) (put + (if out = Return 8 then unat v else 0)) got"
| write_sleep: "ev_reach y put got \<Longrightarrow> block_look (ev_writable (sys_ev y)) same = Sleep \<Longrightarrow>
    ev_reach (y\<lparr>ev_asleep_w := insert t (ev_asleep_w y)\<rparr>) put got"
| ioctl: "ev_reach y put got \<Longrightarrow> ev_ioctl (sys_ev y) request arg user wr_ok = (e', rc, wb) \<Longrightarrow>
    ev_reach (y\<lparr>sys_ev := e'\<rparr>) put got"
| signal: "ev_reach y put got \<Longrightarrow>
    ev_reach (y\<lparr>ev_asleep_r := ev_asleep_r y - {t}, ev_asleep_w := ev_asleep_w y - {t}\<rparr>) put got"

lemma unat_COUNT_MAX: "unat COUNT_MAX = 2 ^ 64 - 2"
  by simp

lemma eventfd_create_count:
  "eventfd_create initval flags d_ok i_ok f_ok slot = (Some e, fd, freed) \<Longrightarrow> count e = initval"
  by (auto simp: eventfd_create_def Let_def split: if_splits prod.splits)

lemma low_word_small: "(w :: u64) AND 0xFFFFFFFF \<le> COUNT_MAX"
proof -
  have "w AND 0xFFFFFFFF \<le> (0xFFFFFFFF :: u64)" by (rule word_and_le1)
  then show ?thesis by (rule order_trans) simp
qed

lemma ev_read_count:
  assumes "ev_read e sz intr = (e', out, v, woken)"
  shows "unat (count e) = unat (count e') + (case v of None \<Rightarrow> 0 | Some n \<Rightarrow> unat n)"
    and "count e' \<le> count e" and "woken \<or> count e' = count e"
proof -
  have "1 \<le> unat (count e)" if "count e \<noteq> 0" using that by (simp add: unat_gt_0 Suc_le_eq)
  then show "unat (count e) = unat (count e') + (case v of None \<Rightarrow> 0 | Some n \<Rightarrow> unat n)"
    and "count e' \<le> count e"
    using assms by (auto simp: ev_read_def Let_def word_le_nat_alt unat_minus_small split: if_splits)
  show "woken \<or> count e' = count e" using assms by (auto simp: ev_read_def Let_def split: if_splits)
qed

lemma ev_write_count:
  assumes "ev_write e v sz intr = (e', out, woken)" and b: "count e \<le> COUNT_MAX"
  shows "unat (count e') = unat (count e) + (if out = Return 8 then unat v else 0)"
    and "count e' \<le> COUNT_MAX" and "woken \<or> count e' = count e"
proof -
  have e: "unat (COUNT_MAX - count e) = 2 ^ 64 - 2 - unat (count e)" "unat (count e) \<le> 2 ^ 64 - 2"
    using b unat_COUNT_MAX by (simp_all add: word_le_nat_alt unat_minus_small)
  then have s: "unat (count e + v) = unat (count e) + unat v" "unat (count e) + unat v \<le> 2 ^ 64 - 2"
    if "COUNT_MAX - count e \<ge> v" using that by (simp_all add: word_le_nat_alt unat_plus_small)
  show "unat (count e') = unat (count e) + (if out = Return 8 then unat v else 0)"
    using assms(1) s(1) by (auto simp: ev_write_def block_on_def split: if_splits)
  show "count e' \<le> COUNT_MAX"
    using assms s unat_COUNT_MAX by (auto simp: ev_write_def word_le_nat_alt split: if_splits)
  show "woken \<or> count e' = count e" using assms(1) by (auto simp: ev_write_def split: if_splits)
qed

lemma ev_ioctl_count: "ev_ioctl e request arg user wr_ok = (e', rc, wb) \<Longrightarrow> count e' = count e"
  by (auto simp: ev_ioctl_def split: prod.splits)

lemma ev_woken_sel [simp]: "sys_ev (ev_woken w e y) = e"
  "ev_asleep_r (ev_woken w e y) = (if w then {} else ev_asleep_r y)"
  "ev_asleep_w (ev_woken w e y) = (if w then {} else ev_asleep_w y)"
  by (simp_all add: ev_woken_def)

lemma ev_reach_count: "ev_reach y put got \<Longrightarrow> put = got + unat (count (sys_ev y)) \<and> count (sys_ev y) \<le> COUNT_MAX"
proof (induction rule: ev_reach.induct)
  case (create initval flags d_ok i_ok f_ok slot e fd freed)
  have "count e = initval AND 0xFFFFFFFF" by (rule eventfd_create_count [OF create [unfolded sys_eventfd2_def]])
  then show ?case by (simp add: low_word_small)
next
  case (create_plain initval d_ok i_ok f_ok slot e fd freed)
  have "count e = initval AND 0xFFFFFFFF" by (rule eventfd_create_count [OF create_plain [unfolded sys_eventfd_def]])
  then show ?case by (simp add: low_word_small)
next
  case (read y put got sz intr e' out v woken)
  note r = ev_read_count [OF read.hyps(2)]
  have "count e' \<le> COUNT_MAX" using r(2) conjunct2 [OF read.IH] by (rule order_trans)
  then show ?case using r(1) conjunct1 [OF read.IH] by (simp only: ev_woken_sel) simp
next
  case (write_turn y put got v sz intr e' out woken)
  note w = ev_write_count [OF write_turn.hyps(2) conjunct2 [OF write_turn.IH]]
  show ?case using w(1,2) conjunct1 [OF write_turn.IH] by (simp only: ev_woken_sel) simp
next
  case (ioctl y put got request arg user wr_ok e' rc wb)
  then show ?case using ev_ioctl_count [OF ioctl.hyps(2)] by simp
qed simp_all

lemma ev_reach_sleepers: "ev_reach y put got \<Longrightarrow>
  (ev_asleep_r y = {} \<or> count (sys_ev y) = 0) \<and> (ev_asleep_w y = {} \<or> count (sys_ev y) = COUNT_MAX)"
proof (induction rule: ev_reach.induct)
  case (read y put got sz intr e' out v woken)
  then show ?case using ev_read_count(3) [OF read.hyps(2)] by auto
next
  case (write_turn y put got v sz intr e' out woken)
  then show ?case using ev_write_count(3) [OF write_turn.hyps(2)] ev_reach_count [OF write_turn.hyps(1)] by auto
next
  case (ioctl y put got request arg user wr_ok e' rc wb)
  then show ?case using ev_ioctl_count [OF ioctl.hyps(2)] by simp
next
  case (write_sleep y put got same t)
  then show ?case using ev_reach_count [OF write_sleep.hyps(1)]
    by (auto simp: block_look_def ev_writable_def split: if_splits)
qed (auto simp: block_look_def ev_readable_def word_gt_0 split: if_splits)

text \<open>C8. An event counter neither loses nor invents events: however reads, writes and control
  calls of any number of tasks interleave, what has been put into it is what has been taken out
  plus what it shows, and it never passes its largest value.\<close>

theorem ev_counter_exact:
  assumes "ev_reach y put got"
  shows "put = got + unat (count (sys_ev y)) \<and> count (sys_ev y) \<le> COUNT_MAX"
  using assms by (rule ev_reach_count)

lemma demo_counter: "ev_reach \<lparr>sys_ev = \<lparr>count = 4, semaphore = True, ev_nonblock = False\<rparr>,
    ev_asleep_r = {}, ev_asleep_w = {}\<rparr> 5 1"
proof -
  let ?y = "\<lambda>n. \<lparr>sys_ev = \<lparr>count = n, semaphore = True, ev_nonblock = False\<rparr>, ev_asleep_r = {}, ev_asleep_w = {}\<rparr>"
  have "ev_reach (?y 2) (unat (2::u64)) 0"
    using ev_reach.create [of 2 1 True True True 3 "sys_ev (?y 2)" 3 "[]"]
    by (simp add: sys_eventfd2_def eventfd_create_def install_def)
  from ev_reach.write_turn [OF this, of 3 8 False "sys_ev (?y 5)" "Return 8" True]
  have "ev_reach (?y 5) 5 0" by (simp add: ev_write_def ev_woken_def)
  from ev_reach.read [OF this, of 8 False "sys_ev (?y 4)" "Return 8" "Some 1" True]
  show ?thesis by (simp add: ev_read_def ev_woken_def)
qed

theorem ev_counter_exact_witness:
  "\<exists>y. ev_reach y 5 1 \<and> unat (count (sys_ev y)) = 4"
  using ev_counter_exact [OF demo_counter] demo_counter by auto

text \<open>C23. No wake-up is lost on an event counter: a task asleep in a read faces a zero counter, a
  task asleep in a write a counter at its largest value.\<close>

theorem ev_no_lost_wakeup:
  assumes "ev_reach y put got"
  shows "(ev_asleep_r y = {} \<or> count (sys_ev y) = 0) \<and> (ev_asleep_w y = {} \<or> count (sys_ev y) = COUNT_MAX)"
  using assms by (rule ev_reach_sleepers)

theorem ev_no_lost_wakeup_witness:
  "\<exists>y. ev_reach y 0 0 \<and> ev_asleep_r y = {7} \<and> count (sys_ev y) = 0"
proof -
  let ?y = "\<lparr>sys_ev = \<lparr>count = 0, semaphore = False, ev_nonblock = False\<rparr>, ev_asleep_r = {}, ev_asleep_w = {}\<rparr>"
  have "ev_reach ?y (unat (0::u64)) 0"
    using ev_reach.create_plain [of 0 True True True 3 "sys_ev ?y" 3 "[]"]
    by (simp add: sys_eventfd_def eventfd_create_def install_def)
  from ev_reach.read_sleep [OF this, of True 7]
  have r: "ev_reach (?y\<lparr>ev_asleep_r := {7}\<rparr>) 0 0" by (simp add: block_look_def ev_readable_def)
  show ?thesis using ev_no_lost_wakeup [OF r] r by (intro exI [of _ "?y\<lparr>ev_asleep_r := {7}\<rparr>"]) simp
qed

text \<open>C35. A blocking write of more than the counter has room for does not sleep while the counter
  is below its largest value: its turn asks for the second look with nothing changed, and the
  second look sends it straight into the next turn.\<close>

theorem ev_write_spins:
  assumes "count e < COUNT_MAX" and "COUNT_MAX - count e < v" and "v \<le> COUNT_MAX" and "\<not> ev_nonblock e"
    and "8 \<le> sz"
  shows "ev_write e v sz False = (e, Recheck, False) \<and> block_look (ev_writable e) same = Awake"
proof -
  have "v \<noteq> 0xFFFFFFFFFFFFFFFF" using assms(3) by auto
  with assms show ?thesis by (auto simp: ev_write_def block_on_def block_look_def ev_writable_def)
qed

theorem ev_write_spins_witness:
  "ev_write \<lparr>count = 1, semaphore = False, ev_nonblock = False\<rparr> COUNT_MAX 8 False =
     (\<lparr>count = 1, semaphore = False, ev_nonblock = False\<rparr>, Recheck, False)"
  using ev_write_spins [of "\<lparr>count = 1, semaphore = False, ev_nonblock = False\<rparr>" COUNT_MAX 8] by simp



end
