(* ===== verification/Timerfd.thy ===== *)
theory Timerfd
  imports Eventfd
begin

text \<open>
  Timers behind a file descriptor in use: all calls on any number of timers, interleaved with
  the tick. The list of armed timers is the one the tick needs, and a periodic timer counts
  every expiration exactly once. The operations are those of \<open>Eventfd\<close>.
\<close>

section \<open>Operations on one timer\<close>

text \<open>What an update does to the record of the timer itself.\<close>

definition tfd_step :: "u64 \<Rightarrow> tfd \<Rightarrow> tfd" where
  "tfd_step now t =
     (if \<not> armed t \<or> now < expire t then t
      else if interval t \<noteq> 0 then
        let n = (now - expire t) div interval t + 1
        in t\<lparr>ticks := ticks t + n, expire := expire t + n * interval t\<rparr>
      else t\<lparr>ticks := ticks t + 1, armed := False\<rparr>)"

lemma tfd_sel [simp]: "tfds (put_tfd i t s) = (tfds s)(i := t)" "armed_list (put_tfd i t s) = armed_list s"
  "tfds (tfd_unlink i s) = tfds s" "armed_list (tfd_unlink i s) = remove1 i (armed_list s)"
  by (simp_all add: put_tfd_def tfd_unlink_def)

lemma tfd_update_tfds: "tfds (fst (tfd_update now i s)) = (tfds s)(i := tfd_step now (tfds s i))"
  by (auto simp: tfd_update_def tfd_step_def Let_def)

lemma tfd_update_list: "armed_list (fst (tfd_update now i s)) =
    (if armed (tfds s i) \<and> \<not> armed (tfd_step now (tfds s i)) then remove1 i (armed_list s) else armed_list s)"
  by (auto simp: tfd_update_def tfd_step_def Let_def)

lemma tfd_step_armed: "armed (tfd_step now t) \<Longrightarrow> armed t"
  by (auto simp: tfd_step_def Let_def split: if_splits)

text \<open>The calls that only look at a timer; \<open>got\<close> is what a read hands out.\<close>

inductive tfd_op :: "u64 \<Rightarrow> nat \<Rightarrow> nat \<Rightarrow> tfd_state \<Rightarrow> tfd_state \<Rightarrow> bool" where
  read: "tfd_read now i sz intr s = (s', out, v, deadline) \<Longrightarrow> 8 \<le> sz \<Longrightarrow>
    tfd_op now i (case v of None \<Rightarrow> 0 | Some g \<Rightarrow> unat g) s s'"
| poll: "tfd_poll now i s = (s', r) \<Longrightarrow> tfd_op now i 0 s s'"
| ready: "tfd_ready now i s = (s', r) \<Longrightarrow> tfd_op now i 0 s s'"
| gettime: "timerfd_gettime fpt (Some i) now now2 s = (s', r, cur) \<Longrightarrow> tfd_op now i 0 s s'"

lemma tfd_op_effect:
  assumes "tfd_op now i got s s'"
  shows "armed_list s' = armed_list (fst (tfd_update now i s))"
    and "\<exists>k. tfds s' = (tfds s)(i := (tfd_step now (tfds s i))\<lparr>ticks := k\<rparr>)
      \<and> got + unat k = unat (ticks (tfd_step now (tfds s i)))"
proof -
  have id: "(t::tfd)\<lparr>ticks := ticks t\<rparr> = t" for t by simp
  have "armed_list s' = armed_list (fst (tfd_update now i s))
    \<and> (\<exists>k. tfds s' = (tfds s)(i := (tfd_step now (tfds s i))\<lparr>ticks := k\<rparr>)
      \<and> got + unat k = unat (ticks (tfd_step now (tfds s i))))"
    using assms
  proof cases
    case (read sz intr out v deadline)
    then have "tfds s' = (tfds s)(i := (tfd_step now (tfds s i))\<lparr>ticks := 0\<rparr>)"
      "armed_list s' = armed_list (fst (tfd_update now i s))"
      "got = unat (ticks (tfd_step now (tfds s i)))"
      by (auto simp: tfd_read_def Let_def tfd_update_tfds split: if_splits)
    then show ?thesis by (auto intro!: exI [of _ 0])
  qed (auto simp: tfd_poll_def tfd_ready_def timerfd_gettime_def Let_def tfd_update_tfds
        intro!: exI [of _ "ticks (tfd_step now (tfds s i))"])
  then show "armed_list s' = armed_list (fst (tfd_update now i s))"
    and "\<exists>k. tfds s' = (tfds s)(i := (tfd_step now (tfds s i))\<lparr>ticks := k\<rparr>)
      \<and> got + unat k = unat (ticks (tfd_step now (tfds s i)))" by blast+
qed

text \<open>
  \<open>tfd_reach live s\<close>: the timers can be in state \<open>s\<close> with the descriptors \<open>live\<close> open.
\<close>

inductive tfd_reach :: "nat set \<Rightarrow> tfd_state \<Rightarrow> bool" where
  boot: "armed_list s = [] \<Longrightarrow> \<not> tick_hooked s \<Longrightarrow> tfd_reach {} s"
| create: "tfd_reach live s \<Longrightarrow> i \<notin> live \<Longrightarrow>
    timerfd_create clock flags hook_ok (Some i) i_ok f_ok slot s = (s', fd, freed) \<Longrightarrow> 0 \<le> fd \<Longrightarrow>
    tfd_reach (insert i live) s'"
| create_failed: "tfd_reach live s \<Longrightarrow>
    timerfd_create clock flags hook_ok data i_ok f_ok slot s = (s', fd, freed) \<Longrightarrow> fd < 0 \<Longrightarrow> tfd_reach live s'"
| settime: "tfd_reach live s \<Longrightarrow> i \<in> live \<Longrightarrow>
    timerfd_settime fpt (Some i) flags new old old_now now clock_ns s = (s', r, out) \<Longrightarrow> tfd_reach live s'"
| look: "tfd_reach live s \<Longrightarrow> i \<in> live \<Longrightarrow> tfd_op now i got s s' \<Longrightarrow> tfd_reach live s'"
| ioctl: "tfd_reach live s \<Longrightarrow> i \<in> live \<Longrightarrow> tfd_ioctl i request arg user wr_ok s = (s', r, wb) \<Longrightarrow>
    tfd_reach live s'"
| tick: "tfd_reach live s \<Longrightarrow> tfd_tick nows s = (s', woken) \<Longrightarrow> tfd_reach live s'"
| drop: "tfd_reach live s \<Longrightarrow> i \<in> live \<Longrightarrow> tfd_reach (live - {i}) (tfd_drop i s)"

definition listed :: "nat set \<Rightarrow> tfd_state \<Rightarrow> bool" where
  "listed live s \<longleftrightarrow> distinct (armed_list s) \<and> set (armed_list s) = {i \<in> live. armed (tfds s i)}"

lemma listed_step:
  assumes "listed live s" and "i \<in> live" and "tfds s' = (tfds s)(i := t)"
    and "armed t = armed (tfd_step now (tfds s i))" and "armed_list s' = armed_list (fst (tfd_update now i s))"
  shows "listed live s'"
  using assms tfd_step_armed [of now "tfds s i"] by (auto simp: listed_def tfd_update_list split: if_splits)

lemma listed_update: "listed live s \<Longrightarrow> i \<in> live \<Longrightarrow> listed live (fst (tfd_update now i s))"
  by (erule listed_step [where i = i]) (simp_all add: tfd_update_tfds)

lemma listed_walk: "listed live s \<Longrightarrow> set is \<subseteq> live \<Longrightarrow> listed live (fst (tfd_tick_walk nows is s))"
proof (induction "is" arbitrary: s)
  case (Cons i "is")
  then have "listed live (fst (tfd_tick_walk nows is (fst (tfd_update (nows i) i s))))"
    by (simp add: listed_update)
  then show ?case by (simp add: Let_def split_beta)
qed simp

lemma if_chain:
  "(if A then (x, a, b) else if B then (y, c, d) else if C then (z, e, f) else (u, g, h)) = (s, r, k) \<Longrightarrow>
   s \<in> {x, y, z, u}"
  by (auto split: if_splits)

lemma settime_effect:
  assumes "timerfd_settime fpt (Some i) flags new old old_now now clock_ns s = (s', r, out)"
  shows "s' = s \<or> (\<exists>t. tfds s' = (tfds s)(i := t) \<and>
    armed_list s' = (if armed t then i # remove1 i (armed_list s) else remove1 i (armed_list s)) \<and> ticks t = 0)"
proof -
  define t1 where "t1 = (tfds s i)\<lparr>armed := False, ticks := 0,
    interval := clock_ns_to_counts fpt (ts_ns (it_interval new))\<rparr>"
  define t2 where "t2 = t1\<lparr>expire := now + clock_ns_to_counts fpt
    (if flags AND TFD_TIMER_ABSTIME \<noteq> 0 then if ts_ns (it_value new) > clock_ns
     then ts_ns (it_value new) - clock_ns else 0 else ts_ns (it_value new)), armed := True\<rparr>"
  have m: "s' \<in> {s, s, (put_tfd i t2 (tfd_unlink i s))\<lparr>armed_list := i # remove1 i (armed_list s)\<rparr>,
      put_tfd i t1 (tfd_unlink i s)}"
    using assms unfolding timerfd_settime_def Let_def option.case tfd_sel t2_def [symmetric] t1_def [symmetric]
    by (rule if_chain)
  have c: "\<not> armed t1" "ticks t1 = 0" "armed t2" "ticks t2 = 0" by (simp_all add: t1_def t2_def)
  from m show ?thesis
  proof (elim insertE emptyE)
    assume "s' = (put_tfd i t2 (tfd_unlink i s))\<lparr>armed_list := i # remove1 i (armed_list s)\<rparr>"
    then show ?thesis using c by (intro disjI2 exI [of _ t2]) simp
  next
    assume "s' = put_tfd i t1 (tfd_unlink i s)"
    then show ?thesis using c by (intro disjI2 exI [of _ t1]) simp
  qed simp_all
qed

lemma listed_settime:
  assumes "listed live s" and "i \<in> live"
    and "timerfd_settime fpt (Some i) flags new old old_now now clock_ns s = (s', r, out)"
  shows "listed live s'"
  using settime_effect [OF assms(3)]
proof (elim disjE exE conjE)
  fix t assume "tfds s' = (tfds s)(i := t)"
    and l: "armed_list s' = (if armed t then i # remove1 i (armed_list s) else remove1 i (armed_list s))"
  moreover have "set (remove1 i (armed_list s)) = {j \<in> live. armed (tfds s j)} - {i}" "distinct (armed_list s)"
    using assms(1) by (simp_all add: listed_def)
  ultimately show ?thesis using assms(2) by (cases "armed t") (auto simp: listed_def)
qed (use assms(1) in simp)

lemma create_shape:
  assumes "(if A then (s, a, l1) else if B then (s, b, l2) else if C then (s, c, l3)
      else case data of None \<Rightarrow> (s1, d, l4)
        | Some i \<Rightarrow> case r of (fd, freed, ce) \<Rightarrow>
            if fd < 0 then (s1, fd, freed @ [Data]) else (put_tfd i t s1, fd, freed)) = (s', fd, freed)"
    and "a < 0" "b < 0" "c < 0" "d < (0::int)" and "tfds s1 = tfds s" "armed_list s1 = armed_list s"
  shows "armed_list s' = armed_list s
    \<and> (if fd < 0 then tfds s' = tfds s else \<exists>i. data = Some i \<and> tfds s' = (tfds s)(i := t))"
  using assms by (auto split: if_splits option.splits prod.splits)

lemma create_effect:
  assumes "timerfd_create clock flags hook_ok data i_ok f_ok slot s = (s', fd, freed)"
  shows "armed_list s' = armed_list s
    \<and> (if fd < 0 then tfds s' = tfds s else \<exists>i. data = Some i \<and> tfds s' = (tfds s)(i :=
         \<lparr>tfd_clock = clock, tfd_nonblock = flags AND TFD_NONBLOCK \<noteq> 0, armed = False,
          expire = 0, interval = 0, ticks = 0\<rparr>))"
  by (rule create_shape [OF assms [unfolded timerfd_create_def Let_def]]) simp_all

lemma tfd_reach_listed: "tfd_reach live s \<Longrightarrow> listed live s"
proof (induction rule: tfd_reach.induct)
  case (create live s i clock flags hook_ok i_ok f_ok slot s' fd freed)
  then show ?case using create_effect [OF create.hyps(3)] by (auto simp: listed_def)
next
  case (create_failed live s clock flags hook_ok data i_ok f_ok slot s' fd freed)
  then show ?case using create_effect [OF create_failed.hyps(2)] by (simp add: listed_def)
next
  case (settime live s i fpt flags new old old_now now clock_ns s' r out)
  show ?case by (rule listed_settime [OF settime.IH settime.hyps(2,3)])
next
  case (look live s i now got s')
  from tfd_op_effect [OF look.hyps(3)] obtain k where
    "tfds s' = (tfds s)(i := (tfd_step now (tfds s i))\<lparr>ticks := k\<rparr>)"
    "armed_list s' = armed_list (fst (tfd_update now i s))" by blast
  then show ?case
    by (intro listed_step [OF look.IH look.hyps(2), where t = "(tfd_step now (tfds s i))\<lparr>ticks := k\<rparr>" and now = now])
       simp_all
next
  case (ioctl live s i request arg user wr_ok s' r wb)
  then obtain nb where "s' = put_tfd i ((tfds s i)\<lparr>tfd_nonblock := nb\<rparr>) s"
    by (metis (no_types, lifting) tfd_ioctl_def case_prod_beta fst_conv)
  then have "armed (tfds s' j) = armed (tfds s j)" "armed_list s' = armed_list s" for j by simp_all
  then show ?case using ioctl.IH by (simp add: listed_def)
next
  case (tick live s nows s' woken)
  then show ?case using listed_walk [of live s "armed_list s" nows] by (auto simp: tfd_tick_def listed_def)
qed (auto simp: listed_def tfd_drop_def)

section \<open>Counting expirations\<close>

text \<open>How often a timer that goes off at \<open>E\<close> and every \<open>I\<close> after that has gone off by \<open>x\<close>.\<close>

definition expirations :: "nat \<Rightarrow> nat \<Rightarrow> nat \<Rightarrow> nat" where
  "expirations E I x = (if x < E then 0 else (x - E) div I + 1)"

lemma expirations_eq:
  assumes "0 < I" and "x < E + n * I" and "n = 0 \<or> E + (n - 1) * I \<le> x"
  shows "expirations E I x = n"
proof (cases n)
  case (Suc m)
  have "(x - E) div I = m"
    by (rule div_nat_eqI) (use assms Suc in \<open>auto simp: mult.commute\<close>)
  then show ?thesis using assms Suc by (auto simp: expirations_def)
qed (use assms in \<open>simp add: expirations_def\<close>)

definition counted :: "nat \<Rightarrow> nat \<Rightarrow> nat \<Rightarrow> tfd \<Rightarrow> bool" where
  "counted E I n t \<longleftrightarrow> armed t \<and> unat (interval t) = I \<and> unat (expire t) = E + n * I"

lemma tfd_step_counted:
  assumes c: "counted E I n t" and I: "0 < I" and low: "n = 0 \<or> E + (n - 1) * I \<le> unat now"
    and tk: "taken + unat (ticks t) = n" and b: "unat now + I < 2 ^ 64"
  defines "m \<equiv> expirations E I (unat now)"
  shows "counted E I m (tfd_step now t)" and "taken + unat (ticks (tfd_step now t)) = m"
    and "m = 0 \<or> E + (m - 1) * I \<le> unat now"
proof -
  have i0: "interval t \<noteq> 0" using c I by (auto simp: counted_def)
  have *: "counted E I m (tfd_step now t) \<and> taken + unat (ticks (tfd_step now t)) = m \<and> (m = 0 \<or> E + (m - 1) * I \<le> unat now)"
  proof (cases "now < expire t")
    case True
    then have "m = n" unfolding m_def using c low
      by (intro expirations_eq [OF I]) (simp_all add: counted_def word_less_nat_alt)
    moreover have "tfd_step now t = t" using True by (simp add: tfd_step_def)
    ultimately show ?thesis using c tk low by simp
  next
    case False
    define x where "x = unat now - (E + n * I)"
    define k where "k = x div I + 1"
    have le: "E + n * I \<le> unat now" using False c by (simp add: counted_def word_less_nat_alt)
    have kx: "(k - 1) * I \<le> x" "x < k * I" using I dividend_less_div_times [of I x] by (simp_all add: k_def)
    have hi: "unat now < E + (n + k) * I" "E + (n + k - 1) * I \<le> unat now"
    proof -
      have "(n + k - 1) * I = n * I + (k - 1) * I" "(n + k) * I = n * I + k * I"
        by (simp_all add: k_def add_mult_distrib)
      moreover have "unat now = E + n * I + x" using le by (simp add: x_def)
      ultimately show "unat now < E + (n + k) * I" "E + (n + k - 1) * I \<le> unat now"
        using kx by linarith+
    qed
    then have m: "m = n + k" unfolding m_def by (intro expirations_eq [OF I]) simp_all
    have bk: "E + (n + k) * I < 2 ^ 64" using hi(2) b by (simp add: k_def algebra_simps)
    have nk: "n + k < 2 ^ 64"
    proof -
      have "n + k \<le> (n + k) * I" using I by simp
      then show ?thesis using bk by linarith
    qed
    have d: "unat (now - expire t) = x" using le c by (simp add: x_def counted_def unat_minus_small)
    have "k < 2 ^ 64" using nk by simp
    then have w: "unat ((now - expire t) div interval t + 1) = k"
      using d c by (subst unat_plus_small) (simp_all add: unat_div counted_def k_def)
    have step: "tfd_step now t = t\<lparr>ticks := ticks t + ((now - expire t) div interval t + 1),
        expire := expire t + ((now - expire t) div interval t + 1) * interval t\<rparr>"
      using False c i0 by (simp add: tfd_step_def counted_def Let_def)
    have kI: "k * I < 2 ^ 64" "unat (expire t) + k * I < 2 ^ 64" using bk c by (simp_all add: counted_def algebra_simps)
    define q where "q = (now - expire t) div interval t + 1"
    have p: "unat (q * interval t) = k * I" unfolding q_def
      using w c kI(1) by (subst unat_mult_small) (simp_all only: counted_def, simp)
    have "unat (expire t + q * interval t) = unat (expire t) + unat (q * interval t)"
      by (rule unat_plus_small) (use p kI(2) in simp)
    then have e: "unat (expire (tfd_step now t)) = E + (n + k) * I"
      using c p unfolding step q_def [symmetric] by (simp add: counted_def add_mult_distrib)
    have "unat (ticks t) + k < 2 ^ 64" using nk tk by simp
    then have "unat (ticks t + q) = unat (ticks t) + unat q"
      using w unfolding q_def by (intro unat_plus_small) simp
    then have "taken + unat (ticks (tfd_step now t)) = n + k"
      using w tk unfolding step q_def [symmetric] by simp
    moreover have "armed (tfd_step now t)" "interval (tfd_step now t) = interval t"
      using c unfolding step by (simp_all add: counted_def)
    ultimately show ?thesis using e c hi(2) unfolding m by (simp add: counted_def)
  qed
  then show "counted E I m (tfd_step now t)" "taken + unat (ticks (tfd_step now t)) = m"
    "m = 0 \<or> E + (m - 1) * I \<le> unat now" by blast+
qed

lemma tick_walk_tfds:
  "distinct is \<Longrightarrow> tfds (fst (tfd_tick_walk nows is s)) i =
    (if i \<in> set is then tfd_step (nows i) (tfds s i) else tfds s i)"
proof (induction "is" arbitrary: s)
  case (Cons j "is")
  then show ?case by (auto simp: Let_def split_beta tfd_update_tfds)
qed simp

lemma update_distinct: "distinct (armed_list s) \<Longrightarrow> distinct (armed_list (fst (tfd_update now j s)))"
  and update_other: "j \<noteq> i \<Longrightarrow> i \<in> set (armed_list (fst (tfd_update now j s))) \<longleftrightarrow> i \<in> set (armed_list s)"
  by (simp_all add: tfd_update_list)

lemma update_own: "armed (tfd_step now (tfds s i)) \<Longrightarrow> armed_list (fst (tfd_update now i s)) = armed_list s"
  by (simp add: tfd_update_list)

lemma walk_list_other:
  "distinct (armed_list s) \<Longrightarrow> i \<in> set (armed_list s) \<Longrightarrow> i \<notin> set is \<Longrightarrow>
   distinct (armed_list (fst (tfd_tick_walk nows is s))) \<and> i \<in> set (armed_list (fst (tfd_tick_walk nows is s)))"
proof (induction "is" arbitrary: s)
  case (Cons j "is")
  then have "j \<noteq> i" by simp
  then show ?case using Cons.IH [of "fst (tfd_update (nows j) j s)"] Cons.prems
    by (simp add: Let_def split_beta update_distinct update_other)
qed simp

lemma walk_list:
  "distinct (armed_list s) \<Longrightarrow> i \<in> set (armed_list s) \<Longrightarrow> armed (tfd_step (nows i) (tfds s i)) \<Longrightarrow> distinct is \<Longrightarrow>
   distinct (armed_list (fst (tfd_tick_walk nows is s))) \<and> i \<in> set (armed_list (fst (tfd_tick_walk nows is s)))"
proof (induction "is" arbitrary: s)
  case (Cons j "is")
  let ?s = "fst (tfd_update (nows j) j s)"
  have d: "distinct (armed_list ?s)" using Cons.prems(1) by (rule update_distinct)
  have m: "i \<in> set (armed_list ?s)"
    using Cons.prems(2,3) by (cases "j = i") (simp_all add: update_other update_own)
  have "distinct (armed_list (fst (tfd_tick_walk nows is ?s))) \<and> i \<in> set (armed_list (fst (tfd_tick_walk nows is ?s)))"
  proof (cases "j = i")
    case False
    then have "tfds ?s i = tfds s i" by (simp add: tfd_update_tfds)
    then show ?thesis using Cons.IH [OF d m] Cons.prems(3,4) by simp
  next
    case True
    then have "i \<notin> set is" using Cons.prems(4) by simp
    then show ?thesis using walk_list_other [OF d m] by simp
  qed
  then show ?case by (simp add: Let_def split_beta)
qed simp

text \<open>
  The life of a periodic timer \<open>i\<close> from the call that arms it, while it is polled, read and
  ticked at times that never go back and other timers come and go: \<open>seen\<close> is when it was last
  looked at and \<open>taken\<close> what reads have handed out. The times stay clear of the end of the
  64-bit counter.
\<close>

inductive tfd_run :: "nat \<Rightarrow> nat \<Rightarrow> nat \<Rightarrow> u64 option \<Rightarrow> nat \<Rightarrow> tfd_state \<Rightarrow> bool" for i E I where
  arm: "tfd_reach live s0 \<Longrightarrow> i \<in> live \<Longrightarrow>
    timerfd_settime fpt (Some i) flags new old old_now now clock_ns s0 = (s, 0, out) \<Longrightarrow>
    armed (tfds s i) \<Longrightarrow> ticks (tfds s i) = 0 \<Longrightarrow> 0 < I \<Longrightarrow> unat (interval (tfds s i)) = I \<Longrightarrow> unat (expire (tfds s i)) = E \<Longrightarrow>
    tfd_run i E I None 0 s"
| own: "tfd_run i E I seen taken s \<Longrightarrow> tfd_op now i got s s' \<Longrightarrow> unat now + I < 2 ^ 64 \<Longrightarrow>
    (case seen of None \<Rightarrow> True | Some x \<Rightarrow> x \<le> now) \<Longrightarrow> tfd_run i E I (Some now) (taken + got) s'"
| tick: "tfd_run i E I seen taken s \<Longrightarrow> tfd_tick nows s = (s', woken) \<Longrightarrow> nows i = now \<Longrightarrow> unat now + I < 2 ^ 64 \<Longrightarrow>
    (case seen of None \<Rightarrow> True | Some x \<Rightarrow> x \<le> now) \<Longrightarrow> tfd_run i E I (Some now) taken s'"
| other_look: "tfd_run i E I seen taken s \<Longrightarrow> j \<noteq> i \<Longrightarrow> tfd_op now j got s s' \<Longrightarrow> tfd_run i E I seen taken s'"
| other_settime: "tfd_run i E I seen taken s \<Longrightarrow> j \<noteq> i \<Longrightarrow>
    timerfd_settime fpt (Some j) flags new old old_now now clock_ns s = (s', r, out) \<Longrightarrow> tfd_run i E I seen taken s'"
| other_drop: "tfd_run i E I seen taken s \<Longrightarrow> j \<noteq> i \<Longrightarrow> tfd_run i E I seen taken (tfd_drop j s)"

definition run_ok :: "nat \<Rightarrow> nat \<Rightarrow> nat \<Rightarrow> u64 option \<Rightarrow> nat \<Rightarrow> tfd_state \<Rightarrow> bool" where
  "run_ok i E I seen taken s \<longleftrightarrow> 0 < I \<and> distinct (armed_list s) \<and> i \<in> set (armed_list s)
     \<and> (let n = taken + unat (ticks (tfds s i)) in counted E I n (tfds s i)
         \<and> (case seen of None \<Rightarrow> n = 0 | Some x \<Rightarrow> n = expirations E I (unat x) \<and> (n = 0 \<or> E + (n - 1) * I \<le> unat x)))"

lemma run_ok_same:
  assumes "run_ok i E I seen taken s" and "tfds s' i = tfds s i" and "distinct (armed_list s')" and "i \<in> set (armed_list s')"
  shows "run_ok i E I seen taken s'"
  using assms by (simp add: run_ok_def)

lemma run_ok_step:
  assumes r: "run_ok i E I seen taken s" and b: "unat now + I < 2 ^ 64"
    and le: "case seen of None \<Rightarrow> True | Some x \<Rightarrow> x \<le> now"
  shows "armed (tfd_step now (tfds s i))"
    and "tfds s' i = (tfd_step now (tfds s i))\<lparr>ticks := k\<rparr> \<Longrightarrow> got + unat k = unat (ticks (tfd_step now (tfds s i))) \<Longrightarrow>
      distinct (armed_list s') \<Longrightarrow> i \<in> set (armed_list s') \<Longrightarrow> run_ok i E I (Some now) (taken + got) s'"
proof -
  define n where "n = taken + unat (ticks (tfds s i))"
  have c: "counted E I n (tfds s i)" "0 < I" using r by (simp_all add: run_ok_def n_def Let_def)
  have low: "n = 0 \<or> E + (n - 1) * I \<le> unat now"
    using r le by (auto simp: run_ok_def n_def Let_def word_le_nat_alt split: option.splits)
  note st = tfd_step_counted [OF c low n_def [symmetric] b]
  show "armed (tfd_step now (tfds s i))" using st(1) by (simp add: counted_def)
  assume s': "tfds s' i = (tfd_step now (tfds s i))\<lparr>ticks := k\<rparr>" "got + unat k = unat (ticks (tfd_step now (tfds s i)))"
    "distinct (armed_list s')" "i \<in> set (armed_list s')"
  have "counted E I (expirations E I (unat now)) (tfds s' i)" using st(1) s'(1) by (simp add: counted_def)
  moreover have "taken + got + unat (ticks (tfds s' i)) = expirations E I (unat now)" using st(2) s'(1,2) by simp
  ultimately show "run_ok i E I (Some now) (taken + got) s'"
    using s'(3,4) st(3) c(2) by (simp add: run_ok_def Let_def)
qed

lemma tfd_run_ok: "tfd_run i E I seen taken s \<Longrightarrow> run_ok i E I seen taken s"
proof (induction rule: tfd_run.induct)
  case (arm live s0 fpt flags new old old_now now clock_ns s out)
  have "listed live s" by (rule listed_settime [OF tfd_reach_listed [OF arm.hyps(1)] arm.hyps(2,3)])
  then show ?case using arm.hyps by (simp add: run_ok_def listed_def counted_def)
next
  case (own seen taken s now got s')
  note st = run_ok_step [OF own.IH own.hyps(3,4)]
  obtain k where k: "tfds s' = (tfds s)(i := (tfd_step now (tfds s i))\<lparr>ticks := k\<rparr>)"
    "got + unat k = unat (ticks (tfd_step now (tfds s i)))" using tfd_op_effect(2) [OF own.hyps(2)] by blast
  have "armed_list s' = armed_list s" unfolding tfd_op_effect(1) [OF own.hyps(2)] by (rule update_own [OF st(1)])
  then show ?case using own.IH k by (intro st(2) [of s' k got]) (simp_all add: run_ok_def)
next
  case (tick seen taken s nows s' woken now)
  note st = run_ok_step [OF tick.IH tick.hyps(4,5)]
  have r: "distinct (armed_list s)" "i \<in> set (armed_list s)" using tick.IH by (simp_all add: run_ok_def)
  have s': "s' = fst (tfd_tick_walk nows (armed_list s) s)" using tick.hyps(2) by (simp add: tfd_tick_def)
  have "tfds s' i = tfd_step now (tfds s i)" unfolding s' using r tick.hyps(3) by (simp add: tick_walk_tfds)
  moreover have "distinct (armed_list s') \<and> i \<in> set (armed_list s')"
    unfolding s' using st(1) r tick.hyps(3) by (intro walk_list) simp_all
  ultimately have "run_ok i E I (Some now) (taken + 0) s'"
    by (intro st(2) [where k = "ticks (tfd_step now (tfds s i))"]) simp_all
  then show ?case by simp
next
  case (other_look seen taken s j now got s')
  then show ?case using tfd_op_effect [OF other_look.hyps(3)]
    by (intro run_ok_same [OF other_look.IH]) (auto simp: run_ok_def update_distinct update_other)
next
  case (other_settime seen taken s j fpt flags new old old_now now clock_ns s' r out)
  then show ?case using settime_effect [OF other_settime.hyps(3)]
    by (intro run_ok_same [OF other_settime.IH]) (auto simp: run_ok_def)
next
  case (other_drop seen taken s j)
  then show ?case by (intro run_ok_same [OF other_drop.IH]) (auto simp: run_ok_def tfd_drop_def)
qed

section \<open>Properties\<close>

text \<open>C24. Timers are where the tick looks for them: in every reachable state the list of armed
  timers holds each open and armed timer exactly once and no timer that is disarmed or
  closed, so the tick never touches a freed one.\<close>

theorem tfd_armed_listed:
  assumes "tfd_reach live s"
  shows "distinct (armed_list s) \<and> set (armed_list s) = {i \<in> live. armed (tfds s i)}"
  using tfd_reach_listed [OF assms] by (simp add: listed_def)

definition demo_new :: itimerspec where
  "demo_new = \<lparr>it_interval = \<lparr>tv_sec = 0, tv_nsec = 10\<rparr>, it_value = \<lparr>tv_sec = 0, tv_nsec = 5\<rparr>\<rparr>"

definition demo_boot :: tfd_state where
  "demo_boot = \<lparr>tfds = (\<lambda>_. \<lparr>tfd_clock = 0, tfd_nonblock = False, armed = False, expire = 0, interval = 0, ticks = 0\<rparr>),
     armed_list = [], tick_hooked = False\<rparr>"

definition demo_open :: tfd_state where
  "demo_open = fst (timerfd_create 1 0 True (Some 0) True True 3 demo_boot)"

definition demo_set :: tfd_state where
  "demo_set = fst (timerfd_settime 1000000 (Some 0) 0 demo_new False 0 100 0 demo_open)"

lemma demo_open_reach: "tfd_reach {0} demo_open"
proof -
  have c: "timerfd_create 1 0 True (Some 0) True True 3 demo_boot = (demo_open, 3, [])"
    by (simp add: demo_open_def timerfd_create_def install_def)
  have b: "tfd_reach {} demo_boot" by (rule tfd_reach.boot) (simp_all add: demo_boot_def)
  show ?thesis using tfd_reach.create [OF b _ c] by simp
qed

lemma demo_settime: "timerfd_settime 1000000 (Some 0) 0 demo_new False 0 100 0 demo_open = (demo_set, 0, None)"
  by (simp add: demo_set_def timerfd_settime_def demo_new_def ts_ok_def ts_ns_def Let_def)

lemma demo_set_sel: "armed_list demo_set = [0]" "armed (tfds demo_set 0)" "expire (tfds demo_set 0) = 105"
  "interval (tfds demo_set 0) = 10" "ticks (tfds demo_set 0) = 0"
  by (simp_all add: demo_set_def demo_open_def demo_boot_def demo_new_def timerfd_settime_def timerfd_create_def
      ts_ok_def ts_ns_def install_def clock_ns_to_counts_def put_tfd_def tfd_unlink_def Let_def)

theorem tfd_armed_listed_witness:
  "tfd_reach {0} demo_set \<and> armed_list demo_set = [0] \<and> armed (tfds demo_set 0)"
proof -
  have r: "tfd_reach {0} demo_set" by (rule tfd_reach.settime [OF demo_open_reach _ demo_settime]) simp
  from tfd_armed_listed [OF r] have "set (armed_list demo_set) = {i \<in> {0}. armed (tfds demo_set i)}" by blast
  then show ?thesis using r demo_set_sel(1) by auto
qed

text \<open>C11. A periodic timer reports every expiration exactly once: after any look at it, at
  whatever times it was ticked, polled and read before, what reads have handed out and what is
  waiting add up to the number of times \<open>E\<close>, \<open>E + I\<close>, \<open>E + 2 * I\<close> and so on that lie no
  later than that look.\<close>

theorem tfd_counts_exact:
  assumes "tfd_run i E I (Some now) taken s"
  shows "taken + unat (ticks (tfds s i)) = expirations E I (unat now)"
  using tfd_run_ok [OF assms] by (simp add: run_ok_def Let_def)

theorem tfd_counts_exact_witness:
  "\<exists>s. tfd_run 0 105 10 (Some 130) 3 s \<and> unat (ticks (tfds s 0)) = 0"
proof -
  have a: "tfd_run 0 105 10 None 0 demo_set"
    by (rule tfd_run.arm [OF demo_open_reach _ demo_settime]) (simp_all add: demo_set_sel)
  obtain s' out v d where r: "tfd_read 130 0 8 False demo_set = (s', out, v, d)" by (metis prod_cases4)
  have v: "v = Some 3" using r
    by (auto simp: tfd_read_def Let_def tfd_update_tfds tfd_step_def demo_set_sel split: if_splits)
  have "tfd_run 0 105 10 (Some 130) (0 + (case v of None \<Rightarrow> 0 | Some g \<Rightarrow> unat g)) s'"
    by (rule tfd_run.own [OF a tfd_op.read [OF r]]) simp_all
  then have t: "tfd_run 0 105 10 (Some 130) 3 s'" by (simp add: v)
  from tfd_counts_exact [OF t] have "unat (ticks (tfds s' 0)) = 0" by (simp add: expirations_def)
  with t show ?thesis by blast
qed

text \<open>C36. A relative time of 2 ^ 55 seconds is accepted by the checks of \<open>timerfd_settime\<close> and
  wraps around to zero nanoseconds: instead of arming the timer far in the future the call
  disarms it and reports success.\<close>

theorem tfd_far_future_disarms:
  assumes "it_value new = \<lparr>tv_sec = 2 ^ 55, tv_nsec = 0\<rparr>" and "ts_ok (it_interval new)"
  shows "\<exists>s' out. timerfd_settime fpt (Some i) 0 new old old_now now clock_ns s = (s', 0, out)
    \<and> ts_ok (it_value new) \<and> \<not> armed (tfds s' i)"
proof -
  have z: "ts_ns (it_value new) = 0" by (simp add: assms(1) ts_ns_def)
  have k: "ts_ok (it_value new)" by (simp add: assms(1) ts_ok_def)
  show ?thesis by (simp add: timerfd_settime_def Let_def assms(2) z k)
qed

theorem tfd_far_future_disarms_witness:
  "\<exists>s' out. timerfd_settime 1000000 (Some 0) 0
      \<lparr>it_interval = \<lparr>tv_sec = 0, tv_nsec = 0\<rparr>, it_value = \<lparr>tv_sec = 2 ^ 55, tv_nsec = 0\<rparr>\<rparr> False 0 100 0 demo_open = (s', 0, out)
    \<and> \<not> armed (tfds s' 0)"
  using tfd_far_future_disarms [of "\<lparr>it_interval = \<lparr>tv_sec = 0, tv_nsec = 0\<rparr>, it_value = \<lparr>tv_sec = 2 ^ 55, tv_nsec = 0\<rparr>\<rparr>"
      1000000 0 False 0 100 0 demo_open] by (auto simp: ts_ok_def)

end
