(* ===== verification/Netcore.thy ===== *)
theory Netcore
  imports Prelude
begin

text \<open>
  The lowest layer of the network stack: packet buffers, interfaces, the internet checksum and
  the reachability probe of \<open>kernel/src/net/net.c\<close>, and the Ethernet framing of
  \<open>kernel/src/net/ether.c\<close>. Times are the milliseconds of \<open>net_now_ms\<close>, passed as
  an argument. A card's driver is a module outside the kernel proper: its \<open>send\<close> operation
  is the argument \<open>drv\<close>, and every frame handed to it is logged in the state.
\<close>

section \<open>Packet buffers\<close>

abbreviation (input) ETH_ALEN :: nat where "ETH_ALEN \<equiv> 6"
abbreviation (input) ETH_HLEN :: nat where "ETH_HLEN \<equiv> 14"
abbreviation ETH_MTU :: nat where "ETH_MTU \<equiv> 1500"
abbreviation (input) NETIF_MAX :: nat where "NETIF_MAX \<equiv> 4"
abbreviation NETBUF_SIZE :: nat where "NETBUF_SIZE \<equiv> 2048"
abbreviation NETBUF_HEADROOM :: nat where "NETBUF_HEADROOM \<equiv> 64"

text \<open>\<open>nb_off\<close> is \<open>data - buf\<close>.\<close>

record netbuf =
  nb_off :: nat
  nb_len :: nat
  nb_buf :: bytes

text \<open>The memory a new buffer gets is uninitialised, so its old contents are an argument.\<close>

definition netbuf_alloc :: "bytes option \<Rightarrow> netbuf option" where
  "netbuf_alloc mem = map_option (\<lambda>junk. \<lparr>nb_off = NETBUF_HEADROOM, nb_len = 0, nb_buf = junk\<rparr>) mem"

definition netbuf_push :: "netbuf \<Rightarrow> nat \<Rightarrow> netbuf option" where
  "netbuf_push nb len =
     (if nb_off nb < len then None
      else Some (nb\<lparr>nb_off := nb_off nb - len, nb_len := nb_len nb + len\<rparr>))"

text \<open>The tail pointer \<open>netbuf_put\<close> returns is the old end of the data.\<close>

definition netbuf_put :: "netbuf \<Rightarrow> nat \<Rightarrow> (nat \<times> netbuf) option" where
  "netbuf_put nb len =
     (let used = nb_off nb + nb_len nb
      in if sz_add used len > NETBUF_SIZE then None
         else Some (nb_off nb + nb_len nb, nb\<lparr>nb_len := nb_len nb + len\<rparr>))"

definition netbuf_data :: "netbuf \<Rightarrow> bytes" where
  "netbuf_data nb = take (nb_len nb) (drop (nb_off nb) (nb_buf nb))"

text \<open>A header or payload written through a pointer into the buffer.\<close>

definition netbuf_store :: "netbuf \<Rightarrow> nat \<Rightarrow> bytes \<Rightarrow> netbuf" where
  "netbuf_store nb at bs = nb\<lparr>nb_buf := blit (nb_buf nb) at bs\<rparr>"

definition netbuf_wf :: "netbuf \<Rightarrow> bool" where
  "netbuf_wf nb \<longleftrightarrow> length (nb_buf nb) = NETBUF_SIZE \<and> nb_off nb + nb_len nb \<le> NETBUF_SIZE"

lemma length_netbuf_data [simp]: "netbuf_wf nb \<Longrightarrow> length (netbuf_data nb) = nb_len nb"
  by (auto simp: netbuf_wf_def netbuf_data_def min_def)

lemma netbuf_alloc_wf:
  "netbuf_alloc mem = Some nb \<Longrightarrow> mem = Some junk \<Longrightarrow> length junk = NETBUF_SIZE \<Longrightarrow>
   netbuf_wf nb \<and> netbuf_data nb = [] \<and> nb_off nb = NETBUF_HEADROOM"
  by (auto simp: netbuf_alloc_def netbuf_wf_def netbuf_data_def)

text \<open>Putting a header of the pushed length in front.\<close>

lemma netbuf_push_store:
  assumes "netbuf_wf nb" and "length hdr \<le> nb_off nb"
  shows "\<exists>nb'. netbuf_push nb (length hdr) = Some nb' \<and> nb_off nb' = nb_off nb - length hdr
    \<and> nb_len nb' = nb_len nb + length hdr
    \<and> netbuf_wf (netbuf_store nb' (nb_off nb') hdr)
    \<and> netbuf_data (netbuf_store nb' (nb_off nb') hdr) = hdr @ netbuf_data nb"
proof -
  let ?o = "nb_off nb - length hdr"
  let ?nb = "nb\<lparr>nb_off := ?o, nb_len := nb_len nb + length hdr\<rparr>"
  have p: "netbuf_push nb (length hdr) = Some ?nb" using assms(2) by (simp add: netbuf_push_def)
  have o: "?o + length hdr = nb_off nb" using assms(2) by simp
  have l: "length (take ?o (nb_buf nb)) = ?o" using assms by (auto simp: netbuf_wf_def min_def)
  have "drop ?o (blit (nb_buf nb) ?o hdr) = hdr @ drop (nb_off nb) (nb_buf nb)"
    using l o by (simp add: blit_def)
  then have "netbuf_data (netbuf_store ?nb ?o hdr) = hdr @ netbuf_data nb"
    by (simp add: netbuf_data_def netbuf_store_def)
  moreover have "netbuf_wf (netbuf_store ?nb ?o hdr)"
    using assms by (auto simp: netbuf_wf_def netbuf_store_def)
  ultimately show ?thesis using p by simp
qed

lemma netbuf_put_store:
  assumes "netbuf_wf nb" and "nb_off nb + nb_len nb + length bs \<le> NETBUF_SIZE"
  shows "\<exists>at nb'. netbuf_put nb (length bs) = Some (at, nb') \<and> nb_off nb' = nb_off nb
    \<and> nb_len nb' = nb_len nb + length bs \<and> netbuf_wf (netbuf_store nb' at bs)
    \<and> netbuf_data (netbuf_store nb' at bs) = netbuf_data nb @ bs"
proof -
  let ?at = "nb_off nb + nb_len nb"
  have p: "netbuf_put nb (length bs) = Some (?at, nb\<lparr>nb_len := nb_len nb + length bs\<rparr>)"
    using assms(2) by (simp add: netbuf_put_def Let_def)
  have "length (nb_buf nb) = NETBUF_SIZE" using assms(1) by (simp add: netbuf_wf_def)
  then have "drop (nb_off nb) (blit (nb_buf nb) ?at bs) =
      netbuf_data nb @ bs @ drop (?at + length bs) (nb_buf nb)"
    using assms by (simp add: blit_def netbuf_data_def drop_take)
  then have "netbuf_data (netbuf_store (nb\<lparr>nb_len := nb_len nb + length bs\<rparr>) ?at bs) = netbuf_data nb @ bs"
    using length_netbuf_data [OF assms(1)] unfolding netbuf_data_def [of "netbuf_store _ _ _"]
    by (simp add: netbuf_store_def)
  moreover have "netbuf_wf (netbuf_store (nb\<lparr>nb_len := nb_len nb + length bs\<rparr>) ?at bs)"
    using assms by (simp add: netbuf_wf_def netbuf_store_def)
  ultimately show ?thesis using p by simp
qed

section \<open>The internet checksum\<close>

fun net_checksum_partial :: "bytes \<Rightarrow> u32 \<Rightarrow> u32" where
  "net_checksum_partial (a # b # p) acc =
     net_checksum_partial p (acc + (push_bit 8 (ucast a) OR ucast b))"
| "net_checksum_partial [a] acc = acc + push_bit 8 (ucast a)"
| "net_checksum_partial [] acc = acc"

function fold16 :: "u32 \<Rightarrow> u32" where
  "fold16 acc = (if drop_bit 16 acc \<noteq> 0 then fold16 ((acc AND 0xFFFF) + drop_bit 16 acc) else acc)"
  by pat_completeness auto

lemma low16: "unat ((s :: u32) AND 0xFFFF) = unat s mod 65536"
proof -
  have "s AND 0xFFFF = take_bit 16 s" by (simp add: take_bit_eq_mask mask_numeral)
  then show ?thesis by (simp add: unat_mod take_bit_eq_mod)
qed

lemma high16: "unat (drop_bit 16 (s :: u32)) = unat s div 65536"
  by (simp add: drop_bit_eq_div unat_div)

lemma high16_nonzero: "drop_bit 16 (s :: u32) \<noteq> 0 \<longleftrightarrow> 65536 \<le> unat s"
  using high16 [of s] by (auto simp: unat_eq_0 [symmetric] div_eq_0_iff simp del: unat_eq_zero)

lemma fold_turn: "unat ((s AND 0xFFFF) + drop_bit 16 (s :: u32)) = unat s mod 65536 + unat s div 65536"
proof -
  have "unat s < 2 ^ 32" using unsigned_less [of s] by simp
  then have "unat s mod 65536 + unat s div 65536 < 2 ^ 32" by (simp add: div_less_iff_less_mult) 
  then show ?thesis by (simp add: unat_plus_small low16 high16)
qed

termination fold16
proof (relation "measure unat")
  fix s :: u32
  assume "drop_bit 16 s \<noteq> 0"
  then have "65536 \<le> unat s" by (simp add: high16_nonzero)
  moreover have "unat s = 65536 * (unat s div 65536) + unat s mod 65536" by simp
  ultimately have "unat s mod 65536 + unat s div 65536 < unat s" by linarith
  then show "((s AND 0xFFFF) + drop_bit 16 s, s) \<in> measure unat" by (simp add: fold_turn)
qed simp

declare fold16.simps [simp del]

definition net_checksum :: "bytes \<Rightarrow> u32 \<Rightarrow> u16" where
  "net_checksum data start = htons (ucast (NOT (fold16 (net_checksum_partial data start))))"

text \<open>The sum of the big endian 16-bit words of a block, as a number.\<close>

fun sum16 :: "bytes \<Rightarrow> nat" where
  "sum16 (a # b # p) = 256 * unat a + unat b + sum16 p"
| "sum16 [a] = 256 * unat a"
| "sum16 [] = 0"

lemma sum16_append: "even (length xs) \<Longrightarrow> sum16 (xs @ ys) = sum16 xs + sum16 ys"
  by (induction xs rule: sum16.induct) auto

lemma sum16_bound: "sum16 bs \<le> 65535 * ((length bs + 1) div 2)"
proof (induction bs rule: sum16.induct)
  case (1 a b p)
  have "unat a < 256" "unat b < 256" using unsigned_less [of a] unsigned_less [of b] by simp_all
  with 1 show ?case by simp
next
  case (2 a)
  have "unat a < 256" using unsigned_less [of a] by simp
  then show ?case by simp
qed simp

lemma be16_word: "unat (push_bit 8 (ucast a) OR ucast b :: u32) = 256 * unat a + unat (b :: u8)"
  for a :: u8
proof -
  have "push_bit 8 (ucast a :: u32) AND ucast b = 0"
    by (rule bit_word_eqI) (auto simp: bit_simps dest: bit_u8_less)
  then have "push_bit 8 (ucast a :: u32) OR ucast b = push_bit 8 (ucast a) + ucast b"
    by (simp add: disjunctive_add_eq_or)
  moreover have "push_bit 8 (ucast a :: u32) = ucast a * 256" by (simp add: push_bit_eq_mult)
  moreover have "unat a < 256" "unat b < 256" using unsigned_less [of a] unsigned_less [of b] by simp_all
  ultimately show ?thesis by (simp add: unat_plus_small unat_mult_small unsigned_ucast_eq take_bit_eq_mod)
qed

lemma partial_sum:
  "unat acc + sum16 bs < 2 ^ 32 \<Longrightarrow> unat (net_checksum_partial bs acc) = unat acc + sum16 bs"
proof (induction bs acc rule: net_checksum_partial.induct)
  case (1 a b p acc)
  have "unat (acc + (push_bit 8 (ucast a) OR ucast b)) = unat acc + (256 * unat a + unat b)"
    using "1.prems" by (simp add: unat_plus_small be16_word)
  with 1 show ?case by simp
next
  case (2 a acc)
  then show ?case using be16_word [of a 0] by (simp add: unat_plus_small)
qed simp

lemma fold16_spec:
  "unat (fold16 s) < 65536 \<and> unat (fold16 s) mod 65535 = unat s mod 65535
   \<and> unat (fold16 s) \<le> unat s \<and> (fold16 s = 0 \<longleftrightarrow> s = 0)"
proof (induction s rule: fold16.induct)
  case (1 s)
  show ?case
  proof (cases "drop_bit 16 s = 0")
    case True
    then have "unat s < 65536" using high16_nonzero [of s] by auto
    with True show ?thesis by (simp add: fold16.simps [of s])
  next
    case False
    let ?t = "(s AND 0xFFFF) + drop_bit 16 s"
    have t: "unat ?t = unat s mod 65536 + unat s div 65536" by (rule fold_turn)
    have big: "65536 \<le> unat s" using False by (simp add: high16_nonzero)
    have d: "unat s = 65535 * (unat s div 65536) + unat ?t" unfolding t by simp
    have "unat s div 65536 \<noteq> 0" using big by (simp add: div_eq_0_iff)
    then have "?t \<noteq> 0" "s \<noteq> 0" using t big by (auto simp: unat_eq_0 [symmetric] simp del: unat_eq_zero)
    moreover have "unat ?t mod 65535 = unat s mod 65535" using d by (metis mod_mult_self4)
    moreover have "unat ?t \<le> unat s" using d by linarith
    moreover have "fold16 s = fold16 ?t" using False by (subst fold16.simps) simp
    ultimately show ?thesis using 1 [OF False] by auto
  qed
qed

lemma htons_inj [simp]: "htons a = htons b \<longleftrightarrow> a = b"
  by (metis htons_htons)

lemma htons_0 [simp]: "htons 0 = 0"
  by (simp add: htons_def)

lemma unat_not_fold: "unat (ucast (NOT (fold16 s)) :: u16) = 65535 - unat (fold16 s)"
proof -
  let ?f = "fold16 s"
  have f: "unat ?f < 65536" using fold16_spec [of s] by simp
  have "ucast (NOT ?f) = NOT (ucast ?f :: u16)"
    by (rule bit_word_eqI) (simp add: bit_simps)
  moreover have "unat (ucast ?f :: u16) = unat ?f"
    using f by (simp add: unsigned_ucast_eq take_bit_eq_mod)
  moreover have "NOT (ucast ?f :: u16) = - 1 - ucast ?f" by (simp add: not_eq_complement)
  moreover have m: "unat (- 1 :: u16) = 65535" by (simp add: unsigned_minus_1_eq_mask mask_eq_exp_minus_1)
  ultimately show ?thesis using f unat_minus_small [of "ucast ?f :: u16" "- 1"] by simp
qed

lemma full_word: "x < 65536 \<Longrightarrow> 65535 \<le> x \<longleftrightarrow> x mod 65535 = 0 \<and> 0 < (x::nat)"
  by (cases "x = 65535") auto

text \<open>A block verifies exactly when its word sum is a positive multiple of \<open>2 ^ 16 - 1\<close>.\<close>

lemma net_checksum_zero:
  assumes "unat start + sum16 bs < 2 ^ 32"
  shows "net_checksum bs start = 0 \<longleftrightarrow> (unat start + sum16 bs) mod 65535 = 0 \<and> 0 < unat start + sum16 bs"
proof -
  let ?s = "net_checksum_partial bs start"
  have s: "unat ?s = unat start + sum16 bs" using assms by (rule partial_sum)
  have "net_checksum bs start = 0 \<longleftrightarrow> unat (ucast (NOT (fold16 ?s)) :: u16) = 0"
    unfolding net_checksum_def using htons_inj [of _ 0] by (simp add: unat_eq_0)
  also have "\<dots> \<longleftrightarrow> 65535 \<le> unat (fold16 ?s)" by (simp add: unat_not_fold)
  also have "\<dots> \<longleftrightarrow> unat (fold16 ?s) mod 65535 = 0 \<and> 0 < unat (fold16 ?s)"
    using fold16_spec [of ?s] by (intro full_word) simp
  also have "\<dots> \<longleftrightarrow> unat ?s mod 65535 = 0 \<and> 0 < unat ?s"
    using fold16_spec [of ?s] by (auto simp: unat_gt_0)
  finally show ?thesis by (simp add: s)
qed

lemma net_checksum_complement:
  assumes "unat start + sum16 bs < 2 ^ 32"
  shows "(unat start + sum16 bs + unat (htons (net_checksum bs start))) mod 65535 = 0"
    and "0 < unat start + sum16 bs + unat (htons (net_checksum bs start))"
proof -
  let ?s = "net_checksum_partial bs start"
  have s: "unat ?s = unat start + sum16 bs" using assms by (rule partial_sum)
  have c: "unat (htons (net_checksum bs start)) = 65535 - unat (fold16 ?s)"
    unfolding net_checksum_def by (simp add: unat_not_fold)
  let ?f = "unat (fold16 ?s)"
  have f: "?f \<le> unat ?s" "?f < 65536" "?f mod 65535 = unat ?s mod 65535"
    using fold16_spec [of ?s] by simp_all
  have "unat ?s + (65535 - ?f) = (unat ?s - ?f) + 65535" using f(1,2) by linarith
  moreover have "(unat ?s - ?f) mod 65535 = 0"
    using f(1,3) by (metis mod_eq_dvd_iff_nat mod_eq_0_iff_dvd)
  ultimately show "(unat start + sum16 bs + unat (htons (net_checksum bs start))) mod 65535 = 0"
    "0 < unat start + sum16 bs + unat (htons (net_checksum bs start))"
    by (simp_all add: c s [symmetric])
qed

lemma sum16_st16 [simp]: "sum16 (st16 (htons w)) = unat w"
proof -
  have "sum16 (st16 (htons w)) = 256 * unat (ucast (htons w) :: u8) + unat (ucast (drop_bit 8 (htons w)) :: u8)"
    by (simp add: st16_def)
  moreover have "(ucast (htons w) :: u8) = ucast (drop_bit 8 w)" "(ucast (drop_bit 8 (htons w)) :: u8) = ucast w"
    by (rule bit_word_eqI; auto simp: htons_def bit_simps)+
  moreover have "unat (ucast (drop_bit 8 w) :: u8) = unat w div 256"
  proof -
    have "unat w < 65536" using unsigned_less [where w = w] by simp
    then show ?thesis
      by (simp add: unsigned_ucast_eq take_bit_eq_mod drop_bit_eq_div unat_div div_less_iff_less_mult)
  qed
  moreover have "unat (ucast w :: u8) = unat w mod 256" by (simp add: unsigned_ucast_eq take_bit_eq_mod)
  ultimately show ?thesis by simp
qed

text \<open>A checksum computed over a packet with a zero field and stored there makes it verify.\<close>

lemma sum16_field: "even (length pre) \<Longrightarrow> sum16 (pre @ st16 c @ post) = sum16 (pre @ st16 0 @ post) + unat (htons c)"
proof -
  assume e: "even (length pre)"
  have "sum16 (pre @ st16 d @ post) = sum16 pre + (unat (htons d) + sum16 post)" for d
    using e sum16_st16 [of "htons d"] by (simp add: sum16_append)
  then show ?thesis by simp
qed

lemma sum16_small: "length bs \<le> 65535 \<Longrightarrow> 65535 * 6 + sum16 bs < 2 ^ 32"
proof -
  assume "length bs \<le> 65535"
  then have "(length bs + 1) div 2 \<le> 32768" by simp
  with sum16_bound [of bs] have "sum16 bs \<le> 65535 * 32768" by (meson le_trans mult_le_mono2)
  then show ?thesis by simp
qed

lemma checksum_inserted:
  assumes "even (length pre)" and "length pre + 2 + length post \<le> 65535" and "unat start \<le> 65535 * 6"
  shows "net_checksum (pre @ st16 (net_checksum (pre @ st16 0 @ post) start) @ post) start = 0"
proof -
  let ?z = "pre @ st16 0 @ post" and ?c = "net_checksum (pre @ st16 0 @ post) start"
  have small: "unat start + sum16 (pre @ st16 d @ post) < 2 ^ 32" for d
    using sum16_small [of "pre @ st16 d @ post"] assms(2,3) by simp
  have "unat start + sum16 (pre @ st16 ?c @ post) = unat start + sum16 ?z + unat (htons ?c)"
    using sum16_field [OF assms(1), of ?c post] by simp
  with net_checksum_complement [OF small [of 0]] net_checksum_zero [OF small [of ?c]] show ?thesis by simp
qed

section \<open>Interfaces\<close>

record netif =
  nif_name :: bytes
  mac :: bytes
  nif_ip :: u32
  netmask :: u32
  gateway :: u32
  dns :: u32
  configured :: bool
  link :: bool
  online :: bool
  probed :: bool
  probe_sent :: u64
  probe_at :: u64
  probe_rtt :: u32
  probe_seq :: u16
  probe_misses :: u8
  rx_frames :: u64
  tx_frames :: u64
  rx_bytes :: u64
  tx_bytes :: u64

text \<open>A pointer to an interface: one of the registered cards, or the loopback.\<close>

datatype nif_ref = Eth nat | Lo

text \<open>
  The link layer: the cards, the loopback interface, the frames handed to the drivers so far and
  what the next allocations of packet buffers will return.
\<close>

record link_state =
  netifs :: "netif list"
  netif_lo :: netif
  tx_log :: "(nif_ref \<times> bytes) list"
  nb_mem :: "bytes option list"

definition blank_netif :: netif where
  "blank_netif = \<lparr>nif_name = replicate 8 0, mac = replicate ETH_ALEN 0, nif_ip = 0, netmask = 0,
     gateway = 0, dns = 0, configured = False, link = False, online = False, probed = False,
     probe_sent = 0, probe_at = 0, probe_rtt = 0, probe_seq = 0, probe_misses = 0,
     rx_frames = 0, tx_frames = 0, rx_bytes = 0, tx_bytes = 0\<rparr>"

definition get_nif :: "'a link_state_scheme \<Rightarrow> nif_ref \<Rightarrow> netif" where
  "get_nif l r = (case r of Eth i \<Rightarrow> netifs l ! i | Lo \<Rightarrow> netif_lo l)"

definition set_nif :: "'a link_state_scheme \<Rightarrow> nif_ref \<Rightarrow> netif \<Rightarrow> 'a link_state_scheme" where
  "set_nif l r n = (case r of Eth i \<Rightarrow> l\<lparr>netifs := (netifs l)[i := n]\<rparr> | Lo \<Rightarrow> l\<lparr>netif_lo := n\<rparr>)"

definition netif_register :: "'a link_state_scheme \<Rightarrow> bytes \<Rightarrow> nif_ref option \<times> 'a link_state_scheme" where
  "netif_register l m =
     (let count = length (netifs l)
      in if count \<ge> NETIF_MAX then (None, l)
         else let nif = blank_netif\<lparr>nif_name := [0x65, 0x74, 0x68, 0x30 + of_nat count, 0, 0, 0, 0], mac := m\<rparr>
              in (Some (Eth count), l\<lparr>netifs := netifs l @ [nif]\<rparr>))"

definition netif_loopback :: nif_ref where
  "netif_loopback = Lo"

definition netif_get :: "'a link_state_scheme \<Rightarrow> int \<Rightarrow> nif_ref option" where
  "netif_get l index =
     (if index \<ge> 0 \<and> index < int (length (netifs l)) then Some (Eth (nat index)) else None)"

fun first_configured :: "nat \<Rightarrow> netif list \<Rightarrow> nat option" where
  "first_configured i [] = None"
| "first_configured i (n # ns) = (if configured n then Some i else first_configured (Suc i) ns)"

definition netif_default :: "'a link_state_scheme \<Rightarrow> nif_ref option" where
  "netif_default l =
     (case first_configured 0 (netifs l) of
        Some i \<Rightarrow> Some (Eth i)
      | None \<Rightarrow> if length (netifs l) \<noteq> 0 then Some (Eth 0) else None)"

text \<open>The next packet buffer: out of memory when the head of \<open>nb_mem\<close> says so.\<close>

definition take_netbuf :: "'a link_state_scheme \<Rightarrow> netbuf option \<times> 'a link_state_scheme" where
  "take_netbuf l =
     (case nb_mem l of [] \<Rightarrow> (None, l)
      | m # ms \<Rightarrow> (netbuf_alloc m, l\<lparr>nb_mem := ms\<rparr>))"

section \<open>The internet probe\<close>

abbreviation (input) NET_PROBE_MS :: u64 where "NET_PROBE_MS \<equiv> 30000"
abbreviation (input) NET_PROBE_RETRY_MS :: u64 where "NET_PROBE_RETRY_MS \<equiv> 5000"
abbreviation (input) NET_PROBE_WAIT_MS :: u64 where "NET_PROBE_WAIT_MS \<equiv> 3000"
abbreviation (input) NET_PROBE_MISSES :: u8 where "NET_PROBE_MISSES \<equiv> 2"

definition IP4 :: "u8 \<Rightarrow> u8 \<Rightarrow> u8 \<Rightarrow> u8 \<Rightarrow> u32" where
  "IP4 a b c d = ucast a OR push_bit 8 (ucast b) OR push_bit 16 (ucast c) OR push_bit 24 (ucast d)"

definition NET_PROBE_IP :: u32 where
  "NET_PROBE_IP = IP4 1 1 1 1"

definition net_set_online :: "netif \<Rightarrow> bool \<Rightarrow> netif" where
  "net_set_online nif onl =
     (if probed nif \<and> online nif = onl then nif else nif\<lparr>probed := True, online := onl\<rparr>)"

definition net_probe_answered :: "netif \<Rightarrow> u64 \<Rightarrow> netif" where
  "net_probe_answered nif now =
     (if probe_sent nif = 0 then nif
      else net_set_online (nif\<lparr>probe_rtt := ucast (now - probe_sent nif), probe_sent := 0,
             probe_at := now + NET_PROBE_MS, probe_misses := 0\<rparr>) True)"

text \<open>The second component is the sequence number of the ping the tick sends, if it sends one.\<close>

definition net_probe_tick :: "netif \<Rightarrow> u64 \<Rightarrow> netif \<times> u16 option" where
  "net_probe_tick nif now =
     (if \<not> configured nif \<or> \<not> link nif then
        (nif\<lparr>probe_sent := 0, probe_at := 0, probed := False, online := False, probe_misses := 0\<rparr>, None)
      else
        let nif1 =
          (if probe_sent nif \<noteq> 0 \<and> now - probe_sent nif \<ge> NET_PROBE_WAIT_MS then
             let n = nif\<lparr>probe_sent := 0, probe_at := now + NET_PROBE_RETRY_MS,
                         probe_misses := probe_misses nif + 1\<rparr>
             in if probe_misses n \<ge> NET_PROBE_MISSES \<or> \<not> probed n then net_set_online n False else n
           else nif)
        in if probe_sent nif1 = 0 \<and> now \<ge> probe_at nif1 then
             (nif1\<lparr>probe_sent := now, probe_seq := probe_seq nif1 + 1\<rparr>, Some (probe_seq nif1 + 1))
           else (nif1, None))"

section \<open>Ethernet\<close>

abbreviation (input) ETH_TYPE_IPV4 :: u16 where "ETH_TYPE_IPV4 \<equiv> 0x0800"
abbreviation (input) ETH_TYPE_ARP :: u16 where "ETH_TYPE_ARP \<equiv> 0x0806"

definition eth_broadcast :: bytes where
  "eth_broadcast = replicate ETH_ALEN 0xFF"

text \<open>What a frame is handed up as.\<close>

datatype ether_up = Up_arp bytes | Up_ipv4 bytes

definition ether_input :: "'a link_state_scheme \<Rightarrow> nif_ref \<Rightarrow> bytes \<Rightarrow> ether_up option \<times> 'a link_state_scheme" where
  "ether_input l r frame =
     (if length frame < ETH_HLEN then (None, l)
      else
        let nif = get_nif l r;
            l' = set_nif l r (nif\<lparr>rx_frames := rx_frames nif + 1,
                                 rx_bytes := rx_bytes nif + of_nat (length frame)\<rparr>);
            dst = take ETH_ALEN frame
        in if dst \<noteq> mac nif \<and> dst \<noteq> eth_broadcast then (None, l')
           else
             let payload = drop ETH_HLEN frame;
                 ty = htons (ld16 frame 12)
             in if ty = ETH_TYPE_ARP then (Some (Up_arp payload), l')
                else if ty = ETH_TYPE_IPV4 then (Some (Up_ipv4 payload), l')
                else (None, l'))"

definition ether_output :: "(nif_ref \<Rightarrow> bytes \<Rightarrow> int) \<Rightarrow> 'a link_state_scheme \<Rightarrow> nif_ref \<Rightarrow> netbuf
    \<Rightarrow> bytes \<Rightarrow> u16 \<Rightarrow> int \<times> 'a link_state_scheme" where
  "ether_output drv l r nb dst ty =
     (case netbuf_push nb ETH_HLEN of
        None \<Rightarrow> (- ENOBUFS, l)
      | Some nb1 \<Rightarrow>
          let nif = get_nif l r;
              nb2 = netbuf_store nb1 (nb_off nb1) (dst @ mac nif @ st16 (htons ty));
              err = drv r (netbuf_data nb2);
              l1 = l\<lparr>tx_log := tx_log l @ [(r, netbuf_data nb2)]\<rparr>
          in if err = 0 then
               (err, set_nif l1 r (nif\<lparr>tx_frames := tx_frames nif + 1,
                                       tx_bytes := tx_bytes nif + of_nat (nb_len nb2)\<rparr>))
             else (err, l1))"

text \<open>A frame that went out is the header followed by the payload.\<close>

lemma ether_output_frame:
  assumes "netbuf_wf nb" and "ETH_HLEN \<le> nb_off nb" and "length dst = ETH_ALEN"
    and "length (mac (get_nif l r)) = ETH_ALEN" and "ether_output drv l r nb dst ty = (err, l')"
  shows "tx_log l' = tx_log l @ [(r, dst @ mac (get_nif l r) @ st16 (htons ty) @ netbuf_data nb)]
    \<and> err = drv r (dst @ mac (get_nif l r) @ st16 (htons ty) @ netbuf_data nb)"
proof -
  let ?h = "dst @ mac (get_nif l r) @ st16 (htons ty)"
  have h: "length ?h = ETH_HLEN" using assms(3,4) by simp
  obtain nb' where "netbuf_push nb ETH_HLEN = Some nb'"
    "netbuf_data (netbuf_store nb' (nb_off nb') ?h) = ?h @ netbuf_data nb"
    using netbuf_push_store [of nb ?h] assms(1,2) h by auto
  with assms(5) show ?thesis
    by (auto simp: ether_output_def Let_def set_nif_def split: if_splits nif_ref.splits)
qed

lemma set_nif_log [simp]: "tx_log (set_nif l r n) = tx_log l" "nb_mem (set_nif l r n) = nb_mem l"
  by (simp_all add: set_nif_def split: nif_ref.split)

lemma ether_output_tx:
  "ether_output drv l r nb dst ty = (err, l') \<Longrightarrow>
   \<exists>fs. tx_log l' = tx_log l @ fs \<and> nb_mem l' = nb_mem l"
  by (auto simp: ether_output_def Let_def split: option.splits if_splits)

end
