(* ===== verification/Arp.thy ===== *)
theory Arp
  imports Netcore
begin

text \<open>
  Address resolution, \<open>kernel/src/net/arp.c\<close>: the cache of 32 entries, a packet held back per
  address while it is looked up, retries and expiry. The cache extends the link layer state, so
  that the frames the operations send are in its log.
\<close>

section \<open>The cache\<close>

abbreviation (input) ARP_CACHE_SIZE :: nat where "ARP_CACHE_SIZE \<equiv> 32"
abbreviation (input) ARP_RETRY_MS :: u64 where "ARP_RETRY_MS \<equiv> 1000"
abbreviation (input) ARP_TRIES :: u8 where "ARP_TRIES \<equiv> 3"
abbreviation (input) ARP_TTL_MS :: u64 where "ARP_TTL_MS \<equiv> 600000"
abbreviation (input) ARP_HW_ETHER :: u16 where "ARP_HW_ETHER \<equiv> 1"
abbreviation (input) ARP_OP_REQUEST :: u16 where "ARP_OP_REQUEST \<equiv> 1"
abbreviation (input) ARP_OP_REPLY :: u16 where "ARP_OP_REPLY \<equiv> 2"
abbreviation (input) IP_BROADCAST :: u32 where "IP_BROADCAST \<equiv> 0xFFFFFFFF"

datatype arp_slot_state = ARP_FREE | ARP_PENDING | ARP_RESOLVED

record arp_entry =
  a_ip :: u32
  a_mac :: bytes
  a_state :: arp_slot_state
  a_tries :: u8
  a_stamp :: u64
  a_nif :: nif_ref
  a_pending :: "netbuf option"

record arp_state = link_state +
  arp_cache :: "arp_entry list"

fun arp_find_from :: "nat \<Rightarrow> arp_entry list \<Rightarrow> u32 \<Rightarrow> nat option" where
  "arp_find_from i [] ip = None"
| "arp_find_from i (a # as) ip =
     (if a_state a \<noteq> ARP_FREE \<and> a_ip a = ip then Some i else arp_find_from (Suc i) as ip)"

definition arp_find :: "arp_entry list \<Rightarrow> u32 \<Rightarrow> nat option" where
  "arp_find cache ip = arp_find_from 0 cache ip"

text \<open>The scan of \<open>arp_slot\<close> with the oldest resolved entry so far, its index and stamp.\<close>

fun arp_slot_from :: "nat \<Rightarrow> arp_entry list \<Rightarrow> (nat \<times> u64) option \<Rightarrow> nat option" where
  "arp_slot_from i [] oldest = map_option fst oldest"
| "arp_slot_from i (a # as) oldest =
     (if a_state a = ARP_FREE then Some i
      else if a_state a = ARP_RESOLVED \<and> (case oldest of None \<Rightarrow> True | Some (j, st) \<Rightarrow> a_stamp a < st)
      then arp_slot_from (Suc i) as (Some (i, a_stamp a))
      else arp_slot_from (Suc i) as oldest)"

definition arp_slot :: "arp_entry list \<Rightarrow> nat option" where
  "arp_slot cache = arp_slot_from 0 cache None"

section \<open>Operations\<close>

definition arp_pkt :: "u16 \<Rightarrow> bytes \<Rightarrow> u32 \<Rightarrow> bytes \<Rightarrow> u32 \<Rightarrow> bytes" where
  "arp_pkt op smac sip tmac tip =
     st16 (htons ARP_HW_ETHER) @ st16 (htons ETH_TYPE_IPV4) @ [6, 4] @ st16 (htons op)
     @ smac @ st32 sip @ tmac @ st32 tip"

abbreviation sizeof_arp_pkt :: nat where "sizeof_arp_pkt \<equiv> 28"

text \<open>\<open>netbuf_put\<close> cannot fail on a fresh buffer, and the code does not look.\<close>

definition arp_send :: "(nif_ref \<Rightarrow> bytes \<Rightarrow> int) \<Rightarrow> 'a arp_state_scheme \<Rightarrow> nif_ref \<Rightarrow> u16
    \<Rightarrow> bytes option \<Rightarrow> u32 \<Rightarrow> int \<times> 'a arp_state_scheme" where
  "arp_send drv s r op target_mac target_ip =
     (case take_netbuf s of
        (None, s1) \<Rightarrow> (- ENOMEM, s1)
      | (Some nb, s1) \<Rightarrow>
          let nif = get_nif s1 r;
              (at, nb1) = the (netbuf_put nb sizeof_arp_pkt);
              tmac = (case target_mac of Some m \<Rightarrow> m | None \<Rightarrow> replicate ETH_ALEN 0);
              nb2 = netbuf_store nb1 at (arp_pkt op (mac nif) (nif_ip nif) tmac target_ip)
          in ether_output drv s1 r nb2
               (if op = ARP_OP_REPLY then the target_mac else eth_broadcast) ETH_TYPE_ARP)"

definition arp_input :: "(nif_ref \<Rightarrow> bytes \<Rightarrow> int) \<Rightarrow> u64 \<Rightarrow> 'a arp_state_scheme \<Rightarrow> nif_ref \<Rightarrow> bytes
    \<Rightarrow> 'a arp_state_scheme" where
  "arp_input drv now s r data =
     (if length data < sizeof_arp_pkt then s
      else if htons (ld16 data 0) \<noteq> ARP_HW_ETHER \<or> htons (ld16 data 2) \<noteq> ETH_TYPE_IPV4
           \<or> data ! 4 \<noteq> 6 \<or> data ! 5 \<noteq> 4 then s
      else
        let sender = ld32 data 14;
            for_us = (nif_ip (get_nif s r) \<noteq> 0 \<and> ld32 data 24 = nif_ip (get_nif s r));
            m = take ETH_ALEN (drop 8 data);
            known = (if sender \<noteq> 0 then arp_find (arp_cache s) sender else None);
            slot = (if known = None \<and> sender \<noteq> 0 \<and> for_us then arp_slot (arp_cache s) else known);
            s1 = (case slot of None \<Rightarrow> s
                  | Some i \<Rightarrow>
                      let a = arp_cache s ! i;
                          s' = s\<lparr>arp_cache := (arp_cache s)[i := a\<lparr>a_ip := sender, a_nif := r,
                                  a_state := ARP_RESOLVED, a_stamp := now, a_mac := m,
                                  a_pending := None\<rparr>]\<rparr>
                      in (case a_pending a of None \<Rightarrow> s'
                          | Some flush \<Rightarrow> snd (ether_output drv s' r flush m ETH_TYPE_IPV4)))
        in if for_us \<and> htons (ld16 data 6) = ARP_OP_REQUEST
           then snd (arp_send drv s1 r ARP_OP_REPLY (Some m) sender) else s1)"

definition arp_output :: "(nif_ref \<Rightarrow> bytes \<Rightarrow> int) \<Rightarrow> u64 \<Rightarrow> 'a arp_state_scheme \<Rightarrow> nif_ref \<Rightarrow> netbuf
    \<Rightarrow> u32 \<Rightarrow> int \<times> 'a arp_state_scheme" where
  "arp_output drv now s r nb next_hop =
     (let nif = get_nif s r;
          subnet_bcast = (nif_ip nif AND netmask nif) OR NOT (netmask nif)
      in if next_hop = IP_BROADCAST \<or> (netmask nif \<noteq> 0 \<and> next_hop = subnet_bcast)
         then ether_output drv s r nb eth_broadcast ETH_TYPE_IPV4
         else case arp_find (arp_cache s) next_hop of
           Some i \<Rightarrow>
             let a = arp_cache s ! i
             in if a_state a = ARP_RESOLVED then ether_output drv s r nb (a_mac a) ETH_TYPE_IPV4
                else (0, s\<lparr>arp_cache := (arp_cache s)[i := a\<lparr>a_pending := Some nb\<rparr>]\<rparr>)
         | None \<Rightarrow>
             (case arp_slot (arp_cache s) of
                None \<Rightarrow> (- ENOBUFS, s)
              | Some i \<Rightarrow>
                  let a = arp_cache s ! i;
                      s1 = s\<lparr>arp_cache := (arp_cache s)[i := a\<lparr>a_ip := next_hop, a_nif := r,
                               a_state := ARP_PENDING, a_tries := 1, a_stamp := now,
                               a_pending := Some nb\<rparr>]\<rparr>
                  in (0, snd (arp_send drv s1 r ARP_OP_REQUEST None next_hop))))"

definition arp_tick_at :: "(nif_ref \<Rightarrow> bytes \<Rightarrow> int) \<Rightarrow> u64 \<Rightarrow> nat \<Rightarrow> 'a arp_state_scheme
    \<Rightarrow> 'a arp_state_scheme" where
  "arp_tick_at drv now i s =
     (let a = arp_cache s ! i
      in if a_state a = ARP_PENDING \<and> now - a_stamp a \<ge> ARP_RETRY_MS then
           if a_tries a \<ge> ARP_TRIES then
             s\<lparr>arp_cache := (arp_cache s)[i := a\<lparr>a_pending := None, a_state := ARP_FREE\<rparr>]\<rparr>
           else
             snd (arp_send drv
               (s\<lparr>arp_cache := (arp_cache s)[i := a\<lparr>a_tries := a_tries a + 1, a_stamp := now\<rparr>]\<rparr>)
               (a_nif a) ARP_OP_REQUEST None (a_ip a))
         else if a_state a = ARP_RESOLVED \<and> now - a_stamp a \<ge> ARP_TTL_MS then
           s\<lparr>arp_cache := (arp_cache s)[i := a\<lparr>a_state := ARP_FREE\<rparr>]\<rparr>
         else s)"

definition arp_tick :: "(nif_ref \<Rightarrow> bytes \<Rightarrow> int) \<Rightarrow> u64 \<Rightarrow> 'a arp_state_scheme \<Rightarrow> 'a arp_state_scheme" where
  "arp_tick drv now s = fold (arp_tick_at drv now) [0..<ARP_CACHE_SIZE] s"

section \<open>The invariant of the cache\<close>

text \<open>
  No two entries stand for the same address, and only an entry that is being looked up holds a
  packet back, after one to three requests.
\<close>

definition entry_ok :: "arp_entry \<Rightarrow> bool" where
  "entry_ok a \<longleftrightarrow> (a_pending a \<noteq> None \<longrightarrow> a_state a = ARP_PENDING)
     \<and> (a_state a = ARP_PENDING \<longrightarrow> 1 \<le> a_tries a \<and> a_tries a \<le> ARP_TRIES)"

definition arp_wf :: "arp_entry list \<Rightarrow> bool" where
  "arp_wf c \<longleftrightarrow> length c = ARP_CACHE_SIZE \<and> (\<forall>a \<in> set c. entry_ok a)
     \<and> (\<forall>i j. i < length c \<and> j < length c \<and> a_state (c ! i) \<noteq> ARP_FREE \<and> a_state (c ! j) \<noteq> ARP_FREE
          \<and> a_ip (c ! i) = a_ip (c ! j) \<longrightarrow> i = j)"

lemma arp_find_from_some:
  "arp_find_from k c ip = Some i \<Longrightarrow> k \<le> i \<and> i - k < length c \<and> a_state (c ! (i - k)) \<noteq> ARP_FREE
     \<and> a_ip (c ! (i - k)) = ip"
proof (induction c arbitrary: k)
  case (Cons a c)
  show ?case
  proof (cases "a_state a \<noteq> ARP_FREE \<and> a_ip a = ip")
    case False
    with Cons have "Suc k \<le> i \<and> i - Suc k < length c \<and> a_state (c ! (i - Suc k)) \<noteq> ARP_FREE
       \<and> a_ip (c ! (i - Suc k)) = ip" by auto
    then show ?thesis by (auto simp: nth_Cons' Suc_diff_le)
  qed (use Cons in auto)
qed simp

lemma arp_find_from_none:
  "arp_find_from k c ip = None \<Longrightarrow> a \<in> set c \<Longrightarrow> a_state a = ARP_FREE \<or> a_ip a \<noteq> ip"
  by (induction c arbitrary: k) (auto split: if_splits)

lemma arp_find_some:
  "arp_find c ip = Some i \<Longrightarrow> i < length c \<and> a_state (c ! i) \<noteq> ARP_FREE \<and> a_ip (c ! i) = ip"
  using arp_find_from_some [of 0 c ip i] by (simp add: arp_find_def)

lemma arp_find_none: "arp_find c ip = None \<Longrightarrow> i < length c \<Longrightarrow> a_state (c ! i) = ARP_FREE \<or> a_ip (c ! i) \<noteq> ip"
  using arp_find_from_none [of 0 c ip] by (simp add: arp_find_def)

text \<open>A slot to reuse is never one that is being looked up.\<close>

lemma arp_slot_from_some:
  assumes "arp_slot_from k c old = Some i"
    and "case old of None \<Rightarrow> True | Some (j, st) \<Rightarrow> j < k + length c \<and> P j"
    and "\<And>j. j < length c \<Longrightarrow> a_state (c ! j) \<noteq> ARP_PENDING \<Longrightarrow> P (k + j)"
  shows "i < k + length c \<and> P i"
  using assms
proof (induction c arbitrary: k old)
  case (Cons a c)
  have tail: "P (Suc k + j)" if "j < length c" "a_state (c ! j) \<noteq> ARP_PENDING" for j
    using Cons.prems(3) [of "Suc j"] that by simp
  show ?case
  proof (cases "a_state a = ARP_FREE")
    case True
    with Cons.prems(1) Cons.prems(3) [of 0] show ?thesis by simp
  next
    case False
    define old' where "old' = (if a_state a = ARP_RESOLVED \<and> (case old of None \<Rightarrow> True | Some (j, st) \<Rightarrow> a_stamp a < st)
      then Some (k, a_stamp a) else old)"
    have "arp_slot_from (Suc k) c old' = Some i"
      using Cons.prems(1) False by (auto simp: old'_def split: if_splits)
    moreover have "case old' of None \<Rightarrow> True | Some (j, st) \<Rightarrow> j < Suc k + length c \<and> P j"
      using Cons.prems(2) Cons.prems(3) [of 0] by (auto simp: old'_def split: option.splits)
    ultimately have "i < Suc k + length c \<and> P i" using tail by (rule Cons.IH)
    then show ?thesis by simp
  qed
qed (auto split: option.splits)

lemma arp_slot_some: "arp_slot c = Some i \<Longrightarrow> i < length c \<and> a_state (c ! i) \<noteq> ARP_PENDING"
  using arp_slot_from_some [of 0 c None i "\<lambda>j. a_state (c ! j) \<noteq> ARP_PENDING"] by (simp add: arp_slot_def)

lemma arp_wf_update:
  assumes "arp_wf c" and "i < length c" and "entry_ok a"
    and "\<And>j. a_state a \<noteq> ARP_FREE \<Longrightarrow> j < length c \<Longrightarrow> j \<noteq> i \<Longrightarrow> a_state (c ! j) = ARP_FREE \<or> a_ip (c ! j) \<noteq> a_ip a"
  shows "arp_wf (c[i := a])"
proof -
  have "\<forall>b \<in> set (c[i := a]). entry_ok b"
    using assms(1,3) set_update_subset_insert [of c i a] by (auto simp: arp_wf_def)
  moreover have "j = k" if jk: "j < length c" "k < length c" "a_state (c[i := a] ! j) \<noteq> ARP_FREE"
      "a_state (c[i := a] ! k) \<noteq> ARP_FREE" "a_ip (c[i := a] ! j) = a_ip (c[i := a] ! k)" for j k
  proof (cases "j = i \<or> k = i")
    case True
    with jk assms(2) assms(4) [of j] assms(4) [of k] show ?thesis by (auto simp: nth_list_update split: if_splits)
  next
    case False
    with jk assms(1) show ?thesis by (simp add: arp_wf_def)
  qed
  ultimately show ?thesis using assms(1) by (simp add: arp_wf_def)
qed

lemma set_nif_arp [simp]: "arp_cache (set_nif s r n) = arp_cache s"
  by (simp add: set_nif_def split: nif_ref.split)

lemma ether_output_arp [simp]: "arp_cache (snd (ether_output drv s r nb dst ty)) = arp_cache s"
  by (simp add: ether_output_def Let_def split: option.split)

lemma take_netbuf_arp: "take_netbuf s = (nb, s') \<Longrightarrow> arp_cache s' = arp_cache s"
  by (auto simp: take_netbuf_def split: list.splits)

lemma arp_send_arp [simp]: "arp_cache (snd (arp_send drv s r op tm tip)) = arp_cache s"
  using take_netbuf_arp [of s]
  by (auto simp: arp_send_def Let_def split: prod.split option.split)

lemma entry_okI: "entry_ok (c ! i)" if "arp_wf c" "i < length c"
  using that by (auto simp: arp_wf_def)

lemma arp_input_wf:
  assumes "arp_wf (arp_cache s)"
  shows "arp_wf (arp_cache (arp_input drv now s r data))"
proof -
  define sender where "sender = ld32 data 14"
  define for_us where "for_us = (nif_ip (get_nif s r) \<noteq> 0 \<and> ld32 data 24 = nif_ip (get_nif s r))"
  define known where "known = (if sender \<noteq> 0 then arp_find (arp_cache s) sender else None)"
  define slot where "slot = (if known = None \<and> sender \<noteq> 0 \<and> for_us then arp_slot (arp_cache s) else known)"
  define m where "m = take ETH_ALEN (drop 8 data)"
  let ?a = "\<lambda>i. (arp_cache s ! i)\<lparr>a_ip := sender, a_nif := r, a_state := ARP_RESOLVED, a_stamp := now,
      a_mac := m, a_pending := None\<rparr>"
  have new: "arp_wf ((arp_cache s)[i := ?a i])" if "slot = Some i" for i
  proof (rule arp_wf_update [OF assms])
    have i: "i < length (arp_cache s) \<and> (\<forall>j < length (arp_cache s). j \<noteq> i \<longrightarrow>
        a_state (arp_cache s ! j) = ARP_FREE \<or> a_ip (arp_cache s ! j) \<noteq> sender)"
    proof (cases "known = None")
      case True
      with that have "arp_slot (arp_cache s) = Some i" "arp_find (arp_cache s) sender = None"
        by (auto simp: slot_def known_def split: if_splits)
      then show ?thesis using arp_slot_some arp_find_none by blast
    next
      case False
      with that have "arp_find (arp_cache s) sender = Some i"
        by (auto simp: slot_def known_def split: if_splits)
      from arp_find_some [OF this] assms show ?thesis by (auto simp: arp_wf_def)
    qed
    show "i < length (arp_cache s)" using i by simp
    show "entry_ok (?a i)" by (simp add: entry_ok_def)
    show "a_state (arp_cache s ! j) = ARP_FREE \<or> a_ip (arp_cache s ! j) \<noteq> a_ip (?a i)"
      if "j < length (arp_cache s)" "j \<noteq> i" for j
      using that i by simp
  qed
  let ?s1 = "case slot of None \<Rightarrow> s | Some i \<Rightarrow>
      let a = arp_cache s ! i; s' = s\<lparr>arp_cache := (arp_cache s)[i := ?a i]\<rparr>
      in case a_pending a of None \<Rightarrow> s' | Some flush \<Rightarrow> snd (ether_output drv s' r flush m 0x0800)"
  have "arp_wf (arp_cache ?s1)"
    using new assms by (simp add: Let_def split: option.split)
  then show ?thesis
    unfolding arp_input_def Let_def sender_def [symmetric] for_us_def [symmetric] m_def [symmetric]
      known_def [symmetric] slot_def [symmetric]
    using assms by (simp add: Let_def)
qed

lemma arp_output_wf:
  assumes "arp_wf (arp_cache s)"
  shows "arp_wf (arp_cache (snd (arp_output drv now s r nb hop)))"
proof -
  have known: "arp_wf ((arp_cache s)[i := (arp_cache s ! i)\<lparr>a_pending := Some nb\<rparr>])"
    if "arp_find (arp_cache s) hop = Some i" "a_state (arp_cache s ! i) \<noteq> ARP_RESOLVED" for i
  proof -
    have i: "i < length (arp_cache s)" "a_state (arp_cache s ! i) = ARP_PENDING"
      using arp_find_some [OF that(1)] that(2) by (auto intro: arp_slot_state.exhaust)
    with entry_okI [OF assms i(1)] show ?thesis
      using assms by (intro arp_wf_update) (auto simp: entry_ok_def arp_wf_def)
  qed
  have fresh: "arp_wf ((arp_cache s)[i := (arp_cache s ! i)\<lparr>a_ip := hop, a_nif := r, a_state := ARP_PENDING,
      a_tries := 1, a_stamp := now, a_pending := Some nb\<rparr>])"
    if "arp_find (arp_cache s) hop = None" "arp_slot (arp_cache s) = Some i" for i
    using arp_slot_some [OF that(2)] arp_find_none [OF that(1)] assms
    by (intro arp_wf_update) (auto simp: entry_ok_def)
  show ?thesis
    using known fresh assms by (auto simp: arp_output_def Let_def split: option.split)
qed

lemma arp_tick_at_wf:
  assumes "arp_wf (arp_cache s)" and "i < ARP_CACHE_SIZE"
  shows "arp_wf (arp_cache (arp_tick_at drv now i s))"
proof -
  let ?c = "arp_cache s" and ?a = "arp_cache s ! i"
  have i: "i < length ?c" using assms by (simp add: arp_wf_def)
  have ok: "entry_ok ?a" using entry_okI [OF assms(1) i] .
  have same: "a_state (?c ! j) = ARP_FREE \<or> a_ip (?c ! j) \<noteq> a_ip ?a"
    if "a_state ?a \<noteq> ARP_FREE" "j < length ?c" "j \<noteq> i" for j
    using that i assms(1) by (auto simp: arp_wf_def)
  have "arp_wf (?c[i := ?a\<lparr>a_pending := None, a_state := ARP_FREE\<rparr>])"
    using assms(1) i by (intro arp_wf_update) (auto simp: entry_ok_def)
  moreover have "arp_wf (?c[i := ?a\<lparr>a_state := ARP_FREE\<rparr>])" if "a_state ?a = ARP_RESOLVED"
    using assms(1) i ok that by (intro arp_wf_update) (auto simp: entry_ok_def)
  moreover have "arp_wf (?c[i := ?a\<lparr>a_tries := a_tries ?a + 1, a_stamp := now\<rparr>])"
    if p: "a_state ?a = ARP_PENDING" "\<not> ARP_TRIES \<le> a_tries ?a"
  proof (rule arp_wf_update [OF assms(1) i])
    have "a_tries ?a < 3" "1 \<le> a_tries ?a" using p ok by (auto simp: entry_ok_def)
    then have "1 \<le> a_tries ?a + 1" "a_tries ?a + 1 \<le> 3"
      by (simp_all add: word_le_nat_alt word_less_nat_alt unat_plus_small)
    then show "entry_ok (?a\<lparr>a_tries := a_tries ?a + 1, a_stamp := now\<rparr>)"
      using ok p by (simp add: entry_ok_def)
  qed (use same p in auto)
  ultimately show ?thesis
    using assms(1) by (simp add: arp_tick_at_def Let_def)
qed

lemma arp_tick_wf:
  assumes "arp_wf (arp_cache s)"
  shows "arp_wf (arp_cache (arp_tick drv now s))"
proof -
  have "arp_wf (arp_cache (fold (arp_tick_at drv now) is s))" if "set is \<subseteq> {..<ARP_CACHE_SIZE}" for "is"
    using that assms by (induction "is" arbitrary: s) (auto simp: arp_tick_at_wf)
  from this [of "[0..<ARP_CACHE_SIZE]"] show ?thesis
    unfolding arp_tick_def by (simp add: atLeast0LessThan del: upt_Suc)
qed

section \<open>Histories\<close>

text \<open>Any sequence of received packets, packets to send and ticks, at any times.\<close>

inductive arp_reach :: "(nif_ref \<Rightarrow> bytes \<Rightarrow> int) \<Rightarrow> arp_state \<Rightarrow> bool" for drv where
  boot: "arp_cache s = replicate ARP_CACHE_SIZE \<lparr>a_ip = 0, a_mac = replicate 6 0, a_state = ARP_FREE,
      a_tries = 0, a_stamp = 0, a_nif = Lo, a_pending = None\<rparr> \<Longrightarrow> arp_reach drv s"
| recv: "arp_reach drv s \<Longrightarrow> arp_reach drv (arp_input drv now s r data)"
| send: "arp_reach drv s \<Longrightarrow> arp_reach drv (snd (arp_output drv now s r nb hop))"
| tick: "arp_reach drv s \<Longrightarrow> arp_reach drv (arp_tick drv now s)"

lemma arp_reach_wf: "arp_reach drv s \<Longrightarrow> arp_wf (arp_cache s)"
proof (induction rule: arp_reach.induct)
  case (boot s)
  then show ?case by (auto simp: arp_wf_def entry_ok_def)
qed (simp_all add: arp_input_wf arp_output_wf arp_tick_wf)

text \<open>C29. Whatever packets arrive and are sent, no two cache entries stand for the same address,
  a packet is held back only by an entry that is still being looked up, and the entry a lookup
  reuses holds no packet, so that making room never drops one.\<close>

theorem arp_cache_sound:
  assumes "arp_reach drv s"
  shows "(\<forall>i j. i < ARP_CACHE_SIZE \<and> j < ARP_CACHE_SIZE \<and> i \<noteq> j
            \<and> a_state (arp_cache s ! i) \<noteq> ARP_FREE \<and> a_state (arp_cache s ! j) \<noteq> ARP_FREE
            \<longrightarrow> a_ip (arp_cache s ! i) \<noteq> a_ip (arp_cache s ! j))
    \<and> (\<forall>i. arp_slot (arp_cache s) = Some i \<longrightarrow> i < ARP_CACHE_SIZE \<and> a_pending (arp_cache s ! i) = None)"
proof -
  have wf: "arp_wf (arp_cache s)" using arp_reach_wf [OF assms] .
  have "a_pending (arp_cache s ! i) = None \<and> i < ARP_CACHE_SIZE" if "arp_slot (arp_cache s) = Some i" for i
    using arp_slot_some [OF that] entry_okI [OF wf] wf by (auto simp: entry_ok_def arp_wf_def)
  with wf show ?thesis by (auto simp: arp_wf_def)
qed

definition arp_boot :: arp_state where
  "arp_boot = \<lparr>netifs = [blank_netif\<lparr>nif_ip := 0x0100000A, mac := [2, 0, 0, 0, 0, 1]\<rparr>],
     netif_lo = blank_netif, tx_log = [], nb_mem = [],
     arp_cache = replicate ARP_CACHE_SIZE \<lparr>a_ip = 0, a_mac = replicate 6 0, a_state = ARP_FREE,
       a_tries = 0, a_stamp = 0, a_nif = Lo, a_pending = None\<rparr>\<rparr>"

lemma arp_boot_reach: "arp_reach drv arp_boot"
  by (rule arp_reach.boot) (simp add: arp_boot_def)

lemma arp_boot_slot: "arp_slot (arp_cache arp_boot) = Some 0"
  by code_simp

theorem arp_cache_sound_witness:
  "arp_reach (\<lambda>r f. 0) arp_boot \<and> arp_slot (arp_cache arp_boot) = Some 0
   \<and> a_pending (arp_cache arp_boot ! 0) = None"
  using arp_cache_sound [OF arp_boot_reach [of "\<lambda>r f. 0"]] arp_boot_reach arp_boot_slot by auto

text \<open>The packet held back for an address goes out to the station that answers for it.\<close>

lemma arp_find_update_other:
  assumes "arp_wf c" and "arp_find c ip = Some i" and "a_ip a = ip" and "a_state a \<noteq> ARP_FREE"
  shows "arp_find (c[i := a]) ip = Some i"
proof -
  note i = arp_find_some [OF assms(2)]
  have wf: "k = i" if "k < length c" "a_state (c[i := a] ! k) \<noteq> ARP_FREE" "a_ip (c[i := a] ! k) = ip" for k
    using that i assms(1,3) by (cases "k = i") (auto simp: arp_wf_def)
  show ?thesis
  proof (cases "arp_find (c[i := a]) ip")
    case None
    from arp_find_none [OF None, of i] i assms(3,4) show ?thesis by simp
  next
    case (Some k)
    from arp_find_some [OF Some] wf [of k] Some show ?thesis by simp
  qed
qed

text \<open>C30. While an address is looked up only the newest packet for it is kept; when a valid reply
  of that address arrives, exactly that packet is transmitted, framed for the station that
  answered, and later packets for the address go straight out to it.\<close>

theorem arp_reply_flushes_pending:
  assumes "arp_reach drv s" and "arp_find (arp_cache s) hop = Some i"
    and "a_pending (arp_cache s ! i) = Some nb" and "netbuf_wf nb" and "ETH_HLEN \<le> nb_off nb"
    and "hop \<noteq> 0" and "length m = ETH_ALEN" and "length (mac (get_nif s r)) = ETH_ALEN"
    and "length tm = ETH_ALEN" and "data = arp_pkt ARP_OP_REPLY m hop tm tip"
  shows "tx_log (arp_input drv now s r data) =
      tx_log s @ [(r, m @ mac (get_nif s r) @ st16 (htons ETH_TYPE_IPV4) @ netbuf_data nb)]
    \<and> arp_find (arp_cache (arp_input drv now s r data)) hop = Some i
    \<and> a_state (arp_cache (arp_input drv now s r data) ! i) = ARP_RESOLVED
    \<and> a_mac (arp_cache (arp_input drv now s r data) ! i) = m
    \<and> a_pending (arp_cache (arp_input drv now s r data) ! i) = None"
proof -
  have len: "length data = sizeof_arp_pkt" using assms(7,9,10) by (simp add: arp_pkt_def)
  have f: "htons (ld16 data 0) = 1" "htons (ld16 data 2) = 0x0800" "data ! 4 = 6" "data ! 5 = 4"
    "htons (ld16 data 6) = 2" "take ETH_ALEN (drop 8 data) = m" "ld32 data 14 = hop"
    using assms(7) by (simp_all add: assms(10) arp_pkt_def wire_simps)
  let ?a = "(arp_cache s ! i)\<lparr>a_ip := hop, a_nif := r, a_state := ARP_RESOLVED, a_stamp := now,
      a_mac := m, a_pending := None\<rparr>"
  let ?s = "s\<lparr>arp_cache := (arp_cache s)[i := ?a]\<rparr>"
  have in_eq: "arp_input drv now s r data = snd (ether_output drv ?s r nb m 0x0800)"
    using len f assms(2,3,6) by (simp add: arp_input_def Let_def)
  have i: "i < length (arp_cache s)" using arp_find_some [OF assms(2)] by simp
  have "get_nif ?s r = get_nif s r" by (simp add: get_nif_def split: nif_ref.split)
  then have "tx_log (snd (ether_output drv ?s r nb m 0x0800)) =
      tx_log s @ [(r, m @ mac (get_nif s r) @ st16 (htons 0x0800) @ netbuf_data nb)]"
    using ether_output_frame [OF assms(4,5,7), of ?s r drv "0x0800"] assms(8)
    by (cases "ether_output drv ?s r nb m 0x0800") simp
  moreover have "arp_find ((arp_cache s)[i := ?a]) hop = Some i"
    using arp_find_update_other [OF arp_reach_wf [OF assms(1)] assms(2), of ?a] by simp
  ultimately show ?thesis using i by (simp add: in_eq)
qed

definition demo_nb :: netbuf where
  "demo_nb = \<lparr>nb_off = NETBUF_HEADROOM, nb_len = 0, nb_buf = replicate NETBUF_SIZE 0\<rparr>"

definition arp_waiting :: arp_state where
  "arp_waiting = snd (arp_output (\<lambda>r f. 0) 0 arp_boot (Eth 0) demo_nb 5)"

lemma arp_waiting_facts:
  "arp_find (arp_cache arp_waiting) 5 = Some 0" "a_pending (arp_cache arp_waiting ! 0) = Some demo_nb"
  "mac (get_nif arp_waiting (Eth 0)) = [2, 0, 0, 0, 0, 1]" "tx_log arp_waiting = []"
proof -
  have none: "arp_find (arp_cache arp_boot) 5 = None" by code_simp
  have send: "arp_send drv t r op tm tip = (- ENOMEM, t)" if "nb_mem t = []" for drv r op tm tip and t :: arp_state
    using that by (simp add: arp_send_def take_netbuf_def)
  have w: "arp_waiting = arp_boot\<lparr>arp_cache := (arp_cache arp_boot)[0 := (arp_cache arp_boot ! 0)\<lparr>a_ip := 5,
      a_nif := Eth 0, a_state := ARP_PENDING, a_tries := 1, a_stamp := 0, a_pending := Some demo_nb\<rparr>]\<rparr>"
    unfolding arp_waiting_def arp_output_def Let_def none arp_boot_slot
    by (simp add: send arp_boot_def get_nif_def blank_netif_def)
  show "arp_find (arp_cache arp_waiting) 5 = Some 0" "a_pending (arp_cache arp_waiting ! 0) = Some demo_nb"
    "mac (get_nif arp_waiting (Eth 0)) = [2, 0, 0, 0, 0, 1]" "tx_log arp_waiting = []"
    by (simp_all add: w arp_boot_def arp_find_def get_nif_def numeral_eq_Suc)
qed

theorem arp_reply_flushes_pending_witness:
  "tx_log (arp_input (\<lambda>r f. 0) 1 arp_waiting (Eth 0) (arp_pkt 2 [2, 0, 0, 0, 0, 9] 5 [2, 0, 0, 0, 0, 1] 0)) =
     [(Eth 0, [2, 0, 0, 0, 0, 9, 2, 0, 0, 0, 0, 1] @ st16 (htons ETH_TYPE_IPV4))]"
proof -
  have r: "arp_reach (\<lambda>r f. 0) arp_waiting"
    unfolding arp_waiting_def by (rule arp_reach.send [OF arp_boot_reach])
  have nb: "netbuf_wf demo_nb" "ETH_HLEN \<le> nb_off demo_nb" "netbuf_data demo_nb = []"
    by (simp_all add: netbuf_wf_def demo_nb_def netbuf_data_def)
  from arp_reply_flushes_pending [OF r arp_waiting_facts(1,2) nb(1,2) _ _ _ _ refl,
      where m = "[2, 0, 0, 0, 0, 9]" and r = "Eth 0" and tm = "[2, 0, 0, 0, 0, 1]" and tip = 0 and now = 1]
  show ?thesis by (simp add: arp_waiting_facts nb(3))
qed

end
