(* ===== verification/Ipfrag.thy ===== *)
theory Ipfrag
  imports Prelude "HOL-Library.Sublist"
begin

text \<open>
  Putting fragmented IPv4 packets back together, \<open>kernel/src/net/ipv4_frag.c\<close>: four slots,
  each with a buffer, a bitmap of the 8-byte blocks that have arrived and their number. The
  memory of a new buffer is uninitialised; what \<open>kmalloc\<close> returns is an argument.
\<close>

section \<open>State\<close>

abbreviation IP_HLEN :: nat where "IP_HLEN \<equiv> 20"
abbreviation IP_MAX_PAYLOAD :: nat where "IP_MAX_PAYLOAD \<equiv> 65515"
abbreviation (input) IP_FLAG_MF :: u16 where "IP_FLAG_MF \<equiv> 0x2000"
abbreviation (input) IP_FRAG_MASK :: u16 where "IP_FRAG_MASK \<equiv> 0x1FFF"
abbreviation (input) IP_FRAG_SLOTS :: nat where "IP_FRAG_SLOTS \<equiv> 4"
abbreviation (input) IP_FRAG_TIMEOUT_MS :: u64 where "IP_FRAG_TIMEOUT_MS \<equiv> 5000"

text \<open>The header as it lies in memory: multi-byte fields in network order.\<close>

record ipv4_hdr =
  ver_ihl :: u8
  tos :: u8
  total_len :: u16
  ip_id :: u16
  ip_frag_off :: u16
  ttl :: u8
  ip_proto :: u8
  ip_checksum :: u16
  ip_src :: u32
  ip_dst :: u32

record ip_frag =
  f_used :: bool
  f_src :: u32
  f_dst :: u32
  f_id :: u16
  f_proto :: u8
  f_started :: u64
  f_total :: nat
  f_blocks :: nat
  f_data :: bytes
  f_have :: bytes

abbreviation FRAG_BLOCKS :: nat where "FRAG_BLOCKS \<equiv> 8190"
abbreviation FRAG_HAVE_BYTES :: nat where "FRAG_HAVE_BYTES \<equiv> 1024"

section \<open>Operations\<close>

definition frag_free :: "ip_frag \<Rightarrow> ip_frag" where
  "frag_free f = f\<lparr>f_data := [], f_used := False\<rparr>"

definition frag_match :: "ip_frag \<Rightarrow> ipv4_hdr \<Rightarrow> bool" where
  "frag_match f ip \<longleftrightarrow> f_src f = ip_src ip \<and> f_dst f = ip_dst ip \<and> f_id f = ip_id ip \<and> f_proto f = ip_proto ip"

text \<open>The scan over the slots: a matching one, or the first free one and the oldest one.\<close>

datatype frag_scan = Found nat | Scanned "nat option" "(nat \<times> u64) option"

fun frag_scan_from :: "nat \<Rightarrow> ip_frag list \<Rightarrow> ipv4_hdr \<Rightarrow> nat option \<Rightarrow> (nat \<times> u64) option \<Rightarrow> frag_scan" where
  "frag_scan_from i [] ip free oldest = Scanned free oldest"
| "frag_scan_from i (f # fs) ip free oldest =
     (if \<not> f_used f then
        frag_scan_from (Suc i) fs ip (if free = None then Some i else free) oldest
      else if frag_match f ip then Found i
      else if (case oldest of None \<Rightarrow> True | Some (j, st) \<Rightarrow> f_started f < st)
      then frag_scan_from (Suc i) fs ip free (Some (i, f_started f))
      else frag_scan_from (Suc i) fs ip free oldest)"

record frag_table =
  frags :: "ip_frag list"
  frags_dropped :: u64

definition frag_slot :: "frag_table \<Rightarrow> ipv4_hdr \<Rightarrow> u64 \<Rightarrow> bytes option \<Rightarrow> nat option \<times> frag_table" where
  "frag_slot t ip now mem =
     (case frag_scan_from 0 (frags t) ip None None of
        Found i \<Rightarrow> (Some i, t)
      | Scanned free oldest \<Rightarrow>
          let (i, t1) = (case free of Some i \<Rightarrow> (i, t)
                | None \<Rightarrow>
                    let j = fst (the oldest)
                    in (j, t\<lparr>frags_dropped := frags_dropped t + 1,
                             frags := (frags t)[j := frag_free (frags t ! j)]\<rparr>))
          in (case mem of None \<Rightarrow> (None, t1)
              | Some junk \<Rightarrow>
                  (Some i, t1\<lparr>frags := (frags t1)[i := \<lparr>f_used = True, f_src = ip_src ip, f_dst = ip_dst ip,
                      f_id = ip_id ip, f_proto = ip_proto ip, f_started = now, f_total = 0, f_blocks = 0,
                      f_data = junk, f_have = replicate FRAG_HAVE_BYTES 0\<rparr>]\<rparr>)))"

definition have_bit :: "bytes \<Rightarrow> nat \<Rightarrow> bool" where
  "have_bit h b = (h ! (b div 8) AND push_bit (b mod 8) 1 \<noteq> 0)"

definition frag_mark :: "nat \<Rightarrow> ip_frag \<Rightarrow> ip_frag" where
  "frag_mark b f =
     (if \<not> have_bit (f_have f) b then
        f\<lparr>f_have := (f_have f)[b div 8 := f_have f ! (b div 8) OR push_bit (b mod 8) 1],
          f_blocks := f_blocks f + 1\<rparr>
      else f)"

text \<open>What a fragment does to its slot: the copy, the marks, the total.\<close>

definition frag_absorb :: "ip_frag \<Rightarrow> nat \<Rightarrow> bool \<Rightarrow> bytes \<Rightarrow> ip_frag" where
  "frag_absorb f offset mf payload =
     (let len = length payload;
          f1 = f\<lparr>f_data := blit (f_data f) offset payload\<rparr>;
          f2 = fold frag_mark [offset div 8..<(offset + len + 7) div 8] f1
      in if \<not> mf then f2\<lparr>f_total := offset + len\<rparr> else f2)"

definition frag_offset :: "ipv4_hdr \<Rightarrow> nat" where
  "frag_offset ip = unat (htons (ip_frag_off ip) AND IP_FRAG_MASK) * 8"

definition frag_more :: "ipv4_hdr \<Rightarrow> bool" where
  "frag_more ip \<longleftrightarrow> htons (ip_frag_off ip) AND IP_FLAG_MF \<noteq> 0"

definition ipv4_reassemble :: "frag_table \<Rightarrow> ipv4_hdr \<Rightarrow> bytes \<Rightarrow> u64 \<Rightarrow> bytes option
    \<Rightarrow> bytes option \<times> frag_table" where
  "ipv4_reassemble t ip payload now mem =
     (let offset = frag_offset ip;
          mf = frag_more ip;
          len = length payload
      in if offset + len > IP_MAX_PAYLOAD \<or> (mf \<and> (len mod 8 \<noteq> 0 \<or> len = 0)) then (None, t)
         else case frag_slot t ip now mem of
           (None, t1) \<Rightarrow> (None, t1)
         | (Some i, t1) \<Rightarrow>
             let f = frag_absorb (frags t1 ! i) offset mf payload
             in if f_total f \<noteq> 0 \<and> f_blocks f = (f_total f + 7) div 8
                then (Some (take (f_total f) (f_data f)),
                      t1\<lparr>frags := (frags t1)[i := f\<lparr>f_data := [], f_used := False\<rparr>]\<rparr>)
                else (None, t1\<lparr>frags := (frags t1)[i := f]\<rparr>))"

definition frag_expired :: "u64 \<Rightarrow> ip_frag \<Rightarrow> bool" where
  "frag_expired now f \<longleftrightarrow> f_used f \<and> now - f_started f \<ge> IP_FRAG_TIMEOUT_MS"

definition ipv4_frag_tick :: "frag_table \<Rightarrow> u64 \<Rightarrow> frag_table" where
  "ipv4_frag_tick t now =
     t\<lparr>frags := map (\<lambda>f. if frag_expired now f then frag_free f else f) (frags t),
       frags_dropped := frags_dropped t + of_nat (length (filter (frag_expired now) (frags t)))\<rparr>"

section \<open>Marking blocks\<close>

definition have_set :: "ip_frag \<Rightarrow> nat set" where
  "have_set f = {b. b < 8 * FRAG_HAVE_BYTES \<and> have_bit (f_have f) b}"

lemma finite_have_set [simp]: "finite (have_set f)"
  by (simp add: have_set_def)

lemma have_bit_bit: "have_bit h b = bit (h ! (b div 8)) (b mod 8)"
  unfolding have_bit_def by (simp add: bit_iff_and_push_bit_not_eq_0)

lemma have_bit_or:
  assumes "length h = FRAG_HAVE_BYTES" and "b < 8 * FRAG_HAVE_BYTES"
  shows "have_bit (h[b div 8 := h ! (b div 8) OR push_bit (b mod 8) 1]) c = (c = b \<or> have_bit h c)"
proof (cases "c div 8 = b div 8")
  case True
  have "c = b \<longleftrightarrow> c mod 8 = b mod 8" using True by (metis div_mult_mod_eq)
  moreover have "b div 8 < FRAG_HAVE_BYTES" using assms(2) by (simp add: less_mult_imp_div_less)
  ultimately show ?thesis using True assms(1) by (auto simp: have_bit_bit bit_simps)
next
  case False
  then show ?thesis by (auto simp: have_bit_bit)
qed

text \<open>The bitmap has its length, the counter counts its bits, the buffer has its size.\<close>

definition frag_wf :: "ip_frag \<Rightarrow> bool" where
  "frag_wf f \<longleftrightarrow> length (f_have f) = FRAG_HAVE_BYTES \<and> f_blocks f = card (have_set f)
     \<and> length (f_data f) = IP_MAX_PAYLOAD"

lemma frag_mark_spec:
  assumes "frag_wf f" and "b < 8 * FRAG_HAVE_BYTES"
  shows "frag_wf (frag_mark b f) \<and> have_set (frag_mark b f) = insert b (have_set f)
    \<and> f_data (frag_mark b f) = f_data f \<and> f_total (frag_mark b f) = f_total f"
proof (cases "have_bit (f_have f) b")
  case True
  then have "b \<in> have_set f" using assms(2) by (simp add: have_set_def)
  with True assms(1) show ?thesis by (simp add: frag_mark_def insert_absorb)
next
  case False
  have "have_set (frag_mark b f) = insert b (have_set f)"
    using assms False have_bit_or [of "f_have f" b] by (auto simp: frag_mark_def have_set_def frag_wf_def)
  moreover have "b \<notin> have_set f" using False by (simp add: have_set_def)
  ultimately show ?thesis using assms(1) False by (simp add: frag_mark_def frag_wf_def)
qed

lemma frag_mark_run:
  assumes "frag_wf f" and "\<forall>b \<in> set bs. b < 8 * FRAG_HAVE_BYTES"
  shows "frag_wf (fold frag_mark bs f) \<and> have_set (fold frag_mark bs f) = have_set f \<union> set bs
    \<and> f_data (fold frag_mark bs f) = f_data f \<and> f_total (fold frag_mark bs f) = f_total f"
  using assms by (induction bs arbitrary: f) (auto simp: frag_mark_spec)

lemma frag_key_mark:
  "f_used (fold frag_mark bs f) = f_used f \<and> frag_match (fold frag_mark bs f) ip = frag_match f ip"
  by (induction bs arbitrary: f) (auto simp: frag_mark_def frag_match_def)

section \<open>Pieces of one packet\<close>

text \<open>
  \<open>piece P off mf bs\<close>: \<open>bs\<close> is what \<open>P\<close> has at \<open>off\<close>, and it is marked as the last one
  exactly when it ends where \<open>P\<close> ends.
\<close>

definition piece :: "bytes \<Rightarrow> nat \<Rightarrow> bool \<Rightarrow> bytes \<Rightarrow> bool" where
  "piece P off mf bs \<longleftrightarrow> off mod 8 = 0 \<and> off + length bs \<le> length P \<and> bs = take (length bs) (drop off P)
     \<and> (mf \<longrightarrow> length bs mod 8 = 0 \<and> bs \<noteq> []) \<and> (\<not> mf \<longrightarrow> off + length bs = length P)"

definition piece_blocks :: "nat \<Rightarrow> bytes \<Rightarrow> nat set" where
  "piece_blocks off bs = {off div 8..<(off + length bs + 7) div 8}"

definition slot_ok :: "bytes \<Rightarrow> ip_frag \<Rightarrow> bool" where
  "slot_ok P f \<longleftrightarrow> frag_wf f \<and> have_set f \<subseteq> {..<(length P + 7) div 8}
     \<and> (\<forall>p < length P. p div 8 \<in> have_set f \<longrightarrow> f_data f ! p = P ! p)
     \<and> (f_total f = 0 \<or> f_total f = length P)"

lemma piece_nth: "piece P off mf bs \<Longrightarrow> k < length bs \<Longrightarrow> bs ! k = P ! (off + k)"
  unfolding piece_def by (metis nth_drop nth_take add_leE)

lemma piece_covers:
  assumes "piece P off mf bs" and "p < length P" and "p div 8 \<in> piece_blocks off bs"
  shows "off \<le> p \<and> p < off + length bs"
proof -
  obtain k where o: "off = 8 * k" using assms(1) unfolding piece_def by (metis mod_0_imp_dvd dvd_def)
  have d: "k \<le> p div 8" "p div 8 < (off + length bs + 7) div 8"
    using assms(3) o by (auto simp: piece_blocks_def)
  have "8 * k \<le> 8 * (p div 8)" "8 * (p div 8) \<le> p" using d(1) by simp_all
  then have "off \<le> p" using o by linarith
  moreover have "p < off + length bs"
  proof (cases mf)
    case True
    then obtain l where l: "length bs = 8 * l" using assms(1) unfolding piece_def by (metis mod_0_imp_dvd dvd_def)
    then have "(off + length bs + 7) div 8 = k + l" using o by simp
    then have "p div 8 < k + l" using d(2) by simp
    then have "p < (k + l) * 8" by (simp add: div_less_iff_less_mult)
    then show ?thesis using o l by (simp add: algebra_simps)
  next
    case False
    then show ?thesis using assms(1,2) by (simp add: piece_def)
  qed
  ultimately show ?thesis ..
qed

lemma frag_absorb_ok:
  assumes "slot_ok P f" and "piece P off mf bs" and "length P \<le> IP_MAX_PAYLOAD"
  shows "slot_ok P (frag_absorb f off mf bs)"
    and "have_set (frag_absorb f off mf bs) = have_set f \<union> piece_blocks off bs"
    and "f_total (frag_absorb f off mf bs) = (if mf then f_total f else length P)"
proof -
  let ?f1 = "f\<lparr>f_data := blit (f_data f) off bs\<rparr>"
  define f2 where "f2 = fold frag_mark [off div 8..<(off + length bs + 7) div 8] ?f1"
  have len: "length (f_data f) = IP_MAX_PAYLOAD" "off + length bs \<le> length P"
    using assms(1,2) by (auto simp: slot_ok_def frag_wf_def piece_def)
  then have fits: "off + length bs \<le> length (f_data f)" using assms(3) by simp
  have wf1: "frag_wf ?f1" using assms(1) fits by (simp add: slot_ok_def frag_wf_def have_set_def)
  have "\<forall>b \<in> set [off div 8..<(off + length bs + 7) div 8]. b < 8 * FRAG_HAVE_BYTES"
    using len assms(3) by auto
  note m = frag_mark_run [OF wf1 this, folded f2_def]
  have h: "have_set f2 = have_set f \<union> piece_blocks off bs"
    using m by (simp add: piece_blocks_def have_set_def)
  have sub: "piece_blocks off bs \<subseteq> {..<(length P + 7) div 8}"
    using len(2) by (auto simp: piece_blocks_def intro: less_le_trans div_le_mono)
  have data: "f_data f2 ! p = P ! p" if p: "p < length P" "p div 8 \<in> have_set f2" for p
  proof (cases "off \<le> p \<and> p < off + length bs")
    case True
    then have "f_data f2 ! p = bs ! (p - off)" using m fits p(1) len assms(3) by (simp add: nth_blit)
    moreover have "p - off < length bs" "off + (p - off) = p" using True by linarith+
    then have "bs ! (p - off) = P ! p" using piece_nth [OF assms(2), of "p - off"] by simp
    ultimately show ?thesis by simp
  next
    case False
    then have "p div 8 \<in> have_set f" using p h piece_covers [OF assms(2) p(1)] by blast
    then have "f_data f ! p = P ! p" using assms(1) p(1) by (simp add: slot_ok_def)
    with False show ?thesis using m fits p(1) len assms(3) by (auto simp: nth_blit)
  qed
  have ab: "frag_absorb f off mf bs = (if \<not> mf then f2\<lparr>f_total := off + length bs\<rparr> else f2)"
    by (simp add: frag_absorb_def Let_def f2_def)
  have hs: "have_set (f2\<lparr>f_total := v\<rparr>) = have_set f2" "frag_wf (f2\<lparr>f_total := v\<rparr>) = frag_wf f2" for v
    by (simp_all add: have_set_def frag_wf_def)
  have tot: "\<not> mf \<longrightarrow> off + length bs = length P" using assms(2) by (simp add: piece_def)
  show "have_set (frag_absorb f off mf bs) = have_set f \<union> piece_blocks off bs"
    by (simp add: ab hs h)
  show "f_total (frag_absorb f off mf bs) = (if mf then f_total f else length P)"
    using m tot by (simp add: ab)
  show "slot_ok P (frag_absorb f off mf bs)"
  proof -
    have "frag_wf f2" "f_total f2 = f_total f" using m by simp_all
    moreover have "have_set f \<subseteq> {..<(length P + 7) div 8}" "f_total f = 0 \<or> f_total f = length P"
      using assms(1) by (auto simp: slot_ok_def)
    ultimately have "slot_ok P f2" "slot_ok P (f2\<lparr>f_total := length P\<rparr>)"
      using h sub data by (simp_all add: slot_ok_def hs)
    then show ?thesis using tot by (simp add: ab)
  qed
qed

text \<open>A slot is complete exactly when it has every block and knows the total; then it holds \<open>P\<close>.\<close>

lemma slot_complete:
  assumes "slot_ok P f" and "P \<noteq> []" and "length P \<le> IP_MAX_PAYLOAD"
  shows "f_total f \<noteq> 0 \<and> f_blocks f = (f_total f + 7) div 8 \<longleftrightarrow>
      f_total f = length P \<and> have_set f = {..<(length P + 7) div 8}"
    and "f_total f = length P \<Longrightarrow> have_set f = {..<(length P + 7) div 8} \<Longrightarrow> take (f_total f) (f_data f) = P"
proof -
  have wf: "frag_wf f" and sub: "have_set f \<subseteq> {..<(length P + 7) div 8}"
    and data: "\<And>p. p < length P \<Longrightarrow> p div 8 \<in> have_set f \<Longrightarrow> f_data f ! p = P ! p"
    and tot: "f_total f = 0 \<or> f_total f = length P"
    using assms(1) by (auto simp: slot_ok_def)
  have c: "card (have_set f) = (length P + 7) div 8 \<longleftrightarrow> have_set f = {..<(length P + 7) div 8}"
    by (metis card_subset_eq card_lessThan finite_lessThan sub)
  have b: "f_blocks f = card (have_set f)" using wf by (simp add: frag_wf_def)
  show "f_total f \<noteq> 0 \<and> f_blocks f = (f_total f + 7) div 8 \<longleftrightarrow>
      f_total f = length P \<and> have_set f = {..<(length P + 7) div 8}"
  proof (cases "f_total f = 0")
    case False
    then have "f_total f = length P" using tot by simp
    then show ?thesis unfolding b using assms(2) c by simp
  qed (use assms(2) in simp)
  assume full: "f_total f = length P" "have_set f = {..<(length P + 7) div 8}"
  show "take (f_total f) (f_data f) = P"
  proof (rule nth_equalityI)
    show "length (take (f_total f) (f_data f)) = length P" using wf full assms(3) by (simp add: frag_wf_def)
    fix p assume "p < length (take (f_total f) (f_data f))"
    then have p: "p < length P" using full(1) by simp
    then have "p div 8 < (length P + 7) div 8" by linarith
    then have "p div 8 \<in> have_set f" using full(2) by simp
    with p show "take (f_total f) (f_data f) ! p = P ! p" using data full(1) by simp
  qed
qed

section \<open>The table of slots\<close>

definition frag_key :: "ip_frag \<Rightarrow> u32 \<times> u32 \<times> u16 \<times> u8" where
  "frag_key f = (f_src f, f_dst f, f_id f, f_proto f)"

definition hdr_key :: "ipv4_hdr \<Rightarrow> u32 \<times> u32 \<times> u16 \<times> u8" where
  "hdr_key ip = (ip_src ip, ip_dst ip, ip_id ip, ip_proto ip)"

lemma frag_match_key: "frag_match f ip \<longleftrightarrow> frag_key f = hdr_key ip"
  by (auto simp: frag_match_def frag_key_def hdr_key_def)

lemma scan_found:
  "frag_scan_from k fs ip fr old = Found i \<Longrightarrow>
   k \<le> i \<and> i - k < length fs \<and> f_used (fs ! (i - k)) \<and> frag_match (fs ! (i - k)) ip"
proof (induction fs arbitrary: k fr old)
  case (Cons f fs)
  show ?case
  proof (cases "f_used f \<and> frag_match f ip")
    case False
    then obtain fr' old' where "frag_scan_from (Suc k) fs ip fr' old' = Found i"
      using Cons.prems by (auto split: if_splits)
    from Cons.IH [OF this] show ?thesis by (auto simp: nth_Cons' Suc_diff_le)
  qed (use Cons.prems in auto)
qed simp

lemma scan_done:
  "frag_scan_from k fs ip fr old = Scanned fr' old' \<Longrightarrow>
   (\<forall>i. fr' = Some i \<longrightarrow> fr = Some i \<or> k \<le> i \<and> i < k + length fs)
   \<and> (fr' = None \<and> (fs \<noteq> [] \<or> old \<noteq> None) \<longrightarrow> old' \<noteq> None)
   \<and> (\<forall>j st. old' = Some (j, st) \<longrightarrow> old = Some (j, st) \<or> k \<le> j \<and> j < k + length fs)"
proof (induction fs arbitrary: k fr old)
  case (Cons f fs)
  have step: "(\<forall>i. fr' = Some i \<longrightarrow> fr1 = Some i \<or> Suc k \<le> i \<and> i < Suc k + length fs)
      \<and> (fr' = None \<and> (fs \<noteq> [] \<or> old1 \<noteq> None) \<longrightarrow> old' \<noteq> None)
      \<and> (\<forall>j st. old' = Some (j, st) \<longrightarrow> old1 = Some (j, st) \<or> Suc k \<le> j \<and> j < Suc k + length fs)"
    if "frag_scan_from (Suc k) fs ip fr1 old1 = Scanned fr' old'" for fr1 old1
    by (rule Cons.IH [OF that])
  show ?case
  proof (cases "f_used f")
    case False
    define fr1 where "fr1 = (if fr = None then Some k else fr)"
    have r: "frag_scan_from (Suc k) fs ip fr1 old = Scanned fr' old'"
      using Cons.prems False by (simp add: fr1_def)
    have "fr' \<noteq> None \<or> old \<noteq> None \<or> fs \<noteq> []"
      using r by (cases fs) (auto simp: fr1_def split: if_splits)
    with step [OF r] show ?thesis by (auto simp: fr1_def split: if_splits)
  next
    case True
    then obtain old1 where r: "frag_scan_from (Suc k) fs ip fr old1 = Scanned fr' old'"
      "old1 = Some (k, f_started f) \<or> old1 = old \<and> old \<noteq> None"
      using Cons.prems by (auto split: if_splits option.splits)
    with step [OF r(1)] show ?thesis by auto
  qed
qed auto

definition frags_ok :: "(u32 \<times> u32 \<times> u16 \<times> u8 \<Rightarrow> bytes) \<Rightarrow> frag_table \<Rightarrow> bool" where
  "frags_ok orig t \<longleftrightarrow> length (frags t) = IP_FRAG_SLOTS
     \<and> (\<forall>f \<in> set (frags t). f_used f \<longrightarrow> slot_ok (orig (frag_key f)) f)"

definition mem_ok :: "bytes option \<Rightarrow> bool" where
  "mem_ok mem \<longleftrightarrow> (\<forall>junk. mem = Some junk \<longrightarrow> length junk = IP_MAX_PAYLOAD)"

definition fresh_frag :: "ipv4_hdr \<Rightarrow> u64 \<Rightarrow> bytes \<Rightarrow> ip_frag" where
  "fresh_frag ip now junk = \<lparr>f_used = True, f_src = ip_src ip, f_dst = ip_dst ip,
      f_id = ip_id ip, f_proto = ip_proto ip, f_started = now, f_total = 0, f_blocks = 0,
      f_data = junk, f_have = replicate FRAG_HAVE_BYTES 0\<rparr>"

lemma fresh_frag_simps [simp]: "f_used (fresh_frag ip now junk)" "frag_key (fresh_frag ip now junk) = hdr_key ip"
  "f_total (fresh_frag ip now junk) = 0"
  by (simp_all add: fresh_frag_def frag_key_def hdr_key_def)

lemma fresh_frag_have: "have_set (fresh_frag ip now junk) = {}"
proof -
  have "\<not> have_bit (replicate FRAG_HAVE_BYTES 0) b" if "b < 8 * FRAG_HAVE_BYTES" for b
  proof -
    have "b div 8 < FRAG_HAVE_BYTES" using that by (simp add: less_mult_imp_div_less)
    then show ?thesis by (simp add: have_bit_bit)
  qed
  then show ?thesis by (simp add: have_set_def fresh_frag_def)
qed

lemma fresh_frag_ok: "length junk = IP_MAX_PAYLOAD \<Longrightarrow> slot_ok P (fresh_frag ip now junk)"
proof -
  assume "length junk = IP_MAX_PAYLOAD"
  moreover have "f_blocks (fresh_frag ip now junk) = 0" "f_data (fresh_frag ip now junk) = junk"
    "length (f_have (fresh_frag ip now junk)) = FRAG_HAVE_BYTES"
    by (simp_all add: fresh_frag_def)
  ultimately show ?thesis by (simp add: slot_ok_def frag_wf_def fresh_frag_have)
qed

text \<open>The slot a fragment goes to carries its key; the others keep what they had or are freed.\<close>

lemma frag_slot_cases:
  assumes "frag_slot t ip now mem = (r, t1)" and "length (frags t) = IP_FRAG_SLOTS"
  obtains (found) i where "r = Some i" "t1 = t" "i < IP_FRAG_SLOTS" "f_used (frags t ! i)"
      "frag_key (frags t ! i) = hdr_key ip"
  | (fresh) i junk fs where "r = Some i" "i < IP_FRAG_SLOTS" "mem = Some junk"
      "frags t1 = fs[i := fresh_frag ip now junk]"
      "fs = frags t \<or> fs = (frags t)[i := frag_free (frags t ! i)]"
  | (nomem) i where "r = None" "mem = None" "i < IP_FRAG_SLOTS"
      "frags t1 = frags t \<or> frags t1 = (frags t)[i := frag_free (frags t ! i)]"
proof (cases "frag_scan_from 0 (frags t) ip None None")
  case (Found i)
  from scan_found [OF Found] assms Found show thesis
    by (intro found [of i]) (auto simp: frag_slot_def frag_match_key)
next
  case (Scanned fr old)
  have ne: "frags t \<noteq> []" using assms(2) by auto
  define i where "i = (case fr of Some i \<Rightarrow> i | None \<Rightarrow> fst (the old))"
  define t2 where "t2 = (case fr of Some i \<Rightarrow> t | None \<Rightarrow> t\<lparr>frags_dropped := frags_dropped t + 1,
                             frags := (frags t)[i := frag_free (frags t ! i)]\<rparr>)"
  have i: "i < IP_FRAG_SLOTS"
    using scan_done [OF Scanned] ne assms(2) by (auto simp: i_def split: option.splits)
  have t2: "frags t2 = frags t \<or> frags t2 = (frags t)[i := frag_free (frags t ! i)]"
    by (auto simp: t2_def split: option.splits)
  have eq: "frag_slot t ip now mem = (case mem of None \<Rightarrow> (None, t2)
      | Some junk \<Rightarrow> (Some i, t2\<lparr>frags := (frags t2)[i := fresh_frag ip now junk]\<rparr>))"
    unfolding frag_slot_def Scanned fresh_frag_def
    by (auto simp: i_def t2_def Let_def split: option.splits)
  show thesis
  proof (cases mem)
    case None
    with eq assms(1) i t2 show thesis by (intro nomem [of i]) auto
  next
    case (Some junk)
    with eq assms(1) i t2 show thesis by (intro fresh [of i junk "frags t2"]) auto
  qed
qed

lemma frags_ok_update:
  assumes "frags_ok orig t" and "frags t1 = (frags t)[i := f]" and "f_used f \<Longrightarrow> slot_ok (orig (frag_key f)) f"
  shows "frags_ok orig t1"
  using assms set_update_subset_insert [of "frags t" i f] by (auto simp: frags_ok_def)

lemma frag_slot_ok:
  assumes "frags_ok orig t" and "mem_ok mem" and "frag_slot t ip now mem = (r, t1)"
  shows "frags_ok orig t1"
    and "r = Some i \<Longrightarrow> i < IP_FRAG_SLOTS \<and> f_used (frags t1 ! i) \<and> frag_key (frags t1 ! i) = hdr_key ip"
proof -
  have len: "length (frags t) = IP_FRAG_SLOTS" using assms(1) by (simp add: frags_ok_def)
  have freed: "frags_ok orig t2" if "frags t2 = (frags t)[j := frag_free (frags t ! j)]" for t2 j
    using frags_ok_update [OF assms(1) that] by (simp add: frag_free_def)
  have "frags_ok orig t1 \<and> (\<forall>i. r = Some i \<longrightarrow>
      i < IP_FRAG_SLOTS \<and> f_used (frags t1 ! i) \<and> frag_key (frags t1 ! i) = hdr_key ip)"
    using assms(3) len
  proof (cases rule: frag_slot_cases)
    case (found i)
    with assms(1) show ?thesis by simp
  next
    case (fresh i junk fs)
    have "frags_ok orig (t\<lparr>frags := fs\<rparr>)"
      using fresh(5) assms(1) freed [of "t\<lparr>frags := fs\<rparr>" i] by auto
    moreover have "slot_ok (orig (hdr_key ip)) (fresh_frag ip now junk)"
      using fresh(3) assms(2) by (simp add: mem_ok_def fresh_frag_ok)
    ultimately have "frags_ok orig t1"
      using frags_ok_update [of orig "t\<lparr>frags := fs\<rparr>" t1 i "fresh_frag ip now junk"] fresh(4) by simp
    moreover have "length fs = IP_FRAG_SLOTS" using fresh(5) len by auto
    ultimately show ?thesis using fresh(1,2,4) by simp
  next
    case (nomem i)
    have "frags_ok orig t1" using nomem(4) assms(1) freed [of t1 i] by (auto simp: frags_ok_def)
    with nomem(1) show ?thesis by simp
  qed
  then show "frags_ok orig t1"
    and "r = Some i \<Longrightarrow> i < IP_FRAG_SLOTS \<and> f_used (frags t1 ! i) \<and> frag_key (frags t1 ! i) = hdr_key ip"
    by auto
qed

lemma frag_absorb_key [simp]:
  "f_used (frag_absorb f off mf bs) = f_used f" "frag_key (frag_absorb f off mf bs) = frag_key f"
proof -
  have "f_used (fold frag_mark bs g) = f_used g \<and> frag_key (fold frag_mark bs g) = frag_key g" for bs g
    by (induction bs arbitrary: g) (auto simp: frag_mark_def frag_key_def)
  then show "f_used (frag_absorb f off mf bs) = f_used f" "frag_key (frag_absorb f off mf bs) = frag_key f"
    by (simp_all add: frag_absorb_def Let_def frag_key_def)
qed

definition packets_ok :: "(u32 \<times> u32 \<times> u16 \<times> u8 \<Rightarrow> bytes) \<Rightarrow> bool" where
  "packets_ok orig \<longleftrightarrow> (\<forall>k. orig k \<noteq> [] \<and> length (orig k) \<le> IP_MAX_PAYLOAD)"

lemma ipv4_reassemble_ok:
  assumes "packets_ok orig" and "frags_ok orig t" and "mem_ok mem"
    and "piece (orig (hdr_key ip)) (frag_offset ip) (frag_more ip) payload"
    and "ipv4_reassemble t ip payload now mem = (out, t')"
  shows "frags_ok orig t' \<and> (out = None \<or> out = Some (orig (hdr_key ip)))"
proof -
  let ?P = "orig (hdr_key ip)"
  have P: "?P \<noteq> []" "length ?P \<le> IP_MAX_PAYLOAD" using assms(1) unfolding packets_ok_def by blast+
  have pass: "\<not> (frag_offset ip + length payload > IP_MAX_PAYLOAD
      \<or> frag_more ip \<and> (length payload mod 8 \<noteq> 0 \<or> length payload = 0))"
    using assms(4) P(2) by (auto simp: piece_def)
  obtain r t1 where fs: "frag_slot t ip now mem = (r, t1)" by fastforce
  note s = frag_slot_ok [OF assms(2,3) fs]
  show ?thesis
  proof (cases r)
    case None
    with assms(5) fs pass s(1) show ?thesis by (auto simp: ipv4_reassemble_def Let_def)
  next
    case (Some i)
    define f where "f = frag_absorb (frags t1 ! i) (frag_offset ip) (frag_more ip) payload"
    have i: "i < IP_FRAG_SLOTS" "f_used (frags t1 ! i)" "frag_key (frags t1 ! i) = hdr_key ip"
      using s(2) [OF Some] by auto
    then have "slot_ok ?P (frags t1 ! i)" using s(1) by (auto simp: frags_ok_def)
    from frag_absorb_ok(1) [OF this assms(4) P(2)] have f: "slot_ok ?P f" by (simp add: f_def)
    have key: "frag_key f = hdr_key ip" using i(3) by (simp add: f_def)
    note c = slot_complete [OF f P]
    have "ipv4_reassemble t ip payload now mem =
       (if f_total f \<noteq> 0 \<and> f_blocks f = (f_total f + 7) div 8
        then (Some (take (f_total f) (f_data f)), t1\<lparr>frags := (frags t1)[i := f\<lparr>f_data := [], f_used := False\<rparr>]\<rparr>)
        else (None, t1\<lparr>frags := (frags t1)[i := f]\<rparr>))"
      unfolding ipv4_reassemble_def Let_def if_not_P [OF pass] fs Some f_def by simp
    moreover have "frags_ok orig (t1\<lparr>frags := (frags t1)[i := f\<lparr>f_data := [], f_used := False\<rparr>]\<rparr>)"
      by (rule frags_ok_update [OF s(1)]) auto
    moreover have "frags_ok orig (t1\<lparr>frags := (frags t1)[i := f]\<rparr>)"
      by (rule frags_ok_update [OF s(1)]) (auto simp: key f)
    ultimately show ?thesis using assms(5) c by (auto split: if_splits)
  qed
qed

text \<open>
  Every history of fragments and timeouts, each fragment being a piece of the packet that
  \<open>orig\<close> names for its addresses, identifier and protocol.
\<close>

inductive frags_reach :: "(u32 \<times> u32 \<times> u16 \<times> u8 \<Rightarrow> bytes) \<Rightarrow> frag_table \<Rightarrow> bool" for orig where
  boot: "length (frags t) = IP_FRAG_SLOTS \<Longrightarrow> \<forall>f \<in> set (frags t). \<not> f_used f \<Longrightarrow> frags_reach orig t"
| frag: "frags_reach orig t \<Longrightarrow> mem_ok mem \<Longrightarrow>
    piece (orig (hdr_key ip)) (frag_offset ip) (frag_more ip) payload \<Longrightarrow>
    ipv4_reassemble t ip payload now mem = (out, t') \<Longrightarrow> frags_reach orig t'"
| tick: "frags_reach orig t \<Longrightarrow> frags_reach orig (ipv4_frag_tick t now)"

lemma frags_reach_ok: "frags_reach orig t \<Longrightarrow> packets_ok orig \<Longrightarrow> frags_ok orig t"
proof (induction rule: frags_reach.induct)
  case (boot t)
  then show ?case by (simp add: frags_ok_def)
next
  case (frag t mem ip payload now out t')
  then show ?case using ipv4_reassemble_ok by blast
next
  case (tick t now)
  then show ?case by (auto simp: frags_ok_def ipv4_frag_tick_def frag_free_def)
qed

text \<open>C10. Fragments of any number of packets may arrive in any order, twice, overlapping and mixed,
  and half built packets may be evicted or time out: a packet the reassembly delivers is exactly
  the packet its sender had cut up.\<close>

theorem ipv4_reassemble_sound:
  assumes "packets_ok orig" and "frags_reach orig t" and "mem_ok mem"
    and "piece (orig (hdr_key ip)) (frag_offset ip) (frag_more ip) payload"
    and "ipv4_reassemble t ip payload now mem = (Some whole, t')"
  shows "whole = orig (hdr_key ip)"
  using ipv4_reassemble_ok [OF assms(1) frags_reach_ok [OF assms(2,1)] assms(3-5)] by simp

section \<open>Completeness\<close>

type_synonym frag_in = "ipv4_hdr \<times> bytes \<times> u64 \<times> bytes"

fun reassemble_run :: "frag_table \<Rightarrow> frag_in list \<Rightarrow> bytes option list" where
  "reassemble_run t [] = []"
| "reassemble_run t ((ip, bs, now, junk) # xs) =
     (let (out, t') = ipv4_reassemble t ip bs now (Some junk) in out # reassemble_run t' xs)"

definition blocks_in :: "frag_in list \<Rightarrow> nat set" where
  "blocks_in xs = (\<Union>(ip, bs, now, junk) \<in> set xs. piece_blocks (frag_offset ip) bs)"

definition last_in :: "frag_in list \<Rightarrow> bool" where
  "last_in xs \<longleftrightarrow> (\<exists>(ip, bs, now, junk) \<in> set xs. \<not> frag_more ip)"

text \<open>The fragments at hand make up the whole packet.\<close>

definition all_there :: "bytes \<Rightarrow> frag_in list \<Rightarrow> bool" where
  "all_there P xs \<longleftrightarrow> last_in xs \<and> blocks_in xs = {..<(length P + 7) div 8}"

definition pieces_of :: "bytes \<Rightarrow> u32 \<times> u32 \<times> u16 \<times> u8 \<Rightarrow> frag_in list \<Rightarrow> bool" where
  "pieces_of P k xs \<longleftrightarrow> (\<forall>(ip, bs, now, junk) \<in> set xs. hdr_key ip = k
     \<and> piece P (frag_offset ip) (frag_more ip) bs \<and> length junk = IP_MAX_PAYLOAD)"

text \<open>The table after the fragments \<open>ys\<close> of one packet, none of which completed it.\<close>

definition half_built :: "bytes \<Rightarrow> u32 \<times> u32 \<times> u16 \<times> u8 \<Rightarrow> frag_in list \<Rightarrow> frag_table \<Rightarrow> bool" where
  "half_built P k ys t \<longleftrightarrow> length (frags t) = IP_FRAG_SLOTS \<and> (\<forall>i < IP_FRAG_SLOTS. 0 < i \<longrightarrow> \<not> f_used (frags t ! i))
     \<and> (if ys = [] then \<not> f_used (frags t ! 0)
        else f_used (frags t ! 0) \<and> frag_key (frags t ! 0) = k \<and> slot_ok P (frags t ! 0)
           \<and> have_set (frags t ! 0) = blocks_in ys \<and> f_total (frags t ! 0) = (if last_in ys then length P else 0))"

lemma half_built_slot:
  assumes "half_built P k ys t" and "hdr_key ip = k" and "length junk = IP_MAX_PAYLOAD"
  shows "\<exists>t1. frag_slot t ip now (Some junk) = (Some 0, t1) \<and> length (frags t1) = IP_FRAG_SLOTS
    \<and> (\<forall>i < IP_FRAG_SLOTS. 0 < i \<longrightarrow> \<not> f_used (frags t1 ! i)) \<and> slot_ok P (frags t1 ! 0)
    \<and> f_used (frags t1 ! 0) \<and> frag_key (frags t1 ! 0) = k
    \<and> have_set (frags t1 ! 0) = blocks_in ys \<and> f_total (frags t1 ! 0) = (if last_in ys then length P else 0)"
proof -
  obtain f g h j where fs: "frags t = [f, g, h, j]"
    using assms(1) by (auto simp: half_built_def length_Suc_conv numeral_eq_Suc)
  have rest: "\<not> f_used g" "\<not> f_used h" "\<not> f_used j"
    using assms(1) fs unfolding half_built_def by (auto dest: spec [of _ 1] spec [of _ 2] spec [of _ 3])
  show ?thesis
  proof (cases "ys = []")
    case True
    then have "\<not> f_used f" using assms(1) fs by (simp add: half_built_def)
    then have "frag_slot t ip now (Some junk) = (Some 0, t\<lparr>frags := [fresh_frag ip now junk, g, h, j]\<rparr>)"
      using rest by (simp add: frag_slot_def fs fresh_frag_def)
    moreover have "blocks_in ys = {}" "\<not> last_in ys" using True by (simp_all add: blocks_in_def last_in_def)
    ultimately show ?thesis using rest assms(2,3) by (auto simp: fresh_frag_have fresh_frag_ok nth_Cons')
  next
    case False
    then have f: "f_used f" "frag_key f = k" "slot_ok P f" "have_set f = blocks_in ys"
        "f_total f = (if last_in ys then length P else 0)"
      using assms(1) fs by (simp_all add: half_built_def)
    then have "frag_slot t ip now (Some junk) = (Some 0, t)"
      using assms(2) by (simp add: frag_slot_def fs frag_match_key)
    then show ?thesis using f rest fs by (auto simp: nth_Cons')
  qed
qed

lemma half_built_step:
  assumes "half_built P k ys t" and "pieces_of P k (ys @ [(ip, bs, now, junk)])"
    and "P \<noteq> []" and "length P \<le> IP_MAX_PAYLOAD"
    and "ipv4_reassemble t ip bs now (Some junk) = (out, t')"
  shows "if all_there P (ys @ [(ip, bs, now, junk)]) then out = Some P
         else out = None \<and> half_built P k (ys @ [(ip, bs, now, junk)]) t'"
proof -
  let ?zs = "ys @ [(ip, bs, now, junk)]"
  have pc: "hdr_key ip = k" "piece P (frag_offset ip) (frag_more ip) bs" "length junk = IP_MAX_PAYLOAD"
    using assms(2) by (auto simp: pieces_of_def)
  obtain t1 where t1: "frag_slot t ip now (Some junk) = (Some 0, t1)" "length (frags t1) = IP_FRAG_SLOTS"
    "\<forall>i < IP_FRAG_SLOTS. 0 < i \<longrightarrow> \<not> f_used (frags t1 ! i)" "slot_ok P (frags t1 ! 0)"
    "f_used (frags t1 ! 0)" "frag_key (frags t1 ! 0) = k"
    "have_set (frags t1 ! 0) = blocks_in ys" "f_total (frags t1 ! 0) = (if last_in ys then length P else 0)"
    using half_built_slot [OF assms(1) pc(1,3), of now] by blast
  define f where "f = frag_absorb (frags t1 ! 0) (frag_offset ip) (frag_more ip) bs"
  note ab = frag_absorb_ok [OF t1(4) pc(2) assms(4), folded f_def]
  have h: "have_set f = blocks_in ?zs" using ab(2) t1(7) by (simp add: blocks_in_def Un_commute)
  have l: "f_total f = (if last_in ?zs then length P else 0)" using ab(3) t1(8) by (auto simp: last_in_def)
  have pass: "\<not> (frag_offset ip + length bs > IP_MAX_PAYLOAD
      \<or> frag_more ip \<and> (length bs mod 8 \<noteq> 0 \<or> length bs = 0))"
    using pc(2) assms(4) by (auto simp: piece_def)
  have r: "ipv4_reassemble t ip bs now (Some junk) =
       (if f_total f \<noteq> 0 \<and> f_blocks f = (f_total f + 7) div 8
        then (Some (take (f_total f) (f_data f)), t1\<lparr>frags := (frags t1)[0 := f\<lparr>f_data := [], f_used := False\<rparr>]\<rparr>)
        else (None, t1\<lparr>frags := (frags t1)[0 := f]\<rparr>))"
    unfolding ipv4_reassemble_def Let_def if_not_P [OF pass] t1(1) f_def by simp
  have full: "f_total f \<noteq> 0 \<and> f_blocks f = (f_total f + 7) div 8 \<longleftrightarrow> all_there P ?zs"
  proof -
    have "f_total f = length P \<longleftrightarrow> last_in ?zs" unfolding l using assms(3) by simp
    then show ?thesis unfolding slot_complete(1) [OF ab(1) assms(3,4)] all_there_def h by simp
  qed
  show ?thesis
  proof (cases "all_there P ?zs")
    case True
    then have "f_total f = length P" "have_set f = {..<(length P + 7) div 8}"
      using h l by (auto simp: all_there_def)
    from slot_complete(2) [OF ab(1) assms(3,4) this] show ?thesis using True full r assms(5) by simp
  next
    case False
    then have "out = None" "t' = t1\<lparr>frags := (frags t1)[0 := f]\<rparr>" using full r assms(5) by auto
    moreover have "f_used f" "frag_key f = k" using t1(5,6) by (simp_all add: f_def)
    ultimately have "half_built P k ?zs t'" using t1(2,3) ab(1) h l by (simp add: half_built_def)
    with False \<open>out = None\<close> show ?thesis by simp
  qed
qed

lemma reassemble_run_aux:
  assumes "half_built P k ys t" and "pieces_of P k (ys @ xs)" and "P \<noteq> []" and "length P \<le> IP_MAX_PAYLOAD"
    and "all_there P (ys @ xs)" and "xs \<noteq> []" and "\<And>zs. prefix zs (butlast xs) \<Longrightarrow> \<not> all_there P (ys @ zs)"
  shows "reassemble_run t xs = replicate (length xs - 1) None @ [Some P]"
  using assms
proof (induction xs arbitrary: ys t)
  case (Cons x xs)
  obtain ip bs now junk where x: "x = (ip, bs, now, junk)" by (cases x)
  obtain out t' where r: "ipv4_reassemble t ip bs now (Some junk) = (out, t')" by fastforce
  have pc: "pieces_of P k (ys @ [x])" using Cons.prems(2) by (auto simp: pieces_of_def)
  note step = half_built_step [OF Cons.prems(1) pc [unfolded x] Cons.prems(3,4) r, folded x]
  show ?case
  proof (cases "xs = []")
    case True
    with step Cons.prems(5) r x show ?thesis by simp
  next
    case False
    have "\<not> all_there P (ys @ [x])" using Cons.prems(7) [of "[x]"] False by simp
    with step have o: "out = None" "half_built P k (ys @ [x]) t'" by auto
    have "reassemble_run t' xs = replicate (length xs - 1) None @ [Some P]"
    proof (rule Cons.IH [OF o(2)])
      show "\<not> all_there P ((ys @ [x]) @ zs)" if "prefix zs (butlast xs)" for zs
        using Cons.prems(7) [of "x # zs"] that False by simp
    qed (use Cons.prems False in auto)
    moreover obtain n where "length xs = Suc n" using False by (cases xs) auto
    ultimately show ?thesis using o(1) r x by simp
  qed
qed simp

text \<open>C12. The fragments of one packet, in any order and with any repetitions, deliver it: nothing
  before the fragment that completes it, and the whole packet with that fragment.\<close>

theorem ipv4_reassemble_complete:
  assumes "length (frags t) = IP_FRAG_SLOTS" and "\<forall>f \<in> set (frags t). \<not> f_used f"
    and "P \<noteq> []" and "length P \<le> IP_MAX_PAYLOAD" and "pieces_of P k xs"
    and "all_there P xs" and "\<forall>zs. prefix zs (butlast xs) \<longrightarrow> \<not> all_there P zs"
  shows "reassemble_run t xs = replicate (length xs - 1) None @ [Some P]"
proof (rule reassemble_run_aux [where ys = "[]"])
  show "half_built P k [] t" using assms(1,2) by (simp add: half_built_def)
  show "xs \<noteq> []"
  proof
    assume "xs = []"
    then have "\<not> last_in xs" by (simp add: last_in_def)
    then show False using assms(6) by (simp add: all_there_def)
  qed
  show "pieces_of P k ([] @ xs)" "all_there P ([] @ xs)" using assms(5,6) by simp_all
  show "\<not> all_there P ([] @ zs)" if "prefix zs (butlast xs)" for zs using assms(7) that by simp
qed (rule assms(3,4))+

section \<open>A packet with a hole\<close>

text \<open>
  The counter counts every block that has arrived, also one behind the end of the packet. A last
  fragment of the blocks 1 and a stray fragment far behind it complete a packet whose block 0 has
  never arrived.
\<close>

definition frag_hdr :: "u16 \<Rightarrow> ipv4_hdr" where
  "frag_hdr fr = \<lparr>ver_ihl = 0x45, tos = 0, total_len = 0, ip_id = 7, ip_frag_off = htons fr, ttl = 64,
     ip_proto = 17, ip_checksum = 0, ip_src = 1, ip_dst = 2\<rparr>"

definition no_frag :: ip_frag where
  "no_frag = \<lparr>f_used = False, f_src = 0, f_dst = 0, f_id = 0, f_proto = 0, f_started = 0, f_total = 0,
     f_blocks = 0, f_data = [], f_have = replicate FRAG_HAVE_BYTES 0\<rparr>"

definition no_frags :: frag_table where
  "no_frags = \<lparr>frags = [no_frag, no_frag, no_frag, no_frag], frags_dropped = 0\<rparr>"

definition no_junk :: bytes where
  "no_junk = replicate IP_MAX_PAYLOAD 0"

lemma frag_hdr_fields [simp]:
  "frag_offset (frag_hdr 1) = 8" "\<not> frag_more (frag_hdr 1)" "frag_offset (frag_hdr 0x2000) = 0"
  "frag_more (frag_hdr 0x2000)" "frag_offset (frag_hdr 0x200A) = 80" "frag_more (frag_hdr 0x200A)"
  "frag_offset (frag_hdr 0) = 0" "\<not> frag_more (frag_hdr 0)"
  by code_simp+

lemma frag_hdr_sel [simp]:
  "ip_src (frag_hdr a) = 1" "ip_dst (frag_hdr a) = 2" "ip_id (frag_hdr a) = 7" "ip_proto (frag_hdr a) = 17"
  by (simp_all add: frag_hdr_def)

lemma hdr_key_frag_hdr [simp]: "hdr_key (frag_hdr a) = (1, 2, 7, 17)"
  by (simp add: hdr_key_def frag_hdr_def)

lemma no_frags_boot: "length (frags no_frags) = IP_FRAG_SLOTS" "\<forall>f \<in> set (frags no_frags). \<not> f_used f"
  by (simp_all add: no_frags_def no_frag_def)

lemma length_no_junk: "length no_junk = IP_MAX_PAYLOAD"
  by (simp add: no_junk_def)

definition demo_frags :: "frag_in list" where
  "demo_frags = [(frag_hdr 1, replicate 8 2, 0, no_junk), (frag_hdr 0x2000, replicate 8 1, 0, no_junk)]"

theorem ipv4_reassemble_complete_witness:
  "reassemble_run no_frags demo_frags = [None, Some (replicate 8 1 @ replicate 8 2)]"
proof -
  let ?P = "replicate 8 1 @ replicate 8 2 :: bytes"
  have p: "pieces_of ?P (1, 2, 7, 17) demo_frags"
    by (simp add: pieces_of_def demo_frags_def piece_def length_no_junk)
  have b: "blocks_in demo_frags = {..<2}" "last_in demo_frags"
    by (auto simp: blocks_in_def demo_frags_def piece_blocks_def last_in_def)
  have n: "\<not> all_there ?P zs" if "prefix zs (butlast demo_frags)" for zs
  proof -
    have "set zs \<subseteq> {(frag_hdr 1, replicate 8 2, 0, no_junk)}"
      using that set_mono_prefix [OF that] by (simp add: demo_frags_def)
    then have "0 \<notin> blocks_in zs" by (auto simp: blocks_in_def piece_blocks_def)
    moreover have "0 \<in> blocks_in zs" if "all_there ?P zs"
    proof -
      have "blocks_in zs = {..<(length ?P + 7) div 8}" using that by (simp only: all_there_def)
      then show ?thesis by simp
    qed
    ultimately show ?thesis by blast
  qed
  have "all_there ?P demo_frags" using b by (simp add: all_there_def)
  from ipv4_reassemble_complete [OF no_frags_boot _ _ p this] n show ?thesis
    by (simp add: demo_frags_def)
qed

lemma demo_whole:
  "\<exists>whole t'. ipv4_reassemble no_frags (frag_hdr 0) (replicate 8 1) 0 (Some no_junk) = (Some whole, t')"
proof -
  let ?x = "(frag_hdr 0, replicate 8 1, 0, no_junk)"
  have "half_built (replicate 8 1) (1, 2, 7, 17) [] no_frags"
    using no_frags_boot by (simp add: half_built_def)
  moreover have "pieces_of (replicate 8 1) (1, 2, 7, 17) ([] @ [?x])"
    by (simp add: pieces_of_def piece_def length_no_junk)
  moreover have "all_there (replicate 8 1) ([] @ [?x])"
    by (auto simp: all_there_def blocks_in_def last_in_def piece_blocks_def)
  moreover obtain out t' where r: "ipv4_reassemble no_frags (frag_hdr 0) (replicate 8 1) 0 (Some no_junk) = (out, t')"
    by fastforce
  ultimately have "out = Some (replicate 8 1)"
    using half_built_step [of "replicate 8 1" _ "[]" no_frags "frag_hdr 0" "replicate 8 1" 0 no_junk out t'] by simp
  with r show ?thesis by blast
qed

theorem ipv4_reassemble_sound_witness:
  "\<exists>t'. ipv4_reassemble no_frags (frag_hdr 0) (replicate 8 1) 0 (Some no_junk) = (Some (replicate 8 1), t')"
proof -
  obtain whole t' where r: "ipv4_reassemble no_frags (frag_hdr 0) (replicate 8 1) 0 (Some no_junk) = (Some whole, t')"
    using demo_whole by blast
  have "packets_ok (\<lambda>k. replicate 8 1)" by (simp add: packets_ok_def)
  moreover have "frags_reach (\<lambda>k. replicate 8 1) no_frags" by (rule frags_reach.boot [OF no_frags_boot])
  moreover have "mem_ok (Some no_junk)" by (simp add: mem_ok_def length_no_junk)
  moreover have "piece (replicate 8 1) (frag_offset (frag_hdr 0)) (frag_more (frag_hdr 0)) (replicate 8 1)"
    by (simp add: piece_def)
  ultimately have "whole = replicate 8 1" using r by (rule ipv4_reassemble_sound)
  with r show ?thesis by blast
qed

text \<open>C26. Fragments that do not belong together make the kernel deliver memory it never wrote: after
  a last fragment of bytes 8 to 15 and a fragment at byte 80, a 16-byte packet is delivered whose
  first eight bytes are the old contents of the buffer \<open>kmalloc\<close> returned.\<close>

theorem ipv4_reassemble_delivers_old_memory:
  assumes "length junk = IP_MAX_PAYLOAD" and "length a = 8" and "length b = 8"
  shows "reassemble_run no_frags [(frag_hdr 1, a, 0, junk), (frag_hdr 0x200A, b, 0, other)]
    = [None, Some (take 8 junk @ a)]"
proof -
  let ?h = "replicate FRAG_HAVE_BYTES (0 :: u8)"
  define f1 where "f1 = \<lparr>f_used = True, f_src = 1, f_dst = 2, f_id = 7, f_proto = 17, f_started = 0,
      f_total = 16, f_blocks = 1, f_data = blit junk 8 a, f_have = ?h[0 := 2]\<rparr>"
  define t1 where "t1 = no_frags\<lparr>frags := [f1, no_frag, no_frag, no_frag]\<rparr>"
  have h0: "?h ! 0 = 0" "?h[0 := 2] ! 1 = 0" "[Suc 0..<2] = [1]" "[10..<11] = [10]"
    by (simp_all add: upt_rec)
  have 1: "ipv4_reassemble no_frags (frag_hdr 1) a 0 (Some junk) = (None, t1)"
    using assms h0 by (simp add: ipv4_reassemble_def frag_slot_def no_frags_def no_frag_def frag_absorb_def
        frag_mark_def have_bit_def t1_def f1_def Let_def)
  have "take 16 (blit (blit junk 8 a) 80 b) = take 8 junk @ a"
    using assms by (simp add: blit_def)
  then have 2: "\<exists>t2. ipv4_reassemble t1 (frag_hdr 0x200A) b 0 (Some other) = (Some (take 8 junk @ a), t2)"
    using assms h0 by (simp add: ipv4_reassemble_def frag_slot_def t1_def f1_def frag_match_def
        frag_absorb_def frag_mark_def have_bit_def Let_def)
  from 1 2 show ?thesis by auto
qed

theorem ipv4_reassemble_delivers_old_memory_witness:
  "reassemble_run no_frags [(frag_hdr 1, replicate 8 1, 0, replicate IP_MAX_PAYLOAD 0xAA),
      (frag_hdr 0x200A, replicate 8 2, 0, [])] = [None, Some (replicate 8 0xAA @ replicate 8 1)]"
  using ipv4_reassemble_delivers_old_memory
    [of "replicate IP_MAX_PAYLOAD 0xAA" "replicate 8 1" "replicate 8 2" "[]"] by simp

end
