(* ===== verification/Ipv4.thy ===== *)
theory Ipv4
  imports Arp Ipfrag
begin

text \<open>
  IPv4, \<open>kernel/src/net/ipv4.c\<close>: input with checksum and reassembly, routing, output with
  fragmentation, and the loopback queue. The protocols above are the argument \<open>up\<close>, applied to
  what is delivered; the layers are tied together where those protocols are defined.
\<close>

section \<open>State\<close>

abbreviation (input) IP_PROTO_ICMP :: u8 where "IP_PROTO_ICMP \<equiv> 1"
abbreviation (input) IP_PROTO_TCP :: u8 where "IP_PROTO_TCP \<equiv> 6"
abbreviation (input) IP_PROTO_UDP :: u8 where "IP_PROTO_UDP \<equiv> 17"
abbreviation (input) IP_TTL :: u8 where "IP_TTL \<equiv> 64"
abbreviation IP_FRAG_CHUNK :: nat where "IP_FRAG_CHUNK \<equiv> 1480"
abbreviation IP_LO_QUEUE :: nat where "IP_LO_QUEUE \<equiv> 256"
abbreviation IP_LO_BATCH :: nat where "IP_LO_BATCH \<equiv> 64"

text \<open>\<open>frag_mem\<close> is what the next allocations of reassembly buffers will return.\<close>

record ip_state = arp_state +
  ip_frags :: frag_table
  frag_mem :: "bytes option list"
  ip_next_id :: u16
  lo_queue :: "(netbuf \<times> nif_ref) option list"
  lo_head :: nat
  lo_count :: nat
  net_kicked :: bool

datatype ip_up =
    Up_icmp nif_ref u32 bytes
  | Up_udp nif_ref u32 u32 bytes
  | Up_tcp nif_ref u32 u32 bytes

section \<open>Addresses\<close>

definition IP_LOOPBACK :: "u32 \<Rightarrow> bool" where
  "IP_LOOPBACK ip \<longleftrightarrow> ip AND 0xFF = 127"

definition ipv4_is_ours :: "netif \<Rightarrow> u32 \<Rightarrow> bool" where
  "ipv4_is_ours nif dst =
     (if dst = IP_BROADCAST \<or> IP_LOOPBACK dst then True
      else if \<not> configured nif then True
      else if dst = nif_ip nif then True
      else netmask nif \<noteq> 0 \<and> dst = (nif_ip nif AND netmask nif) OR NOT (netmask nif))"

definition ipv4_pseudo_sum :: "u32 \<Rightarrow> u32 \<Rightarrow> u8 \<Rightarrow> nat \<Rightarrow> u32" where
  "ipv4_pseudo_sum src dst proto len =
     net_checksum_partial (st32 src @ st32 dst @ [0, proto] @ st16 (htons (of_nat len))) 0"

lemma pseudo_sum_bound: "unat (ipv4_pseudo_sum src dst proto len) \<le> 65535 * 6"
proof -
  let ?b = "st32 src @ st32 dst @ [0, proto] @ st16 (htons (of_nat len))"
  have "sum16 ?b \<le> 65535 * 6" using sum16_bound [of ?b] by simp
  moreover from this have "unat (net_checksum_partial ?b 0) = unat (0::u32) + sum16 ?b"
    by (intro partial_sum) simp
  ultimately show ?thesis by (simp add: ipv4_pseudo_sum_def)
qed

definition ipv4_route :: "'a ip_state_scheme \<Rightarrow> u32 \<Rightarrow> nif_ref option" where
  "ipv4_route s dst = (if IP_LOOPBACK dst then Some netif_loopback else netif_default s)"

definition ipv4_source :: "netif \<Rightarrow> u32 \<Rightarrow> u32" where
  "ipv4_source nif dst = (if IP_LOOPBACK dst then IP4 127 0 0 1 else nif_ip nif)"

definition ipv4_stays_here :: "netif \<Rightarrow> u32 \<Rightarrow> bool" where
  "ipv4_stays_here nif dst \<longleftrightarrow> IP_LOOPBACK dst \<or> (nif_ip nif \<noteq> 0 \<and> dst = nif_ip nif)"

definition ipv4_next_hop :: "netif \<Rightarrow> u32 \<Rightarrow> u32" where
  "ipv4_next_hop nif dst =
     (let local = ipv4_stays_here nif dst \<or> dst = IP_BROADCAST
            \<or> (netmask nif \<noteq> 0 \<and> dst AND netmask nif = nif_ip nif AND netmask nif)
      in if local then dst else gateway nif)"

section \<open>Input\<close>

definition ipv4_deliver :: "(ip_up \<Rightarrow> 'a ip_state_scheme \<Rightarrow> 'a ip_state_scheme) \<Rightarrow> 'a ip_state_scheme
    \<Rightarrow> nif_ref \<Rightarrow> u32 \<Rightarrow> u32 \<Rightarrow> u8 \<Rightarrow> bytes \<Rightarrow> 'a ip_state_scheme" where
  "ipv4_deliver up s r src dst proto payload =
     (if proto = IP_PROTO_ICMP then up (Up_icmp r src payload) s
      else if proto = IP_PROTO_UDP then up (Up_udp r src dst payload) s
      else if proto = IP_PROTO_TCP then up (Up_tcp r src dst payload) s
      else s)"

definition hdr_of :: "bytes \<Rightarrow> ipv4_hdr" where
  "hdr_of d = \<lparr>ver_ihl = d ! 0, tos = d ! 1, total_len = ld16 d 2, ip_id = ld16 d 4, ip_frag_off = ld16 d 6,
     ttl = d ! 8, ip_proto = d ! 9, ip_checksum = ld16 d 10, ip_src = ld32 d 12, ip_dst = ld32 d 16\<rparr>"

text \<open>Whether a packet passes the checks, with the length of its header and of the whole.\<close>

definition ipv4_accepts :: "netif \<Rightarrow> bytes \<Rightarrow> (nat \<times> nat) option" where
  "ipv4_accepts nif data =
     (if length data < IP_HLEN then None
      else
        let ip = hdr_of data;
            hlen = unat (ver_ihl ip AND 0x0F) * 4;
            tlen = unat (htons (total_len ip))
        in if drop_bit 4 (ver_ihl ip) \<noteq> 4 \<or> hlen < IP_HLEN \<or> hlen > length data \<or> tlen < hlen
              \<or> tlen > length data then None
           else if net_checksum (take hlen data) 0 \<noteq> 0 then None
           else if \<not> ipv4_is_ours nif (ip_dst ip) then None
           else Some (hlen, tlen))"

definition ipv4_input :: "(ip_up \<Rightarrow> 'a ip_state_scheme \<Rightarrow> 'a ip_state_scheme) \<Rightarrow> u64 \<Rightarrow> 'a ip_state_scheme
    \<Rightarrow> nif_ref \<Rightarrow> bytes \<Rightarrow> 'a ip_state_scheme" where
  "ipv4_input up now s r data =
     (case ipv4_accepts (get_nif s r) data of
        None \<Rightarrow> s
      | Some (hlen, tlen) \<Rightarrow>
          let ip = hdr_of data;
              payload = take (tlen - hlen) (drop hlen data)
          in if htons (ip_frag_off ip) AND (IP_FLAG_MF OR IP_FRAG_MASK) = 0
             then ipv4_deliver up s r (ip_src ip) (ip_dst ip) (ip_proto ip) payload
             else
               let mem = (case frag_mem s of [] \<Rightarrow> None | m # ms \<Rightarrow> m);
                   (whole, t) = ipv4_reassemble (ip_frags s) ip payload now mem;
                   s1 = s\<lparr>ip_frags := t, frag_mem := tl (frag_mem s)\<rparr>
               in (case whole of None \<Rightarrow> s1
                   | Some w \<Rightarrow> ipv4_deliver up s1 r (ip_src ip) (ip_dst ip) (ip_proto ip) w))"

section \<open>The loopback queue\<close>

text \<open>\<open>net_kick\<close> sets the flag the service thread looks at before it sleeps.\<close>

definition net_kick :: "'a ip_state_scheme \<Rightarrow> 'a ip_state_scheme" where
  "net_kick s = s\<lparr>net_kicked := True\<rparr>"

definition ipv4_loopback_queue :: "'a ip_state_scheme \<Rightarrow> nif_ref \<Rightarrow> netbuf \<Rightarrow> int \<times> 'a ip_state_scheme" where
  "ipv4_loopback_queue s r nb =
     (if lo_count s < IP_LO_QUEUE then
        (0, net_kick (s\<lparr>lo_queue := (lo_queue s)[(lo_head s + lo_count s) mod IP_LO_QUEUE := Some (nb, r)],
                        lo_count := lo_count s + 1\<rparr>))
      else (- ENOBUFS, s))"

definition lo_take :: "'a ip_state_scheme \<Rightarrow> (netbuf \<times> nif_ref) option \<times> 'a ip_state_scheme" where
  "lo_take s =
     (if lo_count s \<noteq> 0 then
        (lo_queue s ! lo_head s,
         s\<lparr>lo_head := (lo_head s + 1) mod IP_LO_QUEUE, lo_count := lo_count s - 1\<rparr>)
      else (None, s))"

text \<open>The loop of \<open>ipv4_loopback_service\<close> with \<open>n\<close> turns left.\<close>

fun ipv4_loopback_turns :: "(ip_up \<Rightarrow> 'a ip_state_scheme \<Rightarrow> 'a ip_state_scheme) \<Rightarrow> u64 \<Rightarrow> nat
    \<Rightarrow> 'a ip_state_scheme \<Rightarrow> bool \<times> 'a ip_state_scheme" where
  "ipv4_loopback_turns up now 0 s = (lo_count s \<noteq> 0, s)"
| "ipv4_loopback_turns up now (Suc n) s =
     (case lo_take s of
        (None, s1) \<Rightarrow> (False, s1)
      | (Some (nb, r), s1) \<Rightarrow>
          ipv4_loopback_turns up now n (ipv4_input up now s1 r (netbuf_data nb)))"

definition ipv4_loopback_service :: "(ip_up \<Rightarrow> 'a ip_state_scheme \<Rightarrow> 'a ip_state_scheme) \<Rightarrow> u64
    \<Rightarrow> 'a ip_state_scheme \<Rightarrow> bool \<times> 'a ip_state_scheme" where
  "ipv4_loopback_service up now s = ipv4_loopback_turns up now IP_LO_BATCH s"

section \<open>Output\<close>

definition ipv4_fields :: "nat \<Rightarrow> u16 \<Rightarrow> u16 \<Rightarrow> u8 \<Rightarrow> u16 \<Rightarrow> u32 \<Rightarrow> u32 \<Rightarrow> bytes" where
  "ipv4_fields len ident frag proto csum src dst =
     [0x45, 0] @ st16 (htons (of_nat len)) @ st16 (htons ident) @ st16 (htons frag) @ [IP_TTL, proto]
     @ st16 csum @ st32 src @ st32 dst"

definition ipv4_header :: "nat \<Rightarrow> u16 \<Rightarrow> u16 \<Rightarrow> u8 \<Rightarrow> u32 \<Rightarrow> u32 \<Rightarrow> bytes" where
  "ipv4_header len ident frag proto src dst =
     ipv4_fields len ident frag proto (net_checksum (ipv4_fields len ident frag proto 0 src dst) 0) src dst"

definition ipv4_send :: "(nif_ref \<Rightarrow> bytes \<Rightarrow> int) \<Rightarrow> (ip_up \<Rightarrow> 'a ip_state_scheme \<Rightarrow> 'a ip_state_scheme) \<Rightarrow> u64
    \<Rightarrow> 'a ip_state_scheme \<Rightarrow> nif_ref \<Rightarrow> netbuf \<Rightarrow> u32 \<Rightarrow> u32 \<Rightarrow> u8 \<Rightarrow> u16 \<Rightarrow> u16 \<Rightarrow> u32
    \<Rightarrow> int \<times> 'a ip_state_scheme" where
  "ipv4_send drv up now s r nb src dst proto ident frag next_hop =
     (case netbuf_push nb IP_HLEN of
        None \<Rightarrow> (- ENOBUFS, s)
      | Some nb1 \<Rightarrow>
          let nif = get_nif s r;
              src1 = (if src \<noteq> 0 then src else ipv4_source nif dst);
              nb2 = netbuf_store nb1 (nb_off nb1) (ipv4_header (nb_len nb1) ident frag proto src1 dst)
          in if ipv4_stays_here nif dst then ipv4_loopback_queue s r nb2
             else
               let s1 = (if dst = IP_BROADCAST \<and> configured nif
                         then ipv4_input up now s r (netbuf_data nb2) else s)
               in arp_output drv now s1 r nb2 next_hop)"

definition ipv4_output :: "(nif_ref \<Rightarrow> bytes \<Rightarrow> int) \<Rightarrow> (ip_up \<Rightarrow> 'a ip_state_scheme \<Rightarrow> 'a ip_state_scheme) \<Rightarrow> u64
    \<Rightarrow> 'a ip_state_scheme \<Rightarrow> nif_ref option \<Rightarrow> netbuf \<Rightarrow> u32 \<Rightarrow> u32 \<Rightarrow> u8 \<Rightarrow> int \<times> 'a ip_state_scheme" where
  "ipv4_output drv up now s nif nb src dst proto =
     (let nif1 = (if nif = None then ipv4_route s dst else nif);
          next_hop = (case nif1 of None \<Rightarrow> 0 | Some r \<Rightarrow> ipv4_next_hop (get_nif s r) dst)
      in if next_hop = 0 then (- ENETUNREACH, s)
         else ipv4_send drv up now (s\<lparr>ip_next_id := ip_next_id s + 1\<rparr>) (the nif1) nb src dst proto
                (ip_next_id s) 0 next_hop)"

text \<open>The loop of \<open>ipv4_output_flat\<close> from offset \<open>off\<close> on.\<close>

function ipv4_flat_loop :: "(nif_ref \<Rightarrow> bytes \<Rightarrow> int) \<Rightarrow> (ip_up \<Rightarrow> 'a ip_state_scheme \<Rightarrow> 'a ip_state_scheme)
    \<Rightarrow> u64 \<Rightarrow> nif_ref \<Rightarrow> bytes \<Rightarrow> u32 \<Rightarrow> u32 \<Rightarrow> u8 \<Rightarrow> u16 \<Rightarrow> u32 \<Rightarrow> nat \<Rightarrow> 'a ip_state_scheme
    \<Rightarrow> int \<times> 'a ip_state_scheme" where
  "ipv4_flat_loop drv up now r payload src dst proto ident next_hop off s =
     (if off < length payload \<or> off = 0 then
        let len = length payload;
            chunk = (if len - off < IP_FRAG_CHUNK then len - off else IP_FRAG_CHUNK);
            mf = (off + chunk < len)
        in (case take_netbuf s of
              (None, s1) \<Rightarrow> (- ENOBUFS, s1)
            | (Some nb, s1) \<Rightarrow>
                let (at, nb1) = the (netbuf_put nb chunk);
                    nb2 = netbuf_store nb1 at (take chunk (drop off payload));
                    frag = of_nat (off div 8) OR (if mf then IP_FLAG_MF else 0);
                    (err, s2) = ipv4_send drv up now s1 r nb2 src dst proto ident frag next_hop
                in if err \<noteq> 0 then (err, s2)
                   else if \<not> mf then (0, s2)
                   else ipv4_flat_loop drv up now r payload src dst proto ident next_hop
                          (off + IP_FRAG_CHUNK) s2)
      else (0, s))"
  by pat_completeness auto
termination
  by (relation "measure (\<lambda>(drv, up, now, r, payload, src, dst, proto, ident, hop, off, s). length payload - off)")
     (auto split: if_splits)

declare ipv4_flat_loop.simps [simp del]

definition ipv4_output_flat :: "(nif_ref \<Rightarrow> bytes \<Rightarrow> int) \<Rightarrow> (ip_up \<Rightarrow> 'a ip_state_scheme \<Rightarrow> 'a ip_state_scheme)
    \<Rightarrow> u64 \<Rightarrow> 'a ip_state_scheme \<Rightarrow> nif_ref option \<Rightarrow> bytes \<Rightarrow> u32 \<Rightarrow> u32 \<Rightarrow> u8 \<Rightarrow> int \<times> 'a ip_state_scheme" where
  "ipv4_output_flat drv up now s nif payload src dst proto =
     (if length payload > IP_MAX_PAYLOAD then (- EMSGSIZE, s)
      else
        let nif1 = (if nif = None then ipv4_route s dst else nif);
            next_hop = (case nif1 of None \<Rightarrow> 0 | Some r \<Rightarrow> ipv4_next_hop (get_nif s r) dst)
        in if next_hop = 0 then (- ENETUNREACH, s)
           else ipv4_flat_loop drv up now (the nif1) payload src dst proto (ip_next_id s) next_hop 0
                  (s\<lparr>ip_next_id := ip_next_id s + 1\<rparr>))"

section \<open>Headers\<close>

lemma length_ipv4_fields [simp]: "length (ipv4_fields len ident frag proto c src dst) = IP_HLEN"
  by (simp add: ipv4_fields_def)

lemma length_ipv4_header [simp]: "length (ipv4_header len ident frag proto src dst) = IP_HLEN"
  by (simp add: ipv4_header_def)

lemma st16_zero: "sum16 (st16 0) = 0"
  by (simp add: st16_def)

lemma sum16_ipv4_fields:
  "sum16 (ipv4_fields len ident frag proto c src dst) =
   sum16 (ipv4_fields len ident frag proto 0 src dst) + unat (htons c)"
proof -
  let ?A = "[0x45, 0] @ st16 (htons (of_nat len)) @ st16 (htons ident) @ st16 (htons frag) @ [IP_TTL, proto]"
  have "sum16 (ipv4_fields len ident frag proto d src dst) =
      sum16 ?A + (sum16 (st16 d) + sum16 (st32 src @ st32 dst))" for d
  proof -
    have "ipv4_fields len ident frag proto d src dst = ?A @ st16 d @ st32 src @ st32 dst"
      by (simp add: ipv4_fields_def)
    moreover have "even (length ?A)" "even (length (st16 d))" by simp_all
    ultimately show ?thesis by (simp only: sum16_append)
  qed
  moreover have "sum16 (st16 c) = unat (htons c)" using sum16_st16 [of "htons c"] by simp
  ultimately show ?thesis by (simp add: st16_zero)
qed

lemma ipv4_header_checksum: "net_checksum (ipv4_header len ident frag proto src dst) 0 = 0"
proof -
  let ?f = "ipv4_fields len ident frag proto 0 src dst"
  have bound: "sum16 bs < 2 ^ 32" if "length bs = IP_HLEN" for bs
    using sum16_bound [of bs] that by simp
  have h: "sum16 (ipv4_header len ident frag proto src dst) = sum16 ?f + unat (htons (net_checksum ?f 0))"
    unfolding ipv4_header_def by (rule sum16_ipv4_fields)
  have b: "unat (0 :: u32) + sum16 bs < 2 ^ 32" if "length bs = IP_HLEN" for bs
    using bound [OF that] by simp
  have c: "(sum16 ?f + unat (htons (net_checksum ?f 0))) mod 65535 = 0"
    "0 < sum16 ?f + unat (htons (net_checksum ?f 0))"
    using net_checksum_complement [of 0 ?f] b [of ?f] by simp_all
  show ?thesis
    using net_checksum_zero [of 0 "ipv4_header len ident frag proto src dst"]
      b [of "ipv4_header len ident frag proto src dst"] c by (simp add: h)
qed

lemma hdr_of_header:
  "hdr_of (ipv4_header len ident frag proto src dst @ pl) =
   \<lparr>ver_ihl = 0x45, tos = 0, total_len = htons (of_nat len), ip_id = htons ident, ip_frag_off = htons frag,
    ttl = IP_TTL, ip_proto = proto,
    ip_checksum = net_checksum (ipv4_fields len ident frag proto 0 src dst) 0, ip_src = src, ip_dst = dst\<rparr>"
  by (simp add: hdr_of_def ipv4_header_def ipv4_fields_def wire_simps)

lemma ipv4_accepts_header:
  assumes "IP_HLEN + length pl < 65536"
  shows "ipv4_accepts nif (ipv4_header (IP_HLEN + length pl) ident frag proto src dst @ pl) =
    (if ipv4_is_ours nif dst then Some (IP_HLEN, IP_HLEN + length pl) else None)"
proof -
  let ?h = "ipv4_header (IP_HLEN + length pl) ident frag proto src dst"
  have v: "unat ((0x45 :: u8) AND 0x0F) * 4 = IP_HLEN" "drop_bit 4 (0x45 :: u8) = 4" by code_simp+
  have "unat (of_nat (IP_HLEN + length pl) :: u16) = IP_HLEN + length pl"
    using assms by (intro unat_of_nat_small) simp
  then have t: "unat (htons (total_len (hdr_of (?h @ pl)))) = IP_HLEN + length pl"
    by (simp add: hdr_of_header)
  have s: "ver_ihl (hdr_of (?h @ pl)) = 0x45" "ip_dst (hdr_of (?h @ pl)) = dst"
    by (simp_all add: hdr_of_header)
  have tk: "take IP_HLEN (?h @ pl) = ?h" by simp
  show ?thesis
    unfolding ipv4_accepts_def Let_def s v t tk ipv4_header_checksum by simp
qed

section \<open>Fragment fields\<close>

lemma frag_bits:
  assumes "n < 8192"
  shows "(of_nat n OR (if mf then 0x2000 else 0) :: u16) AND 0x1FFF = of_nat n"
    and "(of_nat n OR (if mf then 0x2000 else 0) :: u16) AND 0x2000 = (if mf then 0x2000 else 0)"
proof -
  have hi: "k < 13" if "bit n k" for k
  proof -
    have "take_bit 13 n = n" using assms by (intro take_bit_nat_eq_self) simp
    with that show ?thesis by (metis bit_take_bit_iff)
  qed
  have f: "bit (0x2000 :: u16) k \<longleftrightarrow> k = 13" for k
  proof -
    have "(0x2000 :: u16) = 2 ^ 13" by simp
    then show ?thesis by (simp only: bit_exp_iff) auto
  qed
  define c where "c = (0x2000 :: u16)"
  have fc: "bit c k \<longleftrightarrow> k = 13" for k unfolding c_def by (rule f)
  have m: "(0x1FFF :: u16) = mask 13" by (simp add: mask_numeral)
  show "(of_nat n OR (if mf then 0x2000 else 0) :: u16) AND 0x1FFF = of_nat n"
    unfolding m c_def [symmetric] by (rule bit_word_eqI) (auto simp: bit_simps fc dest: hi)
  show "(of_nat n OR (if mf then 0x2000 else 0) :: u16) AND 0x2000 = (if mf then 0x2000 else 0)"
    unfolding c_def [symmetric] by (rule bit_word_eqI) (auto simp: bit_simps fc dest: hi)
qed

lemma frag_word_zero:
  assumes "n < 8192"
  shows "(of_nat n OR (if mf then 0x2000 else 0) :: u16) AND (0x2000 OR 0x1FFF) = 0 \<longleftrightarrow> n = 0 \<and> \<not> mf"
proof -
  let ?w = "of_nat n OR (if mf then 0x2000 else 0) :: u16"
  have "?w AND (0x2000 OR 0x1FFF) = (?w AND 0x2000) OR (?w AND 0x1FFF)"
    by (rule bit.conj_disj_distrib)
  also have "\<dots> = (if mf then 0x2000 else 0) OR of_nat n" by (simp only: frag_bits [OF assms])
  finally have eq: "?w AND (0x2000 OR 0x1FFF) = (if mf then 0x2000 else 0) OR of_nat n" .
  have "unat (of_nat n :: u16) = n" using assms by (intro unat_of_nat_small) simp
  then have "of_nat n = (0 :: u16) \<Longrightarrow> n = 0" by simp
  then have z: "of_nat n = (0 :: u16) \<longleftrightarrow> n = 0" by (cases "n = 0") auto
  have "a OR b = 0 \<longleftrightarrow> a = 0 \<and> b = 0" for a b :: u16
    by (auto simp: bit_eq_iff bit_or_iff)
  then show ?thesis unfolding eq z [symmetric] by simp
qed

section \<open>The loopback queue as a bounded queue\<close>

definition lo_inv :: "'a ip_state_scheme \<Rightarrow> bool" where
  "lo_inv s \<longleftrightarrow> length (lo_queue s) = IP_LO_QUEUE \<and> lo_head s < IP_LO_QUEUE \<and> lo_count s \<le> IP_LO_QUEUE
     \<and> None \<notin> set (ring_slice (lo_queue s) (lo_head s) (lo_count s))"

definition lo_contents :: "'a ip_state_scheme \<Rightarrow> (netbuf \<times> nif_ref) list" where
  "lo_contents s = map the (ring_slice (lo_queue s) (lo_head s) (lo_count s))"

lemma length_lo_contents [simp]: "length (lo_contents s) = lo_count s"
  by (simp add: lo_contents_def)

lemma ring_put_single: "at < length buf \<Longrightarrow> ring_put buf at [x] = buf[at := x]"
  by (rule nth_equalityI) (auto simp: ring_put_nth nth_list_update)

lemma ring_slice_snoc:
  assumes "at < length buf" and "m < length buf"
  shows "ring_slice (buf[(at + m) mod length buf := x]) at (Suc m) = ring_slice buf at m @ [x]"
proof -
  have "(at + m) mod length buf < length buf" using assms(1) by (intro mod_less_divisor) linarith
  then have "buf[(at + m) mod length buf := x] = ring_put buf ((at + m) mod length buf) [x]"
    by (simp add: ring_put_single)
  with ring_slice_put [of at buf m "[x]"] assms show ?thesis by simp
qed

lemma ring_slice_Cons:
  assumes "at < length buf"
  shows "ring_slice buf at (Suc m) = buf ! at # ring_slice buf ((at + 1) mod length buf) m"
proof -
  have "ring_slice buf at 1 = [buf ! at]" using assms by (simp add: ring_slice_def)
  with ring_slice_add [of buf at 1 m] show ?thesis by simp
qed

lemma lo_queue_spec:
  assumes "lo_inv s" and "lo_count s < IP_LO_QUEUE"
  shows "fst (ipv4_loopback_queue s r nb) = 0" and "lo_inv (snd (ipv4_loopback_queue s r nb))"
    and "lo_contents (snd (ipv4_loopback_queue s r nb)) = lo_contents s @ [(nb, r)]"
    and "lo_count (snd (ipv4_loopback_queue s r nb)) = Suc (lo_count s)"
proof -
  have q: "length (lo_queue s) = IP_LO_QUEUE" "lo_head s < IP_LO_QUEUE" using assms(1) by (auto simp: lo_inv_def)
  have r: "ring_slice ((lo_queue s)[(lo_head s + lo_count s) mod IP_LO_QUEUE := x]) (lo_head s) (Suc (lo_count s))
      = ring_slice (lo_queue s) (lo_head s) (lo_count s) @ [x]" for x
    using ring_slice_snoc [of "lo_head s" "lo_queue s" "lo_count s" x] q assms(2) by simp
  show "fst (ipv4_loopback_queue s r nb) = 0"
    "lo_contents (snd (ipv4_loopback_queue s r nb)) = lo_contents s @ [(nb, r)]"
    "lo_count (snd (ipv4_loopback_queue s r nb)) = Suc (lo_count s)"
    using assms(2) by (simp_all add: ipv4_loopback_queue_def net_kick_def lo_contents_def r)
  show "lo_inv (snd (ipv4_loopback_queue s r nb))"
    using assms by (simp add: ipv4_loopback_queue_def net_kick_def lo_inv_def r)
qed

lemma lo_take_spec:
  assumes "lo_inv s" and "lo_contents s = p # ps"
  shows "\<exists>s'. lo_take s = (Some p, s') \<and> lo_inv s' \<and> lo_contents s' = ps
    \<and> s' = s\<lparr>lo_head := (lo_head s + 1) mod IP_LO_QUEUE, lo_count := lo_count s - 1\<rparr>"
proof -
  have q: "length (lo_queue s) = IP_LO_QUEUE" "lo_head s < IP_LO_QUEUE" using assms(1) by (auto simp: lo_inv_def)
  obtain m where m: "lo_count s = Suc m" using length_lo_contents [of s] assms(2) by (cases "lo_count s") auto
  let ?s = "s\<lparr>lo_head := (lo_head s + 1) mod IP_LO_QUEUE, lo_count := m\<rparr>"
  have r: "ring_slice (lo_queue s) (lo_head s) (Suc m) =
      lo_queue s ! lo_head s # ring_slice (lo_queue s) ((lo_head s + 1) mod IP_LO_QUEUE) m"
    using ring_slice_Cons [of "lo_head s" "lo_queue s" m] q by simp
  have n: "lo_queue s ! lo_head s \<noteq> None" "None \<notin> set (ring_slice (lo_queue s) ((lo_head s + 1) mod IP_LO_QUEUE) m)"
    using assms(1) unfolding lo_inv_def m r by (metis list.set_intros(1), metis list.set_intros(2))
  have c: "the (lo_queue s ! lo_head s) = p" "lo_contents ?s = ps"
    using assms(2) by (auto simp: lo_contents_def m r)
  have "lo_take s = (Some p, ?s)" using n(1) c(1) by (auto simp: lo_take_def m)
  moreover have "lo_inv ?s" using assms(1) n(2) by (simp add: lo_inv_def m)
  ultimately show ?thesis using c(2) by (simp add: m)
qed

lemma lo_take_empty: "lo_contents s = [] \<Longrightarrow> lo_take s = (None, s)"
  using length_lo_contents [of s] by (simp add: lo_take_def)

text \<open>Queueing and taking several packets one after the other.\<close>

fun lo_push :: "'a ip_state_scheme \<Rightarrow> (netbuf \<times> nif_ref) list \<Rightarrow> 'a ip_state_scheme \<times> nat" where
  "lo_push s [] = (s, 0)"
| "lo_push s ((nb, r) # ps) =
     (case ipv4_loopback_queue s r nb of
        (err, s1) \<Rightarrow> if err \<noteq> 0 then (s1, 0) else (let (s2, n) = lo_push s1 ps in (s2, Suc n)))"

fun lo_pop :: "'a ip_state_scheme \<Rightarrow> nat \<Rightarrow> 'a ip_state_scheme \<times> (netbuf \<times> nif_ref) list" where
  "lo_pop s 0 = (s, [])"
| "lo_pop s (Suc k) =
     (case lo_take s of (None, s1) \<Rightarrow> (s1, [])
      | (Some p, s1) \<Rightarrow> (let (s2, ps) = lo_pop s1 k in (s2, p # ps)))"

lemma lo_push_spec:
  "lo_inv s \<Longrightarrow> lo_inv (fst (lo_push s ps)) \<and> snd (lo_push s ps) = min (length ps) (IP_LO_QUEUE - lo_count s)
    \<and> lo_contents (fst (lo_push s ps)) = lo_contents s @ take (snd (lo_push s ps)) ps"
proof (induction s ps rule: lo_push.induct)
  case (2 s nb r ps)
  show ?case
  proof (cases "lo_count s < IP_LO_QUEUE")
    case True
    obtain s1 where q: "ipv4_loopback_queue s r nb = (0, s1)" "lo_inv s1" "lo_contents s1 = lo_contents s @ [(nb, r)]"
      "lo_count s1 = Suc (lo_count s)"
      using lo_queue_spec [OF "2.prems" True, of r nb] by (cases "ipv4_loopback_queue s r nb") auto
    obtain s2 n where p: "lo_push s1 ps = (s2, n)" by fastforce
    from "2.IH" [OF q(1) [symmetric] _ q(2)] p q True show ?thesis by (auto simp: min_def)
  next
    case False
    then have "ipv4_loopback_queue s r nb = (- 105, s)" by (simp add: ipv4_loopback_queue_def)
    with False "2.prems" show ?thesis by simp
  qed
qed simp

lemma lo_pop_spec:
  "lo_inv s \<Longrightarrow> lo_inv (fst (lo_pop s k)) \<and> snd (lo_pop s k) = take k (lo_contents s)
    \<and> lo_contents (fst (lo_pop s k)) = drop k (lo_contents s)"
proof (induction k arbitrary: s)
  case (Suc k)
  show ?case
  proof (cases "lo_contents s")
    case Nil
    with Suc.prems show ?thesis by (simp add: lo_take_empty)
  next
    case (Cons p ps)
    then obtain s1 where t: "lo_take s = (Some p, s1)" "lo_inv s1" "lo_contents s1 = ps"
      using lo_take_spec [OF Suc.prems Cons] by blast
    obtain s2 qs where "lo_pop s1 k = (s2, qs)" by fastforce
    with Suc.IH [OF t(2)] t Cons show ?thesis by simp
  qed
qed simp

interpretation lo_q: bounded_fifo "lo_inv :: ip_state \<Rightarrow> bool" lo_contents IP_LO_QUEUE lo_push lo_pop
  by unfold_locales (simp_all add: lo_push_spec lo_pop_spec, simp add: lo_inv_def)

section \<open>Sending to this machine\<close>

text \<open>The pieces \<open>ipv4_output_flat\<close> cuts a payload into: offset, more-fragments flag, bytes.\<close>

function flat_pieces :: "bytes \<Rightarrow> nat \<Rightarrow> (nat \<times> bool \<times> bytes) list" where
  "flat_pieces P off =
     (if off + IP_FRAG_CHUNK < length P
      then (off, True, take IP_FRAG_CHUNK (drop off P)) # flat_pieces P (off + IP_FRAG_CHUNK)
      else [(off, False, drop off P)])"
  by pat_completeness auto
termination
  by (relation "measure (\<lambda>(P, off). length P - off)") auto

declare flat_pieces.simps [simp del]

lemma flat_pieces_length: "length (flat_pieces P off) \<le> (length P - off) div IP_FRAG_CHUNK + 1"
proof (induction P off rule: flat_pieces.induct)
  case (1 P off)
  show ?case
  proof (cases "off + IP_FRAG_CHUNK < length P")
    case True
    define a where "a = length P - (off + IP_FRAG_CHUNK)"
    have "length P - off = a + IP_FRAG_CHUNK" using True by (simp add: a_def)
    then have "(length P - off) div IP_FRAG_CHUNK = (length P - (off + IP_FRAG_CHUNK)) div IP_FRAG_CHUNK + 1"
      unfolding a_def [symmetric] by simp
    with 1 True show ?thesis by (simp add: flat_pieces.simps [of P off])
  qed (simp add: flat_pieces.simps [of P off])
qed

definition frag_word :: "nat \<Rightarrow> bool \<Rightarrow> u16" where
  "frag_word off mf = of_nat (off div 8) OR (if mf then IP_FLAG_MF else 0)"

definition ip_packet :: "u16 \<Rightarrow> u8 \<Rightarrow> u32 \<Rightarrow> u32 \<Rightarrow> nat \<times> bool \<times> bytes \<Rightarrow> bytes" where
  "ip_packet ident proto src dst = (\<lambda>(off, mf, c).
     ipv4_header (IP_HLEN + length c) ident (frag_word off mf) proto src dst @ c)"

definition mem_good :: "nat \<Rightarrow> nat \<Rightarrow> bytes option list \<Rightarrow> bool" where
  "mem_good n sz ms \<longleftrightarrow> n \<le> length ms \<and> (\<forall>m \<in> set ms. \<exists>j. m = Some j \<and> length j = sz)"

lemma mem_good_Cons:
  assumes "mem_good (Suc n) sz ms"
  obtains j ms' where "ms = Some j # ms'" "length j = sz" "mem_good n sz ms'"
  using assms by (cases ms) (auto simp: mem_good_def)

text \<open>Nothing but the queue changes when a packet is queued for this machine.\<close>

definition same_net :: "'a ip_state_scheme \<Rightarrow> 'a ip_state_scheme \<Rightarrow> bool" where
  "same_net s t \<longleftrightarrow> ip_frags t = ip_frags s \<and> frag_mem t = frag_mem s \<and> netifs t = netifs s \<and> netif_lo t = netif_lo s"

lemma same_net_refl [simp]: "same_net s s"
  by (simp add: same_net_def)

lemma same_net_trans: "same_net s t \<Longrightarrow> same_net t u \<Longrightarrow> same_net s u"
  by (simp add: same_net_def)

lemma same_net_nif: "same_net s t \<Longrightarrow> get_nif t r = get_nif s r"
  by (simp add: same_net_def get_nif_def split: nif_ref.split)

lemma lo_queue_same: "same_net s (snd (ipv4_loopback_queue s r nb))"
  by (simp add: same_net_def ipv4_loopback_queue_def net_kick_def)

lemma ipv4_send_local:
  assumes "netbuf_wf nb" and "IP_HLEN \<le> nb_off nb" and "ipv4_stays_here (get_nif s r) dst"
    and "src1 = (if src \<noteq> 0 then src else ipv4_source (get_nif s r) dst)"
  shows "\<exists>nb'. ipv4_send drv up now s r nb src dst proto ident frag hop = ipv4_loopback_queue s r nb'
    \<and> netbuf_data nb' = ipv4_header (IP_HLEN + length (netbuf_data nb)) ident frag proto src1 dst @ netbuf_data nb"
proof -
  let ?h = "ipv4_header (IP_HLEN + length (netbuf_data nb)) ident frag proto src1 dst"
  obtain nb1 where n: "netbuf_push nb (length ?h) = Some nb1" "nb_len nb1 = nb_len nb + length ?h"
    "netbuf_data (netbuf_store nb1 (nb_off nb1) ?h) = ?h @ netbuf_data nb"
    using netbuf_push_store [OF assms(1), of ?h] assms(2) by auto
  have "nb_len nb1 = IP_HLEN + length (netbuf_data nb)" using n(2) assms(1) by simp
  then have "ipv4_send drv up now s r nb src dst proto ident frag hop =
      ipv4_loopback_queue s r (netbuf_store nb1 (nb_off nb1) ?h)"
    using n(1) assms(3) by (simp add: ipv4_send_def assms(4))
  with n(3) show ?thesis by blast
qed

lemma fresh_netbuf_chunk:
  assumes "length j = NETBUF_SIZE" and "length c \<le> IP_FRAG_CHUNK" and "netbuf_alloc (Some j) = Some nb"
  shows "\<exists>at nb1. netbuf_put nb (length c) = Some (at, nb1) \<and> netbuf_wf (netbuf_store nb1 at c)
    \<and> nb_off (netbuf_store nb1 at c) = NETBUF_HEADROOM \<and> netbuf_data (netbuf_store nb1 at c) = c"
proof -
  have nb: "netbuf_wf nb" "netbuf_data nb = []" "nb_off nb = NETBUF_HEADROOM"
    using netbuf_alloc_wf [OF assms(3) refl assms(1)] by auto
  then have "nb_len nb = 0" using length_netbuf_data [OF nb(1)] by simp
  then have "nb_off nb + nb_len nb + length c \<le> NETBUF_SIZE" using nb(3) assms(2) by simp
  from netbuf_put_store [OF nb(1) this] nb(2,3) show ?thesis by (auto simp: netbuf_store_def)
qed

lemma ipv4_flat_local:
  assumes "lo_inv s" and "ipv4_stays_here (get_nif s r) dst"
    and "src1 = (if src \<noteq> 0 then src else ipv4_source (get_nif s r) dst)"
    and "off < length P \<or> off = 0" and "mem_good (length (flat_pieces P off)) NETBUF_SIZE (nb_mem s)"
    and "lo_count s + length (flat_pieces P off) \<le> IP_LO_QUEUE"
  shows "\<exists>s' qs. ipv4_flat_loop drv up now r P src dst proto ident hop off s = (0, s')
    \<and> lo_inv s' \<and> same_net s s' \<and> lo_contents s' = lo_contents s @ qs
    \<and> map (\<lambda>(nb, q). (netbuf_data nb, q)) qs = map (\<lambda>x. (ip_packet ident proto src1 dst x, r)) (flat_pieces P off)"
  using assms
proof (induction P off arbitrary: s rule: flat_pieces.induct)
  case (1 P off)
  let ?mf = "off + IP_FRAG_CHUNK < length P"
  define c where "c = (if ?mf then take IP_FRAG_CHUNK (drop off P) else drop off P)"
  have chunk: "(if length P - off < IP_FRAG_CHUNK then length P - off else IP_FRAG_CHUNK) = length c"
    "take (length c) (drop off P) = c" "length c \<le> IP_FRAG_CHUNK"
    using "1.prems"(4) by (auto simp: c_def)
  have mf: "off + length c < length P \<longleftrightarrow> ?mf" by (auto simp: c_def)
  have pieces: "flat_pieces P off = (off, ?mf, c) # (if ?mf then flat_pieces P (off + IP_FRAG_CHUNK) else [])"
    by (simp add: flat_pieces.simps [of P off] c_def)
  then obtain n where "length (flat_pieces P off) = Suc n" by simp
  then obtain j ms where j: "nb_mem s = Some j # ms" "length j = NETBUF_SIZE" "mem_good n NETBUF_SIZE ms"
    using "1.prems"(5) by (metis mem_good_Cons)
  obtain nb where nb: "netbuf_alloc (Some j) = Some nb" by (simp add: netbuf_alloc_def)
  define s1 where "s1 = s\<lparr>nb_mem := ms\<rparr>"
  have tk: "take_netbuf s = (Some nb, s1)" using j(1) nb by (simp add: take_netbuf_def s1_def)
  obtain at nb1 where put: "netbuf_put nb (length c) = Some (at, nb1)" "netbuf_wf (netbuf_store nb1 at c)"
    "nb_off (netbuf_store nb1 at c) = NETBUF_HEADROOM" "netbuf_data (netbuf_store nb1 at c) = c"
    using fresh_netbuf_chunk [OF j(2) chunk(3) nb] by blast
  have s1: "lo_inv s1" "lo_contents s1 = lo_contents s" "lo_count s1 = lo_count s" "same_net s s1"
    using "1.prems"(1) by (simp_all add: s1_def lo_inv_def lo_contents_def same_net_def)
  have g1: "get_nif s1 r = get_nif s r" using same_net_nif [OF s1(4)] .
  obtain nb' where snd1: "ipv4_send drv up now s1 r (netbuf_store nb1 at c) src dst proto ident (frag_word off ?mf) hop
      = ipv4_loopback_queue s1 r nb'"
    "netbuf_data nb' = ip_packet ident proto src1 dst (off, ?mf, c)"
    using ipv4_send_local [OF put(2), of s1 r dst src1 src drv up now proto ident "frag_word off ?mf" hop]
      "1.prems"(2,3) unfolding put(3,4) g1 ip_packet_def by auto
  have room: "lo_count s1 < IP_LO_QUEUE" using "1.prems"(6) pieces s1(3) by simp
  define s2 where "s2 = snd (ipv4_loopback_queue s1 r nb')"
  have q: "ipv4_loopback_queue s1 r nb' = (0, s2)" "lo_inv s2" "lo_contents s2 = lo_contents s @ [(nb', r)]"
    "lo_count s2 = Suc (lo_count s)" "same_net s s2"
    using lo_queue_spec [OF s1(1) room, of r nb'] lo_queue_same [of s1 r nb'] s1(2-4) same_net_trans
    unfolding s2_def by (auto simp: prod_eq_iff)
  have m2: "nb_mem s2 = ms" by (simp add: s2_def ipv4_loopback_queue_def net_kick_def s1_def)
  have step: "ipv4_flat_loop drv up now r P src dst proto ident hop off s =
      (if \<not> ?mf then (0, s2) else ipv4_flat_loop drv up now r P src dst proto ident hop (off + IP_FRAG_CHUNK) s2)"
    using "1.prems"(4) tk put(1) snd1(1) q(1)
    by (subst ipv4_flat_loop.simps) (simp add: Let_def chunk mf frag_word_def [symmetric])
  show ?case
  proof (cases ?mf)
    case False
    have "ipv4_flat_loop drv up now r P src dst proto ident hop off s = (0, s2)" using step False by simp
    moreover have "map (\<lambda>(nb, q). (netbuf_data nb, q)) [(nb', r)] =
        map (\<lambda>x. (ip_packet ident proto src1 dst x, r)) (flat_pieces P off)"
      using snd1(2) pieces False by simp
    ultimately show ?thesis using q by blast
  next
    case True
    have hyp: "ipv4_stays_here (get_nif s2 r) dst" "src1 = (if src \<noteq> 0 then src else ipv4_source (get_nif s2 r) dst)"
      "off + IP_FRAG_CHUNK < length P \<or> off + IP_FRAG_CHUNK = 0"
      "mem_good (length (flat_pieces P (off + IP_FRAG_CHUNK))) NETBUF_SIZE (nb_mem s2)"
      "lo_count s2 + length (flat_pieces P (off + IP_FRAG_CHUNK)) \<le> IP_LO_QUEUE"
      using "1.prems" same_net_nif [OF q(5), of r] True j(3) m2 pieces q(4) \<open>length (flat_pieces P off) = Suc n\<close> by auto
    from "1.IH" [OF True q(2) hyp] obtain s' qs where r:
      "ipv4_flat_loop drv up now r P src dst proto ident hop (off + IP_FRAG_CHUNK) s2 = (0, s')"
      "lo_inv s'" "same_net s2 s'" "lo_contents s' = lo_contents s2 @ qs"
      "map (\<lambda>(nb, q). (netbuf_data nb, q)) qs =
        map (\<lambda>x. (ip_packet ident proto src1 dst x, r)) (flat_pieces P (off + IP_FRAG_CHUNK))" by blast
    have "map (\<lambda>(nb, q). (netbuf_data nb, q)) ((nb', r) # qs) =
        map (\<lambda>x. (ip_packet ident proto src1 dst x, r)) (flat_pieces P off)"
      using r(5) snd1(2) pieces True by simp
    moreover have "same_net s s'" using same_net_trans [OF q(5) r(3)] .
    moreover have "lo_contents s' = lo_contents s @ (nb', r) # qs" using r(4) q(3) by simp
    ultimately show ?thesis using r(1,2) step True by auto
  qed
qed

section \<open>Receiving what was sent\<close>

text \<open>What the input does with a packet that is for this machine, whole or a fragment.\<close>

lemma ipv4_input_packet:
  assumes "ipv4_is_ours (get_nif s r) dst" and "off mod 8 = 0" and "off < 65536"
    and "IP_HLEN + length c < 65536"
  shows "off = 0 \<Longrightarrow> \<not> mf \<Longrightarrow>
      ipv4_input up now s r (ip_packet ident proto src dst (off, mf, c)) = ipv4_deliver up s r src dst proto c"
    and "off \<noteq> 0 \<or> mf \<Longrightarrow> frag_mem s = Some j # ms \<Longrightarrow>
      \<exists>ip. hdr_key ip = (src, dst, htons ident, proto) \<and> frag_offset ip = off \<and> frag_more ip = mf
        \<and> ipv4_input up now s r (ip_packet ident proto src dst (off, mf, c)) =
          (case ipv4_reassemble (ip_frags s) ip c now (Some j) of (whole, t) \<Rightarrow>
             (case whole of None \<Rightarrow> s\<lparr>ip_frags := t, frag_mem := ms\<rparr>
              | Some w \<Rightarrow> ipv4_deliver up (s\<lparr>ip_frags := t, frag_mem := ms\<rparr>) r src dst proto w))"
proof -
  let ?p = "ip_packet ident proto src dst (off, mf, c)"
  let ?ip = "hdr_of ?p"
  have acc: "ipv4_accepts (get_nif s r) ?p = Some (IP_HLEN, IP_HLEN + length c)"
    using ipv4_accepts_header [OF assms(4)] assms(1) by (simp add: ip_packet_def)
  have f: "ip_src ?ip = src" "ip_dst ?ip = dst" "ip_proto ?ip = proto" "ip_id ?ip = htons ident"
    "ip_frag_off ?ip = htons (frag_word off mf)"
    by (simp_all add: ip_packet_def hdr_of_header)
  have pl: "take (IP_HLEN + length c - IP_HLEN) (drop IP_HLEN ?p) = c" by (simp add: ip_packet_def)
  have n: "off div 8 < 8192" using assms(3) by simp
  have z: "frag_word off mf AND (IP_FLAG_MF OR IP_FRAG_MASK) = 0 \<longleftrightarrow> off div 8 = 0 \<and> \<not> mf"
    unfolding frag_word_def by (rule frag_word_zero [OF n])
  have o: "off div 8 = 0 \<longleftrightarrow> off = 0" using assms(2) by presburger
  show "ipv4_input up now s r ?p = ipv4_deliver up s r src dst proto c" if "off = 0" "\<not> mf"
    using that unfolding ipv4_input_def acc option.case prod.case Let_def f pl htons_htons z by simp
  have key: "hdr_key ?ip = (src, dst, htons ident, proto)" by (simp add: hdr_key_def f)
  have "unat (of_nat (off div 8) :: u16) = off div 8" using n by (intro unat_of_nat_small) simp
  then have off: "frag_offset ?ip = off" "frag_more ?ip = mf"
    using assms(2) frag_bits [OF n, of mf] by (auto simp: frag_offset_def frag_more_def f frag_word_def)
  show "\<exists>ip. hdr_key ip = (src, dst, htons ident, proto) \<and> frag_offset ip = off \<and> frag_more ip = mf
        \<and> ipv4_input up now s r ?p =
          (case ipv4_reassemble (ip_frags s) ip c now (Some j) of (whole, t) \<Rightarrow>
             (case whole of None \<Rightarrow> s\<lparr>ip_frags := t, frag_mem := ms\<rparr>
              | Some w \<Rightarrow> ipv4_deliver up (s\<lparr>ip_frags := t, frag_mem := ms\<rparr>) r src dst proto w))"
    if "off \<noteq> 0 \<or> mf" "frag_mem s = Some j # ms"
  proof (intro exI [of _ ?ip] conjI key off)
    have "\<not> (off div 8 = 0 \<and> \<not> mf)" using that(1) o by blast
    then show "ipv4_input up now s r ?p =
          (case ipv4_reassemble (ip_frags s) ?ip c now (Some j) of (whole, t) \<Rightarrow>
             (case whole of None \<Rightarrow> s\<lparr>ip_frags := t, frag_mem := ms\<rparr>
              | Some w \<Rightarrow> ipv4_deliver up (s\<lparr>ip_frags := t, frag_mem := ms\<rparr>) r src dst proto w))"
      unfolding ipv4_input_def acc option.case prod.case Let_def f pl htons_htons z that(2) list.case list.sel
      by (simp only: if_False)
  qed
qed

lemma blocks_in_snoc: "blocks_in (ys @ [(ip, bs, now, junk)]) = blocks_in ys \<union> piece_blocks (frag_offset ip) bs"
  by (auto simp: blocks_in_def)

lemma last_in_snoc: "last_in (ys @ [(ip, bs, now, junk)]) \<longleftrightarrow> last_in ys \<or> \<not> frag_more ip"
  by (auto simp: last_in_def)

lemma pieces_of_snoc: "pieces_of P k (ys @ [(ip, bs, now, junk)]) \<longleftrightarrow> pieces_of P k ys \<and> hdr_key ip = k
    \<and> piece P (frag_offset ip) (frag_more ip) bs \<and> length junk = IP_MAX_PAYLOAD"
  by (auto simp: pieces_of_def)

lemma flat_piece_ok:
  assumes "off mod 8 = 0" and "off \<le> length P"
  shows "off + IP_FRAG_CHUNK < length P \<Longrightarrow> piece P off True (take IP_FRAG_CHUNK (drop off P))"
    and "\<not> off + IP_FRAG_CHUNK < length P \<Longrightarrow> piece P off False (drop off P)"
  using assms by (auto simp: piece_def)

text \<open>
  The turns of the loopback service over the fragments from \<open>off\<close> on, the earlier ones being in
  the reassembly table.
\<close>

lemma loopback_turns_fragments:
  assumes "lo_inv s" and "map (\<lambda>(nb, q). (netbuf_data nb, q)) (lo_contents s) =
      map (\<lambda>x. (ip_packet ident proto src dst x, r)) (flat_pieces P off)"
    and "ipv4_is_ours (get_nif s r) dst" and "off mod 8 = 0" and "off < length P" and "0 < off \<or> IP_FRAG_CHUNK < length P"
    and "length P \<le> IP_MAX_PAYLOAD" and "half_built P (src, dst, htons ident, proto) ys (ip_frags s)"
    and "pieces_of P (src, dst, htons ident, proto) ys" and "blocks_in ys = {..<off div 8}" and "\<not> last_in ys"
    and "mem_good (length (flat_pieces P off)) IP_MAX_PAYLOAD (frag_mem s)"
  shows "\<exists>s'. ipv4_loopback_turns up now (length (flat_pieces P off)) s =
    (lo_count (ipv4_deliver up s' r src dst proto P) \<noteq> 0, ipv4_deliver up s' r src dst proto P)"
  using assms
proof (induction P off arbitrary: s ys rule: flat_pieces.induct)
  case (1 P off)
  let ?mf = "off + IP_FRAG_CHUNK < length P" and ?k = "(src, dst, htons ident, proto)"
  define c where "c = (if ?mf then take IP_FRAG_CHUNK (drop off P) else drop off P)"
  have pieces: "flat_pieces P off = (off, ?mf, c) # (if ?mf then flat_pieces P (off + IP_FRAG_CHUNK) else [])"
    by (simp add: flat_pieces.simps [of P off] c_def)
  have pc: "piece P off ?mf c" using flat_piece_ok [OF "1.prems"(4)] "1.prems"(5) by (auto simp: c_def)
  obtain nb qs where q: "lo_contents s = (nb, r) # qs" "netbuf_data nb = ip_packet ident proto src dst (off, ?mf, c)"
    "map (\<lambda>(nb, q). (netbuf_data nb, q)) qs = map (\<lambda>x. (ip_packet ident proto src dst x, r))
        (if ?mf then flat_pieces P (off + IP_FRAG_CHUNK) else [])"
    using "1.prems"(2) pieces by auto
  obtain s1 where s1: "lo_take s = (Some (nb, r), s1)" "lo_inv s1" "lo_contents s1 = qs"
    "s1 = s\<lparr>lo_head := (lo_head s + 1) mod IP_LO_QUEUE, lo_count := lo_count s - 1\<rparr>"
    using lo_take_spec [OF "1.prems"(1) q(1)] by blast
  obtain j ms where j: "frag_mem s = Some j # ms" "length j = IP_MAX_PAYLOAD"
    "mem_good (length (flat_pieces P off) - 1) IP_MAX_PAYLOAD ms"
    using "1.prems"(12) pieces by (metis mem_good_Cons length_Cons diff_Suc_1)
  have e1: "ip_frags s1 = ip_frags s" "frag_mem s1 = frag_mem s" "get_nif s1 r = get_nif s r"
    using s1(4) by (simp_all add: get_nif_def split: nif_ref.split)
  have len: "IP_HLEN + length c < 65536" "off < 65536" using "1.prems"(5,7) by (auto simp: c_def)
  have "off \<noteq> 0 \<or> ?mf" using "1.prems"(6) by auto
  from ipv4_input_packet(2) [OF _ "1.prems"(4) len(2,1) this, where s = s1 and r = r and dst = dst and j = j
      and ms = ms and up = up and now = now and ident = ident and proto = proto and src = src]
  obtain ip where ip: "hdr_key ip = ?k" "frag_offset ip = off" "frag_more ip = ?mf"
    "ipv4_input up now s1 r (netbuf_data nb) =
          (case ipv4_reassemble (ip_frags s) ip c now (Some j) of (whole, t) \<Rightarrow>
             (case whole of None \<Rightarrow> s1\<lparr>ip_frags := t, frag_mem := ms\<rparr>
              | Some w \<Rightarrow> ipv4_deliver up (s1\<lparr>ip_frags := t, frag_mem := ms\<rparr>) r src dst proto w))"
    using "1.prems"(3) e1 j(1) q(2) by auto
  obtain out t where ra: "ipv4_reassemble (ip_frags s) ip c now (Some j) = (out, t)" by fastforce
  define ys' where "ys' = ys @ [(ip, c, now, j)]"
  have po: "pieces_of P ?k ys'" using "1.prems"(9) ip pc j(2) by (simp add: ys'_def pieces_of_snoc)
  have P: "P \<noteq> []" using "1.prems"(5) by auto
  note hb = half_built_step [OF "1.prems"(8) po [unfolded ys'_def] P "1.prems"(7) ra, folded ys'_def]
  have bl: "blocks_in ys' = {..<(off + length c + 7) div 8}"
  proof -
    have "off div 8 \<le> (off + length c + 7) div 8" by (rule div_le_mono) simp
    then have "{..<off div 8} \<union> {off div 8..<(off + length c + 7) div 8} = {..<(off + length c + 7) div 8}"
      by (rule ivl_disj_un_one(2))
    then show ?thesis unfolding ys'_def blocks_in_snoc "1.prems"(10) ip(2) piece_blocks_def .
  qed
  have la: "last_in ys' \<longleftrightarrow> \<not> ?mf" using "1.prems"(11) ip(3) by (simp add: ys'_def last_in_snoc)
  have turn: "ipv4_loopback_turns up now (length (flat_pieces P off)) s =
      ipv4_loopback_turns up now (length (flat_pieces P off) - 1) (ipv4_input up now s1 r (netbuf_data nb))"
    using s1(1) pieces by simp
  show ?case
  proof (cases ?mf)
    case False
    have "off + length c = length P" using False "1.prems"(5) by (simp add: c_def)
    then have "all_there P ys'" using bl la False by (simp add: all_there_def)
    then have "out = Some P" using hb by simp
    then show ?thesis using turn ip(4) ra pieces False by auto
  next
    case True
    have "\<not> all_there P ys'" using la True by (simp add: all_there_def)
    then have o: "out = None" "half_built P ?k ys' t" using hb by auto
    let ?s = "s1\<lparr>ip_frags := t, frag_mem := ms\<rparr>"
    have b2: "blocks_in ys' = {..<(off + IP_FRAG_CHUNK) div 8}"
    proof -
      obtain m where "off = 8 * m" using "1.prems"(4) by (metis mod_0_imp_dvd dvd_def)
      moreover have "length c = IP_FRAG_CHUNK" using True by (simp add: c_def)
      ultimately show ?thesis using bl by simp
    qed
    have "\<exists>s'. ipv4_loopback_turns up now (length (flat_pieces P (off + IP_FRAG_CHUNK))) ?s =
        (lo_count (ipv4_deliver up s' r src dst proto P) \<noteq> 0, ipv4_deliver up s' r src dst proto P)"
    proof (rule "1.IH" [OF True])
      show "lo_inv ?s" using s1(2) by (simp add: lo_inv_def)
      show "map (\<lambda>(nb, q). (netbuf_data nb, q)) (lo_contents ?s) =
          map (\<lambda>x. (ip_packet ident proto src dst x, r)) (flat_pieces P (off + IP_FRAG_CHUNK))"
        using s1(3) q(3) True by (simp add: lo_contents_def)
      have "get_nif ?s r = get_nif s r" using e1(3) by (simp add: get_nif_def split: nif_ref.splits)
      then show "ipv4_is_ours (get_nif ?s r) dst" using "1.prems"(3) by simp
      show "half_built P ?k ys' (ip_frags ?s)" using o(2) by simp
      show "(off + IP_FRAG_CHUNK) mod 8 = 0" using "1.prems"(4) by presburger
      show "mem_good (length (flat_pieces P (off + IP_FRAG_CHUNK))) IP_MAX_PAYLOAD (frag_mem ?s)"
        using j(3) pieces True by simp
      show "\<not> last_in ys'" using la True by simp
    qed (use True "1.prems"(7) po b2 in auto)
    then show ?thesis using turn ip(4) ra o(1) pieces True by simp
  qed
qed

lemma stays_here_ours: "ipv4_stays_here nif dst \<Longrightarrow> ipv4_is_ours nif dst"
  by (auto simp: ipv4_stays_here_def ipv4_is_ours_def)

lemma stays_here_hop: "ipv4_stays_here nif dst \<Longrightarrow> ipv4_next_hop nif dst = dst \<and> dst \<noteq> 0"
  by (auto simp: ipv4_next_hop_def ipv4_stays_here_def IP_LOOPBACK_def)

lemma ipv4_flat_loopback:
  assumes "lo_inv s" and "lo_contents s = []" and "ipv4_stays_here (get_nif s r) dst"
    and "P \<noteq> []" and "length P \<le> IP_MAX_PAYLOAD"
    and "length (frags (ip_frags s)) = IP_FRAG_SLOTS" and "\<forall>f \<in> set (frags (ip_frags s)). \<not> f_used f"
    and "mem_good 45 NETBUF_SIZE (nb_mem s)" and "mem_good 45 IP_MAX_PAYLOAD (frag_mem s)"
    and "src1 = (if src \<noteq> 0 then src else ipv4_source (get_nif s r) dst)"
  shows "\<exists>s1 s2 n. ipv4_output_flat drv up now s (Some r) P src dst proto = (0, s1) \<and> n \<le> 45
    \<and> ipv4_loopback_turns up later n s1 =
        (lo_count (ipv4_deliver up s2 r src1 dst proto P) \<noteq> 0, ipv4_deliver up s2 r src1 dst proto P)"
proof -
  let ?n = "length (flat_pieces P 0)" and ?ident = "ip_next_id s"
  have n: "?n \<le> 45"
  proof -
    have "length P div IP_FRAG_CHUNK \<le> IP_MAX_PAYLOAD div IP_FRAG_CHUNK" using assms(5) by (rule div_le_mono)
    with flat_pieces_length [of P 0] show ?thesis by simp
  qed
  let ?s = "s\<lparr>ip_next_id := ip_next_id s + 1\<rparr>"
  have g: "get_nif ?s r = get_nif s r" by (simp add: get_nif_def split: nif_ref.split)
  have i: "lo_inv ?s" "lo_contents ?s = []" "lo_count ?s = 0"
    using assms(1,2) length_lo_contents [of s] by (simp_all add: lo_inv_def lo_contents_def)
  have mem: "mem_good ?n NETBUF_SIZE (nb_mem ?s)" "mem_good ?n IP_MAX_PAYLOAD (frag_mem ?s)"
    using assms(8,9) n by (auto simp: mem_good_def)
  obtain s1 qs where o: "ipv4_flat_loop drv up now r P src dst proto ?ident dst 0 ?s = (0, s1)"
    "lo_inv s1" "same_net ?s s1" "lo_contents s1 = qs"
    "map (\<lambda>(nb, q). (netbuf_data nb, q)) qs = map (\<lambda>x. (ip_packet ?ident proto src1 dst x, r)) (flat_pieces P 0)"
  proof -
    have "ipv4_stays_here (get_nif ?s r) dst" "src1 = (if src \<noteq> 0 then src else ipv4_source (get_nif ?s r) dst)"
      unfolding g by (rule assms(3), rule assms(10))
    moreover have "0 < length P \<or> 0 = (0::nat)" "lo_count ?s + ?n \<le> IP_LO_QUEUE" using i(3) n by simp_all
    ultimately have "\<exists>s' qs. ipv4_flat_loop drv up now r P src dst proto ?ident dst 0 ?s = (0, s')
      \<and> lo_inv s' \<and> same_net ?s s' \<and> lo_contents s' = lo_contents ?s @ qs
      \<and> map (\<lambda>(nb, q). (netbuf_data nb, q)) qs = map (\<lambda>x. (ip_packet ?ident proto src1 dst x, r)) (flat_pieces P 0)"
      using mem(1) by (intro ipv4_flat_local [OF i(1)])
    then show thesis using that i(2) by auto
  qed
  have out: "ipv4_output_flat drv up now s (Some r) P src dst proto = (0, s1)"
    using assms(5) stays_here_hop [OF assms(3)] o(1) by (simp add: ipv4_output_flat_def Let_def)
  have ours: "ipv4_is_ours (get_nif s1 r) dst"
    using stays_here_ours [OF assms(3)] same_net_nif [OF o(3), of r] g by simp
  have "\<exists>s2. ipv4_loopback_turns up later ?n s1 =
      (lo_count (ipv4_deliver up s2 r src1 dst proto P) \<noteq> 0, ipv4_deliver up s2 r src1 dst proto P)"
  proof (cases "IP_FRAG_CHUNK < length P")
    case True
    have "half_built P (src1, dst, htons ?ident, proto) [] (ip_frags s1)"
      using assms(6,7) o(3) by (simp add: half_built_def same_net_def)
    moreover have "pieces_of P (src1, dst, htons ?ident, proto) []" "blocks_in [] = {..<0 div 8}" "\<not> last_in []"
      by (simp_all add: pieces_of_def blocks_in_def last_in_def)
    moreover have "mem_good ?n IP_MAX_PAYLOAD (frag_mem s1)" using mem(2) o(3) by (simp add: same_net_def)
    moreover have "0 < length P" "0 < (0::nat) \<or> IP_FRAG_CHUNK < length P" using assms(4) True by auto
    ultimately show ?thesis
      using loopback_turns_fragments [OF o(2) o(5) [folded o(4)] ours _ _ _ assms(5)] by simp
  next
    case False
    then have pieces: "flat_pieces P 0 = [(0, False, P)]" by (simp add: flat_pieces.simps)
    then obtain nb where q: "lo_contents s1 = [(nb, r)]" "netbuf_data nb = ip_packet ?ident proto src1 dst (0, False, P)"
      using o(4,5) by auto
    obtain s2 where t: "lo_take s1 = (Some (nb, r), s2)"
      "s2 = s1\<lparr>lo_head := (lo_head s1 + 1) mod IP_LO_QUEUE, lo_count := lo_count s1 - 1\<rparr>"
      using lo_take_spec [OF o(2) q(1)] by blast
    have "get_nif s2 r = get_nif s1 r" using t(2) by (simp add: get_nif_def split: nif_ref.split)
    then have "ipv4_input up later s2 r (netbuf_data nb) = ipv4_deliver up s2 r src1 dst proto P"
      using ipv4_input_packet(1) [of s2 r dst 0 P False] ours assms(5) q(2) by simp
    then show ?thesis using t(1) pieces by auto
  qed
  then show ?thesis using out n by blast
qed

text \<open>C7. A payload of any size up to the largest one IPv4 allows, sent to an address of this
  machine, comes back whole: it is cut into fragments, queued, taken from the queue, checked
  and put together again, and the protocol above gets exactly the bytes that were sent, with
  the addresses they were sent with.\<close>

theorem ipv4_flat_loopback_roundtrip:
  assumes "lo_inv s" and "lo_contents s = []" and "ipv4_stays_here (get_nif s r) dst"
    and "P \<noteq> []" and "length P \<le> IP_MAX_PAYLOAD"
    and "length (frags (ip_frags s)) = IP_FRAG_SLOTS" and "\<forall>f \<in> set (frags (ip_frags s)). \<not> f_used f"
    and "mem_good 45 NETBUF_SIZE (nb_mem s)" and "mem_good 45 IP_MAX_PAYLOAD (frag_mem s)"
    and "src1 = (if src \<noteq> 0 then src else ipv4_source (get_nif s r) dst)"
  shows "\<exists>s1 s2 n. ipv4_output_flat drv up now s (Some r) P src dst proto = (0, s1) \<and> n \<le> 45
    \<and> ipv4_loopback_turns up later n s1 =
        (lo_count (ipv4_deliver up s2 r src1 dst proto P) \<noteq> 0, ipv4_deliver up s2 r src1 dst proto P)"
  using assms by (rule ipv4_flat_loopback)

definition ip_boot :: ip_state where
  "ip_boot = \<lparr>netifs = [], netif_lo = blank_netif, tx_log = [],
     nb_mem = replicate 45 (Some (replicate NETBUF_SIZE 0)), arp_cache = [],
     ip_frags = no_frags, frag_mem = replicate 45 (Some no_junk), ip_next_id = 1,
     lo_queue = replicate IP_LO_QUEUE None, lo_head = 0, lo_count = 0, net_kicked = False\<rparr>"

theorem ipv4_flat_loopback_roundtrip_witness:
  "\<exists>s1 s2 n. ipv4_output_flat (\<lambda>r f. 0) (\<lambda>u t. t\<lparr>ip_next_id := 42\<rparr>) 0 ip_boot (Some Lo)
      (replicate 4000 7) 0 (IP4 127 0 0 1) IP_PROTO_UDP = (0, s1)
    \<and> ipv4_loopback_turns (\<lambda>u t. t\<lparr>ip_next_id := 42\<rparr>) 0 n s1 = (lo_count s2 \<noteq> 0, s2) \<and> ip_next_id s2 = 42"
proof -
  have "IP_LOOPBACK (IP4 127 0 0 1)" by code_simp
  then have here: "ipv4_stays_here (get_nif ip_boot Lo) (IP4 127 0 0 1)" by (simp add: ipv4_stays_here_def)
  have "lo_inv ip_boot" "lo_contents ip_boot = []" by (simp_all add: ip_boot_def lo_inv_def lo_contents_def)
  moreover have "mem_good 45 NETBUF_SIZE (nb_mem ip_boot)" "mem_good 45 IP_MAX_PAYLOAD (frag_mem ip_boot)"
    by (simp_all add: mem_good_def ip_boot_def length_no_junk)
  moreover have "ip_frags ip_boot = no_frags" by (simp add: ip_boot_def)
  moreover have "replicate 4000 (7::u8) \<noteq> []" "length (replicate 4000 (7::u8)) \<le> IP_MAX_PAYLOAD" by simp_all
  ultimately obtain s1 s2 n where
    "ipv4_output_flat (\<lambda>r f. 0) (\<lambda>u t. t\<lparr>ip_next_id := 42\<rparr>) 0 ip_boot (Some Lo)
       (replicate 4000 7) 0 (IP4 127 0 0 1) IP_PROTO_UDP = (0, s1)"
    "ipv4_loopback_turns (\<lambda>u t. t\<lparr>ip_next_id := 42\<rparr>) 0 n s1 =
       (lo_count (ipv4_deliver (\<lambda>u t. t\<lparr>ip_next_id := 42\<rparr>) s2 Lo (ipv4_source (get_nif ip_boot Lo) (IP4 127 0 0 1))
          (IP4 127 0 0 1) IP_PROTO_UDP (replicate 4000 7)) \<noteq> 0,
        ipv4_deliver (\<lambda>u t. t\<lparr>ip_next_id := 42\<rparr>) s2 Lo (ipv4_source (get_nif ip_boot Lo) (IP4 127 0 0 1))
          (IP4 127 0 0 1) IP_PROTO_UDP (replicate 4000 7))"
    using ipv4_flat_loopback_roundtrip [of ip_boot Lo "IP4 127 0 0 1" "replicate 4000 7"
        "ipv4_source (get_nif ip_boot Lo) (IP4 127 0 0 1)" 0 "\<lambda>r f. 0" "\<lambda>u t. t\<lparr>ip_next_id := 42\<rparr>" 0 IP_PROTO_UDP 0]
      here no_frags_boot by auto
  moreover have "ip_next_id (ipv4_deliver (\<lambda>u t. t\<lparr>ip_next_id := 42\<rparr>) s2 Lo a b IP_PROTO_UDP c) = 42" for a b c
    by (simp add: ipv4_deliver_def)
  ultimately show ?thesis by blast
qed

text \<open>C28. Every IPv4 header the kernel builds is one its own input accepts: the version, the lengths
  and the checksum are right, so a packet for this machine is taken, with its payload found where
  it was put.\<close>

theorem ipv4_header_accepted:
  assumes "IP_HLEN + length pl < 65536" and "ipv4_is_ours nif dst"
  shows "ipv4_accepts nif (ipv4_header (IP_HLEN + length pl) ident frag proto src dst @ pl)
      = Some (IP_HLEN, IP_HLEN + length pl)
    \<and> ip_src (hdr_of (ipv4_header (IP_HLEN + length pl) ident frag proto src dst @ pl)) = src
    \<and> ip_dst (hdr_of (ipv4_header (IP_HLEN + length pl) ident frag proto src dst @ pl)) = dst
    \<and> ip_proto (hdr_of (ipv4_header (IP_HLEN + length pl) ident frag proto src dst @ pl)) = proto"
  using ipv4_accepts_header [OF assms(1)] assms(2) by (simp add: hdr_of_header)

theorem ipv4_header_accepted_witness:
  "ipv4_accepts blank_netif (ipv4_header 22 1 0 17 5 IP_BROADCAST @ [1, 2]) = Some (20, 22)"
  using ipv4_header_accepted [of "[1, 2]" blank_netif IP_BROADCAST 1 0 17 5] by (simp add: ipv4_is_ours_def)

end
