(* ===== verification/Udp.thy ===== *)
theory Udp
  imports Ipv4
begin

text \<open>
  UDP, \<open>kernel/src/net/udp.c\<close>, and ICMP, \<open>kernel/src/net/icmp.c\<close>. A handler registered
  for a port is a number; what \<open>udp_input\<close> hands a datagram to is its result. What ICMP
  reports to TCP is a result of \<open>icmp_input\<close>.
\<close>

section \<open>State\<close>

abbreviation (input) UDP_HLEN :: nat where "UDP_HLEN \<equiv> 8"
abbreviation (input) UDP_PORTS_MAX :: nat where "UDP_PORTS_MAX \<equiv> 16"
abbreviation (input) UDP_MAX_PAYLOAD :: nat where "UDP_MAX_PAYLOAD \<equiv> 65507"

record udp_port =
  up_port :: u16
  up_handler :: "nat option"

record udp_state = ip_state +
  udp_ports :: "udp_port list"
  ping_sent_ms :: u64

datatype udp_up =
    To_handler nat nif_ref u32 u16 u32 bytes
  | To_socket u32 u16 u32 u16 bytes

section \<open>UDP\<close>

definition udp_checksum :: "u32 \<Rightarrow> u32 \<Rightarrow> bytes \<Rightarrow> u16" where
  "udp_checksum src dst udp = net_checksum udp (ipv4_pseudo_sum src dst IP_PROTO_UDP (length udp))"

definition udp_fields :: "u16 \<Rightarrow> u16 \<Rightarrow> nat \<Rightarrow> u16 \<Rightarrow> bytes" where
  "udp_fields src_port dst_port len csum =
     st16 (htons src_port) @ st16 (htons dst_port) @ st16 (htons (of_nat len)) @ st16 csum"

text \<open>The header in front of \<open>data\<close>; a checksum of 0 is sent as \<open>0xFFFF\<close>.\<close>

definition udp_header :: "u32 \<Rightarrow> u16 \<Rightarrow> u32 \<Rightarrow> u16 \<Rightarrow> bytes \<Rightarrow> bytes" where
  "udp_header src src_port dst dst_port data =
     (let len = UDP_HLEN + length data;
          c = udp_checksum src dst (udp_fields src_port dst_port len 0 @ data)
      in udp_fields src_port dst_port len (if c = 0 then 0xFFFF else c))"

fun udp_find_handler :: "udp_port list \<Rightarrow> u16 \<Rightarrow> nat option" where
  "udp_find_handler [] port = None"
| "udp_find_handler (p # ps) port =
     (if up_handler p \<noteq> None \<and> up_port p = port then up_handler p else udp_find_handler ps port)"

definition udp_input :: "'a udp_state_scheme \<Rightarrow> nif_ref \<Rightarrow> u32 \<Rightarrow> u32 \<Rightarrow> bytes \<Rightarrow> udp_up option" where
  "udp_input s r src dst data =
     (if length data < UDP_HLEN then None
      else
        let ulen = unat (htons (ld16 data 4))
        in if ulen < UDP_HLEN \<or> ulen > length data then None
           else if ld16 data 6 \<noteq> 0 \<and> udp_checksum src dst (take ulen data) \<noteq> 0 then None
           else
             let port = htons (ld16 data 2);
                 payload = take (ulen - UDP_HLEN) (drop UDP_HLEN data)
             in (case udp_find_handler (udp_ports s) port of
                   Some h \<Rightarrow> Some (To_handler h r src (htons (ld16 data 0)) dst payload)
                 | None \<Rightarrow> Some (To_socket src (htons (ld16 data 0)) dst port payload)))"


definition udp_output :: "(nif_ref \<Rightarrow> bytes \<Rightarrow> int) \<Rightarrow> (ip_up \<Rightarrow> 'a udp_state_scheme \<Rightarrow> 'a udp_state_scheme) \<Rightarrow> u64
    \<Rightarrow> 'a udp_state_scheme \<Rightarrow> nif_ref option \<Rightarrow> netbuf \<Rightarrow> u32 \<Rightarrow> u16 \<Rightarrow> u32 \<Rightarrow> u16 \<Rightarrow> int \<times> 'a udp_state_scheme" where
  "udp_output drv up now s nif nb src src_port dst dst_port =
     (case (if nif = None then ipv4_route s dst else nif) of
        None \<Rightarrow> (- ENETUNREACH, s)
      | Some r \<Rightarrow>
          (case netbuf_push nb UDP_HLEN of
             None \<Rightarrow> (- ENOBUFS, s)
           | Some nb1 \<Rightarrow>
               let src1 = (if src = 0 then ipv4_source (get_nif s r) dst else src);
                   nb2 = netbuf_store nb1 (nb_off nb1) (udp_header src1 src_port dst dst_port (netbuf_data nb))
               in ipv4_output drv up now s (Some r) nb2 src1 dst IP_PROTO_UDP))"

text \<open>\<open>buf_ok\<close> is the success of \<open>kmalloc\<close> for the flat copy.\<close>

definition udp_output_flat :: "(nif_ref \<Rightarrow> bytes \<Rightarrow> int) \<Rightarrow> (ip_up \<Rightarrow> 'a udp_state_scheme \<Rightarrow> 'a udp_state_scheme) \<Rightarrow> u64
    \<Rightarrow> bool \<Rightarrow> 'a udp_state_scheme \<Rightarrow> nif_ref option \<Rightarrow> bytes \<Rightarrow> u32 \<Rightarrow> u16 \<Rightarrow> u32 \<Rightarrow> u16 \<Rightarrow> int \<times> 'a udp_state_scheme" where
  "udp_output_flat drv up now buf_ok s nif data src src_port dst dst_port =
     (case (if nif = None then ipv4_route s dst else nif) of
        None \<Rightarrow> (- ENETUNREACH, s)
      | Some r \<Rightarrow>
          if length data > UDP_MAX_PAYLOAD then (- EMSGSIZE, s)
          else
            let src1 = (if src = 0 then ipv4_source (get_nif s r) dst else src)
            in if \<not> buf_ok then (- ENOMEM, s)
               else ipv4_output_flat drv up now s (Some r)
                      (udp_header src1 src_port dst dst_port data @ data) src1 dst IP_PROTO_UDP)"

fun udp_claim :: "udp_port list \<Rightarrow> u16 \<Rightarrow> nat \<Rightarrow> udp_port list option" where
  "udp_claim [] port h = None"
| "udp_claim (p # ps) port h =
     (if up_handler p = None then Some (p\<lparr>up_port := port, up_handler := Some h\<rparr> # ps)
      else map_option ((#) p) (udp_claim ps port h))"


section \<open>ICMP\<close>

abbreviation (input) ICMP_ECHO_REQUEST :: u8 where "ICMP_ECHO_REQUEST \<equiv> 8"
abbreviation (input) ICMP_PING_ID :: u16 where "ICMP_PING_ID \<equiv> 0xB1ED"
abbreviation (input) ICMP_PING_DATA :: nat where "ICMP_PING_DATA \<equiv> 32"
abbreviation (input) ICMP_HLEN :: nat where "ICMP_HLEN \<equiv> 8"

definition icmp_fields :: "u8 \<Rightarrow> u16 \<Rightarrow> u16 \<Rightarrow> u16 \<Rightarrow> bytes \<Rightarrow> bytes" where
  "icmp_fields ty csum ident sq data = [ty, 0] @ st16 csum @ st16 ident @ st16 sq @ data"

definition icmp_message :: "u8 \<Rightarrow> u16 \<Rightarrow> u16 \<Rightarrow> bytes \<Rightarrow> bytes" where
  "icmp_message ty ident sq data =
     icmp_fields ty (net_checksum (icmp_fields ty 0 ident sq data) 0) ident sq data"

text \<open>\<open>data\<close> is \<open>None\<close> for a null pointer, which fills the message with \<open>len\<close> zeros.\<close>

definition icmp_send :: "(nif_ref \<Rightarrow> bytes \<Rightarrow> int) \<Rightarrow> (ip_up \<Rightarrow> 'a udp_state_scheme \<Rightarrow> 'a udp_state_scheme) \<Rightarrow> u64
    \<Rightarrow> 'a udp_state_scheme \<Rightarrow> nif_ref option \<Rightarrow> u32 \<Rightarrow> u8 \<Rightarrow> u16 \<Rightarrow> u16 \<Rightarrow> bytes option \<Rightarrow> nat
    \<Rightarrow> int \<times> 'a udp_state_scheme" where
  "icmp_send drv up now s nif dst ty ident sq data len =
     (case take_netbuf s of
        (None, s1) \<Rightarrow> (- ENOMEM, s1)
      | (Some nb, s1) \<Rightarrow>
          (case netbuf_put nb (ICMP_HLEN + len) of
             None \<Rightarrow> (- EMSGSIZE, s1)
           | Some (at, nb1) \<Rightarrow>
               let body = (case data of Some d \<Rightarrow> d | None \<Rightarrow> replicate len 0);
                   nb2 = netbuf_store nb1 at (icmp_message ty ident sq body)
               in ipv4_output drv up now s1 nif nb2 0 dst IP_PROTO_ICMP))"



definition icmp_ping :: "(nif_ref \<Rightarrow> bytes \<Rightarrow> int) \<Rightarrow> (ip_up \<Rightarrow> 'a udp_state_scheme \<Rightarrow> 'a udp_state_scheme) \<Rightarrow> u64
    \<Rightarrow> 'a udp_state_scheme \<Rightarrow> u32 \<Rightarrow> u16 \<Rightarrow> int \<times> 'a udp_state_scheme" where
  "icmp_ping drv up now s dst sq =
     icmp_send drv up now (s\<lparr>ping_sent_ms := now\<rparr>) None dst ICMP_ECHO_REQUEST (htons ICMP_PING_ID)
       (htons sq) None ICMP_PING_DATA"

section \<open>Checksums of datagrams and messages\<close>

lemma length_udp_fields [simp]: "length (udp_fields sp dp len c) = UDP_HLEN"
  by (simp add: udp_fields_def)

lemma length_udp_header [simp]: "length (udp_header src sp dst dp data) = UDP_HLEN"
  by (simp add: udp_header_def Let_def)

lemma sum16_udp_fields:
  "sum16 (udp_fields sp dp len c @ data) = sum16 (udp_fields sp dp len 0 @ data) + unat (htons c)"
  using sum16_field [of "st16 (htons sp) @ st16 (htons dp) @ st16 (htons (of_nat len))" c data]
  by (simp add: udp_fields_def)

lemma unat_htons_FFFF: "unat (htons 0xFFFF) = 65535"
  by code_simp

lemma udp_header_verifies:
  assumes "length data \<le> UDP_MAX_PAYLOAD"
  shows "udp_checksum src dst (udp_header src sp dst dp data @ data) = 0"
proof -
  let ?len = "UDP_HLEN + length data" and ?p = "ipv4_pseudo_sum src dst IP_PROTO_UDP (UDP_HLEN + length data)"
  let ?z = "udp_fields sp dp ?len 0 @ data"
  define c where "c = udp_checksum src dst ?z"
  have c: "c = net_checksum ?z ?p" by (simp add: c_def udp_checksum_def)
  have small: "unat ?p + sum16 bs < 2 ^ 32" if "length bs = ?len" for bs
    using pseudo_sum_bound [of src dst IP_PROTO_UDP ?len] sum16_small [of bs] that assms by simp
  have z: "unat ?p + sum16 ?z < 2 ^ 32" by (rule small) simp
  note comp = net_checksum_complement [OF z, folded c]
  define d where "d = (if c = 0 then 0xFFFF else c)"
  have h: "udp_header src sp dst dp data = udp_fields sp dp ?len d"
    by (simp add: udp_header_def Let_def c_def d_def)
  have s: "unat ?p + sum16 (udp_header src sp dst dp data @ data) = unat ?p + sum16 ?z + unat (htons d)"
    by (simp add: h sum16_udp_fields [of sp dp ?len d])
  have "(unat ?p + sum16 ?z + unat (htons d)) mod 65535 = 0 \<and> 0 < unat ?p + sum16 ?z + unat (htons d)"
  proof (cases "c = 0")
    case True
    with comp unat_htons_FFFF show ?thesis by (simp add: d_def)
  next
    case False
    with comp show ?thesis by (simp add: d_def)
  qed
  moreover have lt: "unat ?p + sum16 (udp_header src sp dst dp data @ data) < 2 ^ 32" by (rule small) simp
  ultimately have "net_checksum (udp_header src sp dst dp data @ data) ?p = 0"
    unfolding net_checksum_zero [OF lt] s by blast
  then show ?thesis by (simp add: udp_checksum_def)
qed

lemma udp_input_header:
  assumes "length data \<le> UDP_MAX_PAYLOAD"
  shows "udp_input s r src dst (udp_header src sp dst dp data @ data) =
    (case udp_find_handler (udp_ports s) dp of
       Some h \<Rightarrow> Some (To_handler h r src sp dst data) | None \<Rightarrow> Some (To_socket src sp dst dp data))"
proof -
  let ?h = "udp_header src sp dst dp data"
  obtain c where h: "?h = udp_fields sp dp (UDP_HLEN + length data) c" by (auto simp: udp_header_def Let_def)
  have f: "ld16 (?h @ data) 0 = htons sp" "ld16 (?h @ data) 2 = htons dp"
    "ld16 (?h @ data) 4 = htons (of_nat (UDP_HLEN + length data))"
    unfolding h by (simp_all add: udp_fields_def wire_simps)
  have l: "unat (of_nat (UDP_HLEN + length data) :: u16) = UDP_HLEN + length data"
    using assms by (intro unat_of_nat_small) simp
  have t: "take (UDP_HLEN + length data) (?h @ data) = ?h @ data" by simp
  have pl: "take (UDP_HLEN + length data - UDP_HLEN) (drop UDP_HLEN (?h @ data)) = data" by simp
  show ?thesis
    unfolding udp_input_def Let_def f htons_htons l t pl udp_header_verifies [OF assms] by simp
qed


section \<open>Properties\<close>

text \<open>C9. A UDP datagram sent to an address of this machine arrives at whoever has the destination
  port: the handler registered for it, or else the sockets, with the source port, the addresses
  and exactly the bytes that were sent, for every size up to the largest datagram.\<close>

theorem udp_loopback_roundtrip:
  fixes s :: "'a udp_state_scheme"
  assumes "lo_inv s" and "lo_contents s = []" and "ipv4_stays_here (get_nif s r) dst"
    and "length data \<le> UDP_MAX_PAYLOAD"
    and "length (frags (ip_frags s)) = IP_FRAG_SLOTS" and "\<forall>f \<in> set (frags (ip_frags s)). \<not> f_used f"
    and "mem_good 45 NETBUF_SIZE (nb_mem s)" and "mem_good 45 IP_MAX_PAYLOAD (frag_mem s)" and "src \<noteq> 0"
  shows "\<exists>s1 s2 n payload. udp_output_flat drv up now True s (Some r) data src sp dst dp = (0, s1)
    \<and> ipv4_loopback_turns up later n s1 = (lo_count (up (Up_udp r src dst payload) s2) \<noteq> 0, up (Up_udp r src dst payload) s2)
    \<and> (\<forall>t :: 'a udp_state_scheme. udp_input t r src dst payload =
          (case udp_find_handler (udp_ports t) dp of
             Some h \<Rightarrow> Some (To_handler h r src sp dst data) | None \<Rightarrow> Some (To_socket src sp dst dp data)))"
proof -
  let ?P = "udp_header src sp dst dp data @ data"
  have P: "?P \<noteq> []" "length ?P \<le> IP_MAX_PAYLOAD" using assms(4) by (auto dest: arg_cong [of _ _ length])
  have src1: "src = (if src \<noteq> 0 then src else ipv4_source (get_nif s r) dst)" using assms(9) by simp
  obtain s1 s2 n where "ipv4_output_flat drv up now s (Some r) ?P src dst IP_PROTO_UDP = (0, s1)"
    "ipv4_loopback_turns up later n s1 =
      (lo_count (ipv4_deliver up s2 r src dst IP_PROTO_UDP ?P) \<noteq> 0, ipv4_deliver up s2 r src dst IP_PROTO_UDP ?P)"
    using ipv4_flat_loopback [OF assms(1-3) P assms(5-8) src1, of drv up now IP_PROTO_UDP later] by blast
  moreover have "ipv4_deliver up s2 r src dst IP_PROTO_UDP ?P = up (Up_udp r src dst ?P) s2"
    by (simp add: ipv4_deliver_def)
  ultimately have "udp_output_flat drv up now True s (Some r) data src sp dst dp = (0, s1) \<and>
      ipv4_loopback_turns up later n s1 = (lo_count (up (Up_udp r src dst ?P) s2) \<noteq> 0, up (Up_udp r src dst ?P) s2)"
    using assms(4,9) by (simp add: udp_output_flat_def)
  moreover have "\<forall>t :: 'a udp_state_scheme. udp_input t r src dst ?P =
          (case udp_find_handler (udp_ports t) dp of
             Some h \<Rightarrow> Some (To_handler h r src sp dst data) | None \<Rightarrow> Some (To_socket src sp dst dp data))"
    using udp_input_header [OF assms(4)] by blast
  ultimately show ?thesis by blast
qed

definition udp_boot :: udp_state where
  "udp_boot = \<lparr>netifs = [], netif_lo = blank_netif, tx_log = [],
     nb_mem = replicate 45 (Some (replicate NETBUF_SIZE 0)), arp_cache = [],
     ip_frags = no_frags, frag_mem = replicate 45 (Some no_junk), ip_next_id = 1,
     lo_queue = replicate IP_LO_QUEUE None, lo_head = 0, lo_count = 0, net_kicked = False,
     udp_ports = replicate UDP_PORTS_MAX \<lparr>up_port = 0, up_handler = None\<rparr>, ping_sent_ms = 0\<rparr>"

lemma udp_boot_ports: "udp_ports udp_boot = replicate UDP_PORTS_MAX \<lparr>up_port = 0, up_handler = None\<rparr>"
  by (simp add: udp_boot_def)


theorem udp_loopback_roundtrip_witness:
  "\<exists>payload. udp_input udp_boot Lo 127 127 payload = Some (To_socket 127 4000 127 53 [1, 2, 3])"
proof -
  have "IP_LOOPBACK 127" by code_simp
  then have here: "ipv4_stays_here (get_nif udp_boot Lo) 127" by (simp add: ipv4_stays_here_def)
  have "lo_inv udp_boot" "lo_contents udp_boot = []" by (simp_all add: udp_boot_def lo_inv_def lo_contents_def)
  moreover have "mem_good 45 NETBUF_SIZE (nb_mem udp_boot)" "mem_good 45 IP_MAX_PAYLOAD (frag_mem udp_boot)"
    by (simp_all add: mem_good_def udp_boot_def length_no_junk)
  moreover have "ip_frags udp_boot = no_frags" by (simp add: udp_boot_def)
  moreover have "length [1, 2, 3 :: u8] \<le> UDP_MAX_PAYLOAD" "(127 :: u32) \<noteq> 0" by simp_all
  ultimately obtain payload where "\<forall>t :: udp_state. udp_input t Lo 127 127 payload =
          (case udp_find_handler (udp_ports t) 53 of
             Some h \<Rightarrow> Some (To_handler h Lo 127 4000 127 [1, 2, 3]) | None \<Rightarrow> Some (To_socket 127 4000 127 53 [1, 2, 3]))"
    using udp_loopback_roundtrip [of udp_boot Lo 127 "[1, 2, 3]" 127 "\<lambda>r f. 0" "\<lambda>u t. t" 0 4000 53 0]
      here no_frags_boot by auto
  moreover have "udp_find_handler (udp_ports udp_boot) 53 = None"
    by (simp add: udp_boot_ports numeral_eq_Suc)
  ultimately show ?thesis by (intro exI [of _ payload]) simp
qed



section \<open>The table of kernel ports\<close>


lemma udp_claim_none: "udp_claim ps port h = None \<Longrightarrow> \<forall>p \<in> set ps. up_handler p \<noteq> None"
  by (induction ps) (auto split: if_splits)








end
