(* ===== verification/Tcpcb.thy ===== *)
theory Tcpcb
  imports Udp
begin

text \<open>
  The state of TCP, \<open>kernel/include/net/tcp.h\<close> and \<open>kernel/src/net/tcp_priv.h\<close>. A connection block is a record whose numbers keep their width, so sequence
  arithmetic wraps as in the code. Blocks live in a table under the reference \<open>kmalloc\<close> gave
  them; \<open>tcp_list\<close> and the accept queue of a listener, linked through the blocks in the code,
  are lists of references. Everything done under \<open>tcp_lock\<close> is one function on the table and a
  \<open>tcp_io\<close>, which holds the memory packet buffers are taken from, the segments queued to go out
  after the lock is dropped, and the wait queues woken. \<open>io_fault\<close> is set where the processor
  would trap on a division by zero or a loop would never end. The clock is the argument
  \<open>now\<close>; the keyed hash behind initial sequence numbers is the argument \<open>key\<close>.
\<close>

section \<open>Constants\<close>

abbreviation TCP_RX_BUF :: nat where "TCP_RX_BUF \<equiv> 262144"
abbreviation TCP_TX_BUF :: nat where "TCP_TX_BUF \<equiv> 131072"
abbreviation (input) TCP_WSCALE :: u8 where "TCP_WSCALE \<equiv> 3"
abbreviation (input) TCP_MSS :: u16 where "TCP_MSS \<equiv> 1460"
abbreviation (input) TCP_MSS_DEFAULT :: u16 where "TCP_MSS_DEFAULT \<equiv> 536"
abbreviation TCP_OOO_MAX :: nat where "TCP_OOO_MAX \<equiv> 8"
abbreviation (input) TCP_INIT_CWND :: u32 where "TCP_INIT_CWND \<equiv> 10"
abbreviation (input) TCP_RTO_MS :: u32 where "TCP_RTO_MS \<equiv> 1000"
abbreviation (input) TCP_RTO_MIN_MS :: u32 where "TCP_RTO_MIN_MS \<equiv> 300"
abbreviation (input) TCP_RTO_MAX_MS :: u32 where "TCP_RTO_MAX_MS \<equiv> 30000"
abbreviation (input) TCP_SYN_RETRIES :: int where "TCP_SYN_RETRIES \<equiv> 5"
abbreviation (input) TCP_RETRIES :: int where "TCP_RETRIES \<equiv> 8"
abbreviation (input) TCP_TIMEWAIT_MS :: u64 where "TCP_TIMEWAIT_MS \<equiv> 2000"
abbreviation (input) TCP_LINGER_MS :: u64 where "TCP_LINGER_MS \<equiv> 30000"
abbreviation (input) TCP_BACKLOG_MAX :: int where "TCP_BACKLOG_MAX \<equiv> 128"
abbreviation (input) TCP_KEEP_IDLE_S :: u32 where "TCP_KEEP_IDLE_S \<equiv> 7200"
abbreviation (input) TCP_KEEP_INTVL_S :: u32 where "TCP_KEEP_INTVL_S \<equiv> 75"
abbreviation (input) TCP_KEEP_CNT :: u32 where "TCP_KEEP_CNT \<equiv> 9"
abbreviation TCP_HLEN :: nat where "TCP_HLEN \<equiv> 20"
abbreviation TCP_OUT_MAX :: nat where "TCP_OUT_MAX \<equiv> 24"

abbreviation (input) TCP_FIN :: u8 where "TCP_FIN \<equiv> 0x01"
abbreviation (input) TCP_SYN :: u8 where "TCP_SYN \<equiv> 0x02"
abbreviation (input) TCP_RST :: u8 where "TCP_RST \<equiv> 0x04"
abbreviation (input) TCP_PSH :: u8 where "TCP_PSH \<equiv> 0x08"
abbreviation (input) TCP_ACK :: u8 where "TCP_ACK \<equiv> 0x10"

abbreviation (input) TCP_OPT_END :: u8 where "TCP_OPT_END \<equiv> 0"
abbreviation (input) TCP_OPT_NOP :: u8 where "TCP_OPT_NOP \<equiv> 1"
abbreviation (input) TCP_OPT_MSS :: u8 where "TCP_OPT_MSS \<equiv> 2"
abbreviation (input) TCP_OPT_WSCALE :: u8 where "TCP_OPT_WSCALE \<equiv> 3"
abbreviation (input) TCP_OPT_SACK_OK :: u8 where "TCP_OPT_SACK_OK \<equiv> 4"
abbreviation (input) TCP_OPT_SACK :: u8 where "TCP_OPT_SACK \<equiv> 5"

abbreviation (input) TCP_NODELAY :: int where "TCP_NODELAY \<equiv> 1"
abbreviation (input) TCP_MAXSEG :: int where "TCP_MAXSEG \<equiv> 2"
abbreviation (input) TCP_KEEPIDLE :: int where "TCP_KEEPIDLE \<equiv> 4"
abbreviation (input) TCP_KEEPINTVL :: int where "TCP_KEEPINTVL \<equiv> 5"
abbreviation (input) TCP_KEEPCNT :: int where "TCP_KEEPCNT \<equiv> 6"

definition SEQ_LT :: "u32 \<Rightarrow> u32 \<Rightarrow> bool" where
  "SEQ_LT a b \<longleftrightarrow> sint (a - b) < 0"

definition SEQ_LEQ :: "u32 \<Rightarrow> u32 \<Rightarrow> bool" where
  "SEQ_LEQ a b \<longleftrightarrow> sint (a - b) \<le> 0"

section \<open>State\<close>

datatype tcp_state_t = TCP_CLOSED | TCP_LISTEN | TCP_SYN_SENT | TCP_SYN_RCVD | TCP_ESTABLISHED
  | TCP_FIN_WAIT_1 | TCP_FIN_WAIT_2 | TCP_CLOSING | TCP_TIME_WAIT | TCP_CLOSE_WAIT | TCP_LAST_ACK

datatype tcp_recovery_t = TCP_RECOVERY_NONE | TCP_RECOVERY_FAST | TCP_RECOVERY_RTO

type_synonym tref = nat

record tcp_range =
  r_start :: u32
  r_end :: u32

text \<open>A ring of \<open>[]\<close> is a null pointer; the entries of \<open>ooo\<close> are the first \<open>ooo_count\<close>.\<close>

record tcb =
  t_state :: tcp_state_t
  local_ip :: u32
  remote_ip :: u32
  local_port :: u16
  remote_port :: u16
  linked :: bool
  iss :: u32
  snd_una :: u32
  snd_nxt :: u32
  snd_wnd :: u32
  snd_wl1 :: u32
  mss :: u16
  snd_shift :: u8
  rcv_shift :: u8
  shift_next :: u8
  sack_ok :: bool
  rcv_nxt :: u32
  rcv_adv :: u32
  ooo :: "tcp_range list"
  fin_seq :: u32
  fin_seen :: bool
  cwnd :: u32
  ssthresh :: u32
  dupacks :: int
  recovery :: tcp_recovery_t
  recover :: u32
  rtx_nxt :: u32
  rtx_one :: bool
  rtt_at :: u64
  rtt_seq :: u32
  srtt :: u32
  rttvar :: u32
  rto_base :: u32
  rx :: bytes
  rx_start :: u32
  rx_len :: u32
  tx :: bytes
  tx_start :: u32
  tx_len :: u32
  fin_wanted :: bool
  fin_sent :: bool
  peer_fin :: bool
  rd_shut :: bool
  was_connected :: bool
  t_error :: int
  rto_at :: u64
  rto_ms :: u32
  retries :: int
  done_at :: u64
  t_wait :: "nat option"
  detached :: bool
  keepalive :: bool
  nodelay :: bool
  keep_idle :: u32
  keep_intvl :: u32
  keep_cnt :: u32
  keep_sent :: u32
  last_rx :: u64
  parent :: "tref option"
  accept_q :: "tref list"
  backlog :: int
  t_pending :: int

record tcp_io =
  io_mem :: "bytes option list"
  io_out :: "(netbuf \<times> u32 \<times> u32) list"
  io_wake :: "nat list"
  io_fault :: bool

record tcp_tab =
  tcbs :: "tref \<Rightarrow> tcb option"
  tcp_list :: "tref list"
  tcb_mem :: "tref option list"
  ring_mem :: "bytes option list"

record tcp_hdr =
  h_src_port :: u16
  h_dst_port :: u16
  h_seq :: u32
  h_ack :: u32
  h_off :: u8
  h_flags :: u8
  h_window :: u16

record tcp_syn_opts =
  o_mss :: u16
  o_wscale :: u8
  o_has_wscale :: bool
  o_sack_ok :: bool

end
