(* ===== verification/Tcp.thy ===== *)
theory Tcp
  imports Tcpcb
begin

text \<open>
  The operations of TCP: \<open>kernel/src/net/tcp_output.c\<close>, \<open>tcp_input.c\<close> and
  \<open>tcp.c\<close>, in that order. An operation on one connection maps the block and the
  \<open>tcp_io\<close> to the new ones; the operations that reach other connections, the listener of a
  half-open connection or the list of all of them, work on the table.
\<close>

section \<open>Building segments\<close>

text \<open>A packet buffer, or nothing when \<open>kmalloc\<close> fails.\<close>

definition io_netbuf :: "tcp_io \<Rightarrow> netbuf option \<times> tcp_io" where
  "io_netbuf io = (case io_mem io of [] \<Rightarrow> (None, io) | m # ms \<Rightarrow> (netbuf_alloc m, io\<lparr>io_mem := ms\<rparr>))"

definition sched_wake :: "nat option \<Rightarrow> tcp_io \<Rightarrow> tcp_io" where
  "sched_wake w io = (case w of None \<Rightarrow> io | Some q \<Rightarrow> io\<lparr>io_wake := io_wake io @ [q]\<rparr>)"

definition tcp_rcv_window :: "tcb \<Rightarrow> u16" where
  "tcp_rcv_window t =
     (let room = drop_bit (unat (rcv_shift t)) (of_nat TCP_RX_BUF - rx_len t)
      in if room > 0xFFFF then 0xFFFF else ucast room)"

definition tcp_arm_rto :: "u64 \<Rightarrow> tcb \<Rightarrow> tcb" where
  "tcp_arm_rto now t = (if rto_at t = 0 then t\<lparr>rto_at := now + ucast (rto_ms t)\<rparr> else t)"

definition tcp_new_iss :: "(u32 list \<Rightarrow> u32) \<Rightarrow> u64 \<Rightarrow> u32 \<Rightarrow> u16 \<Rightarrow> u32 \<Rightarrow> u16 \<Rightarrow> u32" where
  "tcp_new_iss key clk lip lport rip rport =
     (let tuple = [lip, rip, push_bit 16 (ucast lport) OR ucast rport, 0x7C9A0001];
          clock = ucast (clk div 4000)
      in clock + key tuple)"

definition tcp_fields :: "u16 \<Rightarrow> u16 \<Rightarrow> u32 \<Rightarrow> u32 \<Rightarrow> u8 \<Rightarrow> u8 \<Rightarrow> u16 \<Rightarrow> u16 \<Rightarrow> bytes" where
  "tcp_fields src_port dst_port sq ack off flags window csum =
     st16 (htons src_port) @ st16 (htons dst_port) @ st32 (htonl sq) @ st32 (htonl ack) @ [off, flags]
       @ st16 (htons window) @ st16 csum @ st16 0"

text \<open>The \<open>len\<close> bytes of the send ring that start \<open>off\<close> behind \<open>snd_una\<close>.\<close>

definition tcp_tx_bytes :: "tcb option \<Rightarrow> u32 \<Rightarrow> u32 \<Rightarrow> bytes" where
  "tcp_tx_bytes data_from off len =
     (case data_from of
        None \<Rightarrow> []
      | Some t \<Rightarrow> if len = 0 then []
                  else ring_get (tx t) (unat ((tx_start t + off) mod of_nat TCP_TX_BUF)) (unat len))"

definition tcp_packet :: "u32 \<Rightarrow> u32 \<Rightarrow> u16 \<Rightarrow> u16 \<Rightarrow> u32 \<Rightarrow> u32 \<Rightarrow> u8 \<Rightarrow> u16 \<Rightarrow> bytes \<Rightarrow> bytes \<Rightarrow> bytes" where
  "tcp_packet src dst src_port dst_port sq ack flags window opts data =
     (let off = push_bit 4 (of_nat ((TCP_HLEN + length opts) div 4));
          seg = (\<lambda>csum. tcp_fields src_port dst_port sq ack off flags window csum @ opts @ data)
      in seg (net_checksum (seg 0) (ipv4_pseudo_sum src dst IP_PROTO_TCP (length (seg 0)))))"

text \<open>
  Segments carry at most \<open>TCP_MSS\<close> bytes and 28 bytes of options, so \<open>netbuf_put\<close>
  always finds room; the code does not test it.
\<close>

definition tcp_segment :: "u32 \<Rightarrow> u32 \<Rightarrow> u16 \<Rightarrow> u16 \<Rightarrow> u32 \<Rightarrow> u32 \<Rightarrow> u8 \<Rightarrow> u16 \<Rightarrow> tcb option \<Rightarrow> u32 \<Rightarrow> u32
    \<Rightarrow> bytes \<Rightarrow> tcp_io \<Rightarrow> tcp_io" where
  "tcp_segment src dst src_port dst_port sq ack flags window data_from off len opts io =
     (if length (io_out io) \<ge> TCP_OUT_MAX then io
      else case io_netbuf io of
        (None, io1) \<Rightarrow> io1
      | (Some nb, io1) \<Rightarrow>
          (case netbuf_put nb (TCP_HLEN + length opts + unat len) of
             None \<Rightarrow> io1
           | Some (at, nb1) \<Rightarrow>
               let p = tcp_packet src dst src_port dst_port sq ack flags window opts
                         (tcp_tx_bytes data_from off len)
               in io1\<lparr>io_out := io_out io1 @ [(netbuf_store nb1 at p, src, dst)]\<rparr>))"

definition tcp_emit :: "u8 \<Rightarrow> u32 \<Rightarrow> u32 \<Rightarrow> u32 \<Rightarrow> bytes \<Rightarrow> tcb \<Rightarrow> tcp_io \<Rightarrow> tcb \<times> tcp_io" where
  "tcp_emit flags sq off len opts t io =
     (let window = tcp_rcv_window t;
          t1 = t\<lparr>rcv_adv := rcv_nxt t + push_bit (unat (rcv_shift t)) (ucast window)\<rparr>
      in (t1, tcp_segment (local_ip t1) (remote_ip t1) (local_port t1) (remote_port t1) sq (rcv_nxt t1)
                flags window (Some t1) off len opts io))"

definition tcp_send_ctl :: "u8 \<Rightarrow> u32 \<Rightarrow> tcb \<Rightarrow> tcp_io \<Rightarrow> tcb \<times> tcp_io" where
  "tcp_send_ctl flags sq t io = tcp_emit flags sq 0 0 [] t io"

definition tcp_sack_opts :: "tcb \<Rightarrow> bytes" where
  "tcp_sack_opts t =
     (let blocks = (if sack_ok t then min (length (ooo t)) 3 else 0)
      in if blocks = 0 then []
         else [TCP_OPT_NOP, TCP_OPT_NOP, TCP_OPT_SACK, of_nat (2 + blocks * 8)]
              @ concat (map (\<lambda>r. st32 (htonl (r_start r)) @ st32 (htonl (r_end r))) (take blocks (ooo t))))"

definition tcp_send_ack :: "tcb \<Rightarrow> tcp_io \<Rightarrow> tcb \<times> tcp_io" where
  "tcp_send_ack t io = tcp_emit TCP_ACK (snd_nxt t) 0 0 (tcp_sack_opts t) t io"

definition tcp_syn_options :: bytes where
  "tcp_syn_options =
     [TCP_OPT_MSS, 4, ucast (drop_bit 8 TCP_MSS), ucast (TCP_MSS AND 0xFF),
      TCP_OPT_NOP, TCP_OPT_WSCALE, 3, TCP_WSCALE,
      TCP_OPT_NOP, TCP_OPT_NOP, TCP_OPT_SACK_OK, 2]"

definition tcp_send_syn :: "tcb \<Rightarrow> tcp_io \<Rightarrow> tcb \<times> tcp_io" where
  "tcp_send_syn t io =
     tcp_emit (if t_state t = TCP_SYN_RCVD then TCP_SYN OR TCP_ACK else TCP_SYN) (iss t) 0 0 tcp_syn_options t io"

definition tcp_reset_reply :: "u32 \<Rightarrow> u32 \<Rightarrow> tcp_hdr \<Rightarrow> nat \<Rightarrow> tcp_io \<Rightarrow> tcp_io" where
  "tcp_reset_reply src dst h dlen io =
     (let sq = (if h_flags h AND TCP_ACK \<noteq> 0 then h_ack h else 0);
          ack = (if h_flags h AND TCP_ACK \<noteq> 0 then 0
                 else h_seq h + of_nat dlen + (if h_flags h AND TCP_SYN \<noteq> 0 then 1 else 0)
                      + (if h_flags h AND TCP_FIN \<noteq> 0 then 1 else 0));
          flags = (if h_flags h AND TCP_ACK \<noteq> 0 then TCP_RST else TCP_RST OR TCP_ACK)
      in tcp_segment src dst (h_dst_port h) (h_src_port h) sq ack flags 0 None 0 0 [] io)"

section \<open>Sending and resending\<close>

definition tcp_resend :: "u32 \<Rightarrow> tcb \<Rightarrow> tcp_io \<Rightarrow> u32 \<times> tcb \<times> tcp_io" where
  "tcp_resend sq t io =
     (let off = sq - snd_una t;
          data_end = snd_nxt t - snd_una t - (if fin_sent t then 1 else 0);
          t1 = t\<lparr>rtt_at := 0\<rparr>
      in if off < data_end then
           let n = (if data_end - off < ucast (mss t) then data_end - off else ucast (mss t))
           in (n, tcp_emit (TCP_ACK OR TCP_PSH) sq off n [] t1 io)
         else if fin_sent t \<and> sq = snd_nxt t - 1 then (1, tcp_send_ctl (TCP_FIN OR TCP_ACK) sq t1 io)
         else (0, t1, io))"

text \<open>What sending leaves alone, needed for the loops to end.\<close>

lemma tcp_emit_fst: "fst (tcp_emit flags sq off len opts t io) =
    t\<lparr>rcv_adv := rcv_nxt t + push_bit (unat (rcv_shift t)) (ucast (tcp_rcv_window t))\<rparr>"
  by (simp add: tcp_emit_def Let_def)

lemma io_netbuf_mem: "length (io_mem (snd (io_netbuf io))) = length (io_mem io) - 1"
  by (simp add: io_netbuf_def split: list.splits)

lemma tcp_segment_mem:
  "length (io_out io) < TCP_OUT_MAX \<Longrightarrow>
   length (io_mem (tcp_segment src dst sp dp sq ack flags window from off len opts io)) = length (io_mem io) - 1"
  using io_netbuf_mem [of io]
  by (auto simp: tcp_segment_def Let_def split: prod.splits option.splits)

lemma tcp_emit_mem:
  "length (io_out io) < TCP_OUT_MAX \<Longrightarrow>
   length (io_mem (snd (tcp_emit flags sq off len opts t io))) = length (io_mem io) - 1"
  by (simp add: tcp_emit_def Let_def tcp_segment_mem)

lemma tcp_resend_tcb: "\<exists>a. fst (snd (tcp_resend sq t io)) = t\<lparr>rtt_at := 0, rcv_adv := a\<rparr>"
proof -
  have "\<exists>a. t\<lparr>rtt_at := 0\<rparr> = t\<lparr>rtt_at := 0, rcv_adv := a\<rparr>" by (rule exI [of _ "rcv_adv t"]) simp
  moreover have "\<exists>a. fst (tcp_emit fl q off n os (t\<lparr>rtt_at := 0\<rparr>) io) = t\<lparr>rtt_at := 0, rcv_adv := a\<rparr>"
    for fl q off n os by (simp add: tcp_emit_fst) blast
  ultimately show ?thesis by (simp add: tcp_resend_def tcp_send_ctl_def Let_def)
qed

lemma tcp_resend_count:
  assumes "fst (tcp_resend sq t io) = n" and "off = sq - snd_una t"
    and "e = snd_nxt t - snd_una t - (if fin_sent t then 1 else 0)"
  shows "off < e \<Longrightarrow> n \<le> e - off" "\<not> off < e \<Longrightarrow> n \<le> 1"
  using assms(1) unfolding tcp_resend_def Let_def assms(2,3) [symmetric]
  by (auto split: if_splits)

lemma tcp_resend_progress:
  assumes n: "fst (tcp_resend sq t io) = n" "n \<noteq> 0" and "sq - snd_una t < cwnd t"
  shows "unat (sq - snd_una t) < unat (sq + n - snd_una t)"
proof -
  define off where "off = sq - snd_una t"
  define e where "e = snd_nxt t - snd_una t - (if fin_sent t then 1 else 0)"
  have "unat off + unat n < 2 ^ 32"
  proof (cases "off < e")
    case True
    have "n \<le> e - off" using tcp_resend_count(1) [OF n(1) off_def e_def] True by simp
    with True have "unat n \<le> unat e - unat off" "unat off < unat e"
      by (simp_all add: word_le_nat_alt word_less_nat_alt unat_minus_small)
    then show ?thesis using unat_u32 [of e] by simp
  next
    case False
    have "unat n \<le> 1" using tcp_resend_count(2) [OF n(1) off_def e_def] False
      by (simp add: word_le_nat_alt)
    moreover have "unat off < unat (cwnd t)" using assms(3) by (simp add: off_def word_less_nat_alt)
    ultimately show ?thesis using unat_u32 [of "cwnd t"] by simp
  qed
  then have "unat (off + n) = unat off + unat n" by (simp add: unat_plus_small)
  moreover have eq: "sq + n - snd_una t = off + n" by (simp add: off_def)
  moreover have "0 < unat n" using n(2) by (simp add: unat_gt_0)
  ultimately show ?thesis unfolding eq by (simp add: off_def)
qed

function tcp_rtx_loop :: "tcb \<Rightarrow> tcp_io \<Rightarrow> tcb \<times> tcp_io" where
  "tcp_rtx_loop t io =
     (if SEQ_LT (rtx_nxt t) (recover t) \<and> rtx_nxt t - snd_una t < cwnd t \<and> length (io_out io) < TCP_OUT_MAX
      then case tcp_resend (rtx_nxt t) t io of
             (n, t1, io1) \<Rightarrow> if n = 0 then (t1, io1) else tcp_rtx_loop (t1\<lparr>rtx_nxt := rtx_nxt t1 + n\<rparr>) io1
      else (t, io))"
  by pat_completeness auto

termination
proof (relation "measure (\<lambda>(t, io). 2 ^ 32 - unat (rtx_nxt t - snd_una t))", goal_cases)
  case (2 t io n y t1 io1)
  have r: "tcp_resend (rtx_nxt t) t io = (n, t1, io1)" using 2(2,3) by simp
  have k: "rtx_nxt t1 = rtx_nxt t" "snd_una t1 = snd_una t"
    using tcp_resend_tcb [of "rtx_nxt t" t io] r by (auto split: if_splits)
  have "unat (rtx_nxt t - snd_una t) < unat (rtx_nxt t + n - snd_una t)"
    using tcp_resend_progress [of "rtx_nxt t" t io n] r 2(1,4) by simp
  moreover have "unat (rtx_nxt t + n - snd_una t) < 2 ^ 32"
    using unat_u32 by simp
  ultimately show ?case using k by simp
qed simp

declare tcp_rtx_loop.simps [simp del]

text \<open>What every turn of a loop keeps, the loop keeps.\<close>

lemma tcp_rtx_loop_keeps:
  assumes "P t io"
    and "\<And>t io n t1 io1. P t io \<Longrightarrow> SEQ_LT (rtx_nxt t) (recover t) \<Longrightarrow> rtx_nxt t - snd_una t < cwnd t \<Longrightarrow>
      length (io_out io) < TCP_OUT_MAX \<Longrightarrow> tcp_resend (rtx_nxt t) t io = (n, t1, io1) \<Longrightarrow>
      (n = 0 \<longrightarrow> P t1 io1) \<and> (n \<noteq> 0 \<longrightarrow> P (t1\<lparr>rtx_nxt := rtx_nxt t1 + n\<rparr>) io1)"
  shows "P (fst (tcp_rtx_loop t io)) (snd (tcp_rtx_loop t io))"
  using assms(1)
proof (induction t io rule: tcp_rtx_loop.induct)
  case (1 t io)
  obtain n t1 io1 where r: "tcp_resend (rtx_nxt t) t io = (n, t1, io1)" by (metis prod_cases3)
  show ?case
    using 1 r assms(2) [OF 1(2) _ _ _ r] by (simp add: tcp_rtx_loop.simps [of t io])
qed

definition tcp_push_recovery :: "tcb \<Rightarrow> tcp_io \<Rightarrow> tcb \<times> tcp_io" where
  "tcp_push_recovery t io =
     (case recovery t of
        TCP_RECOVERY_FAST \<Rightarrow>
          if rtx_one t then snd (tcp_resend (snd_una t) (t\<lparr>rtx_one := False\<rparr>) io) else (t, io)
      | TCP_RECOVERY_RTO \<Rightarrow>
          tcp_rtx_loop (if SEQ_LT (rtx_nxt t) (snd_una t) then t\<lparr>rtx_nxt := snd_una t\<rparr> else t) io
      | TCP_RECOVERY_NONE \<Rightarrow> (t, io))"

text \<open>How much new data the next segment takes; nothing when the loop has to stop.\<close>

definition tcp_push_size :: "u32 \<Rightarrow> u32 \<Rightarrow> tcb \<Rightarrow> u32 option" where
  "tcp_push_size wnd sent t =
     (let room = (if wnd > sent then wnd - sent else 0);
          n0 = tx_len t - sent;
          n = (if n0 > ucast (mss t) then ucast (mss t) else n0)
      in if room = 0 then None
         else if n > room then (if sent \<noteq> 0 then None else Some room)
         else Some n)"

definition tcp_push_one :: "u64 \<Rightarrow> u32 \<Rightarrow> u32 \<Rightarrow> tcb \<Rightarrow> tcp_io \<Rightarrow> tcb \<times> tcp_io" where
  "tcp_push_one now sent n t io =
     (let t1 = (if rtt_at t = 0 \<and> recovery t = TCP_RECOVERY_NONE
                then t\<lparr>rtt_at := now, rtt_seq := snd_nxt t\<rparr> else t);
          (t2, io2) = tcp_emit (TCP_ACK OR TCP_PSH) (snd_nxt t1) sent n [] t1 io
      in (tcp_arm_rto now (t2\<lparr>snd_nxt := snd_nxt t2 + n\<rparr>), io2))"

lemma tcp_arm_rto_keeps [simp]:
  "tx_len (tcp_arm_rto now t) = tx_len t" "snd_nxt (tcp_arm_rto now t) = snd_nxt t"
  by (simp_all add: tcp_arm_rto_def)

lemma tcp_push_one_tx_len: "tx_len (fst (tcp_push_one now sent n t io)) = tx_len t"
  by (simp add: tcp_push_one_def Let_def case_prod_unfold tcp_emit_fst)

lemma tcp_push_size_bound:
  assumes "tcp_push_size wnd sent t = Some n" and "sent < tx_len t"
  shows "unat n \<le> unat (tx_len t) - unat sent"
proof -
  have "n \<le> tx_len t - sent" using assms(1) by (auto simp: tcp_push_size_def Let_def split: if_splits)
  then show ?thesis using assms(2) by (simp add: word_le_nat_alt word_less_nat_alt unat_minus_small)
qed

text \<open>
  The segments of new data. A turn that moves no byte and gets no packet buffer would repeat for
  ever, which needs a zero \<open>mss\<close>.
\<close>

function tcp_push_loop :: "u64 \<Rightarrow> u32 \<Rightarrow> u32 \<Rightarrow> tcb \<Rightarrow> tcp_io \<Rightarrow> u32 \<times> tcb \<times> tcp_io" where
  "tcp_push_loop now wnd sent t io =
     (if sent < tx_len t \<and> length (io_out io) < TCP_OUT_MAX then
        case tcp_push_size wnd sent t of
          None \<Rightarrow> (sent, t, io)
        | Some n \<Rightarrow>
            if n = 0 \<and> io_mem io = [] then (sent, t, io\<lparr>io_fault := True\<rparr>)
            else (case tcp_push_one now sent n t io of (t1, io1) \<Rightarrow> tcp_push_loop now wnd (sent + n) t1 io1)
      else (sent, t, io))"
  by pat_completeness auto

termination
proof (relation "measure (\<lambda>(now, wnd, sent, t, io). unat (tx_len t - sent) + length (io_mem io))", goal_cases)
  case (2 now wnd sent t io n t1 io1)
  have lt: "unat sent < unat (tx_len t)" using 2(1) by (simp add: word_less_nat_alt)
  have "unat n \<le> unat (tx_len t) - unat sent" using 2(1,2) by (simp add: tcp_push_size_bound)
  with lt have s: "unat (sent + n) = unat sent + unat n" "unat sent + unat n \<le> unat (tx_len t)"
    using unat_u32 [of "tx_len t"] by (simp_all add: unat_plus_small)
  have t1: "tx_len t1 = tx_len t" using tcp_push_one_tx_len [of now sent n t io] 2(4) by (metis fst_conv)
  have m: "length (io_mem io1) = length (io_mem io) - 1"
    using 2(1,4) by (auto simp: tcp_push_one_def Let_def case_prod_unfold tcp_emit_mem)
  have "unat (tx_len t - (sent + n)) = unat (tx_len t) - (unat sent + unat n)"
    "unat (tx_len t - sent) = unat (tx_len t) - unat sent"
    using s lt by (simp_all add: unat_minus_small)
  moreover have "n \<noteq> 0 \<or> io_mem io \<noteq> []" using 2(3) by simp
  then have "0 < unat n \<or> 0 < length (io_mem io)" by (simp add: unat_gt_0)
  ultimately have "unat (tx_len t - (sent + n)) + length (io_mem io1) < unat (tx_len t - sent) + length (io_mem io)"
    using s lt m by linarith
  then show ?case by (simp only: in_measure prod.case t1)
qed simp

declare tcp_push_loop.simps [simp del]

lemma tcp_push_loop_keeps:
  assumes "P sent t io" and "\<And>sent t io. P sent t io \<Longrightarrow> P sent t (io\<lparr>io_fault := True\<rparr>)"
    and "\<And>sent n t io t1 io1. P sent t io \<Longrightarrow> sent < tx_len t \<Longrightarrow> length (io_out io) < TCP_OUT_MAX \<Longrightarrow>
      tcp_push_size wnd sent t = Some n \<Longrightarrow> tcp_push_one now sent n t io = (t1, io1) \<Longrightarrow> P (sent + n) t1 io1"
  shows "case tcp_push_loop now wnd sent t io of (sent1, t1, io1) \<Rightarrow> P sent1 t1 io1"
  using assms(1,3)
proof (induction now wnd sent t io rule: tcp_push_loop.induct)
  case (1 now wnd sent t io)
  show ?case
  proof (cases "sent < tx_len t \<and> length (io_out io) < TCP_OUT_MAX")
    case True
    show ?thesis
    proof (cases "tcp_push_size wnd sent t")
      case None
      then show ?thesis using True 1(2) by (subst tcp_push_loop.simps) simp
    next
      case (Some n)
      obtain t1 io1 where o: "tcp_push_one now sent n t io = (t1, io1)" by fastforce
      have "P (sent + n) t1 io1" using 1(3) [OF 1(2) _ _ Some o] True by simp
      with 1(1) [OF True Some _ o [symmetric] _ 1(3)] True Some o show ?thesis
        using assms(2) [OF 1(2)] by (subst tcp_push_loop.simps) auto
    qed
  next
    case False
    show ?thesis by (subst tcp_push_loop.simps) (simp only: if_not_P [OF False] prod.case 1(2))
  qed
qed

definition tcp_push :: "u64 \<Rightarrow> tcb \<Rightarrow> tcp_io \<Rightarrow> tcb \<times> tcp_io" where
  "tcp_push now t io =
     (case tcp_push_recovery t io of
        (t1, io1) \<Rightarrow>
          if t_state t1 \<noteq> TCP_ESTABLISHED \<and> t_state t1 \<noteq> TCP_CLOSE_WAIT then (t1, io1)
          else
            let wnd = (if snd_wnd t1 < cwnd t1 then snd_wnd t1 else cwnd t1);
                (sent, t2, io2) = tcp_push_loop now wnd (snd_nxt t1 - snd_una t1) t1 io1;
                (t3, io3) =
                  (if fin_wanted t2 \<and> \<not> fin_sent t2 \<and> sent = tx_len t2 then
                     let (u, iu) = tcp_send_ctl (TCP_FIN OR TCP_ACK) (snd_nxt t2) t2 io2
                     in (tcp_arm_rto now (u\<lparr>snd_nxt := snd_nxt u + 1, fin_sent := True,
                           t_state := (if t_state u = TCP_CLOSE_WAIT then TCP_LAST_ACK else TCP_FIN_WAIT_1)\<rparr>), iu)
                   else (t2, io2))
            in (if tx_len t3 \<noteq> 0 \<and> sent = 0 \<and> snd_wnd t3 = 0 then tcp_arm_rto now t3 else t3, io3))"

section \<open>Closing and timeouts\<close>

definition tcp_set_closed :: "int \<Rightarrow> tcb \<Rightarrow> tcp_io \<Rightarrow> tcb \<times> tcp_io" where
  "tcp_set_closed err t io =
     (t\<lparr>t_error := (if err \<noteq> 0 \<and> t_error t = 0 then err else t_error t), t_state := TCP_CLOSED,
        rto_at := 0, recovery := TCP_RECOVERY_NONE\<rparr>,
      sched_wake (t_wait t) io)"

abbreviation tcb_at :: "tcp_tab \<Rightarrow> tref \<Rightarrow> tcb" where
  "tcb_at tab i \<equiv> the (tcbs tab i)"

definition put_tcb :: "tref \<Rightarrow> tcb \<Rightarrow> tcp_tab \<Rightarrow> tcp_tab" where
  "put_tcb i t tab = tab\<lparr>tcbs := (tcbs tab)(i \<mapsto> t)\<rparr>"

text \<open>Running an operation of one connection on the table.\<close>

definition on_tcb :: "tref \<Rightarrow> (tcb \<Rightarrow> tcp_io \<Rightarrow> tcb \<times> tcp_io) \<Rightarrow> tcp_tab \<Rightarrow> tcp_io \<Rightarrow> tcp_tab \<times> tcp_io" where
  "on_tcb i f tab io = (case f (tcb_at tab i) io of (t, io1) \<Rightarrow> (put_tcb i t tab, io1))"

definition tcp_unlink :: "tref \<Rightarrow> tcp_tab \<Rightarrow> tcp_tab" where
  "tcp_unlink i tab = put_tcb i ((tcb_at tab i)\<lparr>linked := False\<rparr>) (tab\<lparr>tcp_list := remove1 i (tcp_list tab)\<rparr>)"

definition tcp_free :: "tref \<Rightarrow> tcp_tab \<Rightarrow> tcp_tab" where
  "tcp_free i tab =
     (let tab1 = (if linked (tcb_at tab i) then tcp_unlink i tab else tab)
      in tab1\<lparr>tcbs := (tcbs tab1)(i := None)\<rparr>)"

definition tcp_drop_child :: "tref \<Rightarrow> tcp_tab \<Rightarrow> tcp_tab" where
  "tcp_drop_child i tab =
     (let tab1 = (case parent (tcb_at tab i) of
                    None \<Rightarrow> tab
                  | Some l \<Rightarrow> put_tcb l ((tcb_at tab l)\<lparr>t_pending := t_pending (tcb_at tab l) - 1\<rparr>) tab)
      in put_tcb i ((tcb_at tab1 i)\<lparr>parent := None, detached := True, t_state := TCP_CLOSED, rto_at := 0\<rparr>) tab1)"

definition tcp_enter_rto :: "tcb \<Rightarrow> tcb" where
  "tcp_enter_rto t =
     (let half = (snd_nxt t - snd_una t) div 2
      in t\<lparr>ssthresh := (if half > 2 * ucast (mss t) then half else 2 * ucast (mss t)),
           cwnd := ucast (mss t), dupacks := 0, rtx_one := False, recovery := TCP_RECOVERY_RTO,
           recover := snd_nxt t, rtx_nxt := snd_una t, rtt_at := 0\<rparr>)"

text \<open>Doubling the timeout, and what a timeout of a connection that is not given up on sends.\<close>

definition tcp_backoff :: "u64 \<Rightarrow> tcb \<Rightarrow> tcb" where
  "tcp_backoff now t =
     (let ms = (if rto_ms t * 2 > TCP_RTO_MAX_MS then TCP_RTO_MAX_MS else rto_ms t * 2)
      in t\<lparr>rto_ms := ms, rto_at := now + ucast ms\<rparr>)"

definition tcp_timeout_retry :: "u64 \<Rightarrow> tcb \<Rightarrow> tcp_io \<Rightarrow> tcb \<times> tcp_io" where
  "tcp_timeout_retry now t io =
     (let probe = snd_nxt t = snd_una t \<and> tx_len t \<noteq> 0 \<and> snd_wnd t = 0;
          syn = t_state t = TCP_SYN_SENT \<or> t_state t = TCP_SYN_RCVD;
          (t1, io1) =
            (if syn then tcp_send_syn t io
             else if probe then
               let (u, iu) = tcp_emit TCP_ACK (snd_nxt t) 0 1 [] t io in (u\<lparr>snd_nxt := snd_nxt u + 1\<rparr>, iu)
             else (tcp_enter_rto t, io))
      in (tcp_backoff now t1, io1))"

definition tcp_timeout :: "u64 \<Rightarrow> tref \<Rightarrow> tcp_tab \<Rightarrow> tcp_io \<Rightarrow> tcp_tab \<times> tcp_io" where
  "tcp_timeout now i tab io =
     (let t = tcb_at tab i;
          flight = snd_nxt t - snd_una t;
          probe = flight = 0 \<and> tx_len t \<noteq> 0 \<and> snd_wnd t = 0;
          syn = t_state t = TCP_SYN_SENT \<or> t_state t = TCP_SYN_RCVD;
          limit = (if syn then TCP_SYN_RETRIES else TCP_RETRIES);
          t1 = t\<lparr>retries := retries t + 1\<rparr>
      in if \<not> syn \<and> flight = 0 \<and> \<not> probe then (put_tcb i (t\<lparr>rto_at := 0\<rparr>) tab, io)
         else if retries t1 > limit then
           if t_state t = TCP_SYN_RCVD then (tcp_drop_child i (put_tcb i t1 tab), io)
           else
             let (t2, io2) = (if t_state t \<noteq> TCP_SYN_SENT then tcp_send_ctl TCP_RST (snd_nxt t1) t1 io else (t1, io));
                 (t3, io3) = tcp_set_closed (- ETIMEDOUT) t2 io2
             in (put_tcb i t3 tab, io3)
         else on_tcb i (tcp_timeout_retry now) (put_tcb i t1 tab) io)"

definition tcp_keepalive :: "u64 \<Rightarrow> tcb \<Rightarrow> tcp_io \<Rightarrow> tcb \<times> tcp_io" where
  "tcp_keepalive now t io =
     (if \<not> keepalive t \<or> t_state t \<noteq> TCP_ESTABLISHED \<and> t_state t \<noteq> TCP_CLOSE_WAIT then (t, io)
      else if snd_una t \<noteq> snd_nxt t then (t, io)
      else if now < last_rx t + (ucast (keep_idle t) + ucast (keep_sent t) * ucast (keep_intvl t)) * 1000 then (t, io)
      else if keep_sent t \<ge> keep_cnt t then
        let (t1, io1) = tcp_send_ctl TCP_RST (snd_nxt t) t io in tcp_set_closed (- ETIMEDOUT) t1 io1
      else tcp_send_ctl TCP_ACK (snd_nxt t - 1) (t\<lparr>keep_sent := keep_sent t + 1\<rparr>) io)"

definition tcp_tick_one :: "u64 \<Rightarrow> tref \<Rightarrow> tcp_tab \<times> tcp_io \<Rightarrow> tcp_tab \<times> tcp_io" where
  "tcp_tick_one now i s =
     (let (tab1, io1) = (if rto_at (tcb_at (fst s) i) \<noteq> 0 \<and> now \<ge> rto_at (tcb_at (fst s) i)
                         then tcp_timeout now i (fst s) (snd s) else s);
          (tab2, io2) = on_tcb i (tcp_push now) tab1 io1;
          (tab3, io3) = on_tcb i (tcp_keepalive now) tab2 io2;
          t3 = tcb_at tab3 i;
          (tab4, io4) = (if t_state t3 = TCP_TIME_WAIT \<and> now \<ge> done_at t3
                         then on_tcb i (tcp_set_closed 0) tab3 io3 else (tab3, io3));
          t4 = tcb_at tab4 i;
          (tab5, io5) =
            (if detached t4 \<and> t_state t4 \<noteq> TCP_CLOSED \<and> done_at t4 \<noteq> 0 \<and> now \<ge> done_at t4 then
               let (taba, ioa) = on_tcb i (tcp_send_ctl (TCP_RST OR TCP_ACK) (snd_nxt t4)) tab4 io4
               in on_tcb i (tcp_set_closed 0) taba ioa
             else (tab4, io4));
          t5 = tcb_at tab5 i
      in (if detached t5 \<and> t_state t5 = TCP_CLOSED then tcp_free i tab5
          else if t_state t5 = TCP_CLOSED \<and> linked t5 then tcp_unlink i tab5 else tab5, io5))"

text \<open>
  The tick visits the list as it stood: the successor is read before a connection is served, and
  serving one takes at most itself off.
\<close>

definition tcp_tick_all :: "u64 \<Rightarrow> tcp_tab \<Rightarrow> tcp_io \<Rightarrow> tcp_tab \<times> tcp_io" where
  "tcp_tick_all now tab io = fold (tcp_tick_one now) (tcp_list tab) (tab, io)"

section \<open>Receiving: options, round trip times, the handshake\<close>

fun tcp_find_from :: "tcp_tab \<Rightarrow> u32 \<Rightarrow> u16 \<Rightarrow> u32 \<Rightarrow> u16 \<Rightarrow> tref list \<Rightarrow> tref option \<Rightarrow> tref option" where
  "tcp_find_from tab src src_port dst dst_port [] listener = listener"
| "tcp_find_from tab src src_port dst dst_port (i # is) listener =
     (let t = tcb_at tab i
      in if local_port t \<noteq> dst_port \<or> t_state t = TCP_CLOSED
         then tcp_find_from tab src src_port dst dst_port is listener
         else if local_ip t \<noteq> 0 \<and> local_ip t \<noteq> dst
         then tcp_find_from tab src src_port dst dst_port is listener
         else if t_state t = TCP_LISTEN
         then tcp_find_from tab src src_port dst dst_port is (Some i)
         else if remote_port t = src_port \<and> remote_ip t = src then Some i
         else tcp_find_from tab src src_port dst dst_port is listener)"

definition tcp_find :: "tcp_tab \<Rightarrow> u32 \<Rightarrow> u16 \<Rightarrow> u32 \<Rightarrow> u16 \<Rightarrow> tref option" where
  "tcp_find tab src src_port dst dst_port = tcp_find_from tab src src_port dst dst_port (tcp_list tab) None"

definition tcp_hdr_of :: "bytes \<Rightarrow> tcp_hdr" where
  "tcp_hdr_of d =
     \<lparr>h_src_port = htons (ld16 d 0), h_dst_port = htons (ld16 d 2), h_seq = htonl (ld32 d 4),
      h_ack = htonl (ld32 d 8), h_off = d ! 12, h_flags = d ! 13, h_window = htons (ld16 d 14)\<rparr>"

definition tcp_one_opt :: "bytes \<Rightarrow> tcp_syn_opts \<Rightarrow> tcp_syn_opts" where
  "tcp_one_opt p o' =
     (if p ! 0 = TCP_OPT_MSS \<and> p ! 1 = 4 then o'\<lparr>o_mss := push_bit 8 (ucast (p ! 2)) OR ucast (p ! 3)\<rparr>
      else if p ! 0 = TCP_OPT_WSCALE \<and> p ! 1 = 3
      then o'\<lparr>o_has_wscale := True, o_wscale := (if p ! 2 > 14 then 14 else p ! 2)\<rparr>
      else if p ! 0 = TCP_OPT_SACK_OK \<and> p ! 1 = 2 then o'\<lparr>o_sack_ok := True\<rparr>
      else o')"

function tcp_parse_opts :: "bytes \<Rightarrow> tcp_syn_opts \<Rightarrow> tcp_syn_opts" where
  "tcp_parse_opts p o' =
     (if p = [] \<or> p ! 0 = TCP_OPT_END then o'
      else if p ! 0 = TCP_OPT_NOP then tcp_parse_opts (drop 1 p) o'
      else if length p < 2 \<or> p ! 1 < 2 \<or> unat (p ! 1) > length p then o'
      else tcp_parse_opts (drop (unat (p ! 1)) p) (tcp_one_opt p o'))"
  by pat_completeness auto

termination
  by (relation "measure (\<lambda>(p, o'). length p)")
    (auto simp: word_less_nat_alt not_less unat_gt_0 intro: Nat.gr0I)

declare tcp_parse_opts.simps [simp del]

definition tcp_parse_syn :: "bytes \<Rightarrow> nat \<Rightarrow> tcp_syn_opts" where
  "tcp_parse_syn d hlen =
     tcp_parse_opts (drop TCP_HLEN (take hlen d))
       \<lparr>o_mss = TCP_MSS_DEFAULT, o_wscale = 0, o_has_wscale = False, o_sack_ok = False\<rparr>"

definition tcp_use_syn_opts :: "u64 \<Rightarrow> tcp_syn_opts \<Rightarrow> tcb \<Rightarrow> tcb" where
  "tcp_use_syn_opts now o' t =
     (let m = (if o_mss o' < TCP_MSS then o_mss o' else TCP_MSS)
      in t\<lparr>mss := m, snd_shift := (if o_has_wscale o' then o_wscale o' else 0),
           rcv_shift := (if o_has_wscale o' then TCP_WSCALE else 0), sack_ok := o_sack_ok o',
           cwnd := TCP_INIT_CWND * ucast m, ssthresh := 0xFFFFFFFF, last_rx := now\<rparr>)"

definition tcp_rtt_sample :: "u64 \<Rightarrow> tcb \<Rightarrow> tcb" where
  "tcp_rtt_sample now t =
     (let rtt = ucast (now - rtt_at t);
          delta = (if rtt > srtt t then rtt - srtt t else srtt t - rtt);
          var = (if srtt t = 0 then rtt div 2 else (3 * rttvar t + delta) div 4);
          sm = (if srtt t = 0 then (if rtt \<noteq> 0 then rtt else 1) else (7 * srtt t + rtt) div 8);
          rto = sm + 4 * var;
          rto1 = (if rto < TCP_RTO_MIN_MS then TCP_RTO_MIN_MS else rto);
          rto2 = (if rto1 > TCP_RTO_MAX_MS then TCP_RTO_MAX_MS else rto1)
      in t\<lparr>rtt_at := 0, rttvar := var, srtt := sm, rto_base := rto2\<rparr>)"

definition tcp_syn_sent :: "u64 \<Rightarrow> tcp_hdr \<Rightarrow> bytes \<Rightarrow> nat \<Rightarrow> u32 \<Rightarrow> u32 \<Rightarrow> tcb \<Rightarrow> tcp_io \<Rightarrow> tcb \<times> tcp_io" where
  "tcp_syn_sent now h d hlen sq ack t io =
     (if h_flags h AND TCP_ACK \<noteq> 0 \<and> ack \<noteq> snd_nxt t then
        (if h_flags h AND TCP_RST = 0 then tcp_send_ctl TCP_RST ack t io else (t, io))
      else if h_flags h AND TCP_RST \<noteq> 0 then
        (if h_flags h AND TCP_ACK \<noteq> 0 then tcp_set_closed (- ECONNREFUSED) t io else (t, io))
      else if h_flags h AND TCP_SYN = 0 \<or> h_flags h AND TCP_ACK = 0 then (t, io)
      else
        let t1 = tcp_use_syn_opts now (tcp_parse_syn d hlen) t;
            t2 = t1\<lparr>rcv_nxt := sq + 1, snd_una := ack, snd_wnd := ucast (h_window h), snd_wl1 := sq,
                    t_state := TCP_ESTABLISHED, was_connected := True, rto_at := 0, rto_ms := rto_base t1,
                    retries := 0\<rparr>;
            (t3, io3) = tcp_send_ctl TCP_ACK (snd_nxt t2) t2 io
        in (t3, sched_wake (t_wait t3) io3))"

definition blank_tcb :: tcb where
  "blank_tcb =
     \<lparr>t_state = TCP_CLOSED, local_ip = 0, remote_ip = 0, local_port = 0, remote_port = 0, linked = False,
      iss = 0, snd_una = 0, snd_nxt = 0, snd_wnd = 0, snd_wl1 = 0, mss = TCP_MSS_DEFAULT, snd_shift = 0,
      rcv_shift = 0, shift_next = 0, sack_ok = False, rcv_nxt = 0, rcv_adv = 0, ooo = [], fin_seq = 0,
      fin_seen = False, cwnd = 0, ssthresh = 0, dupacks = 0, recovery = TCP_RECOVERY_NONE, recover = 0,
      rtx_nxt = 0, rtx_one = False, rtt_at = 0, rtt_seq = 0, srtt = 0, rttvar = 0, rto_base = TCP_RTO_MS,
      rx = [], rx_start = 0, rx_len = 0, tx = [], tx_start = 0, tx_len = 0, fin_wanted = False,
      fin_sent = False, peer_fin = False, rd_shut = False, was_connected = False, t_error = 0, rto_at = 0,
      rto_ms = TCP_RTO_MS, retries = 0, done_at = 0, t_wait = None, detached = False, keepalive = False,
      nodelay = False, keep_idle = TCP_KEEP_IDLE_S, keep_intvl = TCP_KEEP_INTVL_S, keep_cnt = TCP_KEEP_CNT,
      keep_sent = 0, last_rx = 0, parent = None, accept_q = [], backlog = 0, t_pending = 0\<rparr>"

definition tcp_alloc :: "tcp_tab \<Rightarrow> tref option \<times> tcp_tab" where
  "tcp_alloc tab =
     (case tcb_mem tab of
        [] \<Rightarrow> (None, tab)
      | None # ms \<Rightarrow> (None, tab\<lparr>tcb_mem := ms\<rparr>)
      | Some i # ms \<Rightarrow> (Some i, put_tcb i blank_tcb (tab\<lparr>tcb_mem := ms\<rparr>)))"

definition ring_alloc :: "tcp_tab \<Rightarrow> bytes option \<times> tcp_tab" where
  "ring_alloc tab = (case ring_mem tab of [] \<Rightarrow> (None, tab) | m # ms \<Rightarrow> (m, tab\<lparr>ring_mem := ms\<rparr>))"

definition tcp_alloc_rings :: "tref \<Rightarrow> tcp_tab \<Rightarrow> int \<times> tcp_tab" where
  "tcp_alloc_rings i tab =
     (let (r, tab1) = ring_alloc tab; (w, tab2) = ring_alloc tab1; t = tcb_at tab2 i
      in (case (r, w) of
            (Some rb, Some wb) \<Rightarrow> (0, put_tcb i (t\<lparr>rx := rb, tx := wb\<rparr>) tab2)
          | _ \<Rightarrow> (- ENOMEM, put_tcb i (t\<lparr>rx := [], tx := []\<rparr>) tab2)))"

definition tcp_link :: "tref \<Rightarrow> tcp_tab \<Rightarrow> tcp_tab" where
  "tcp_link i tab = put_tcb i ((tcb_at tab i)\<lparr>linked := True\<rparr>) (tab\<lparr>tcp_list := i # tcp_list tab\<rparr>)"

definition tcp_child :: "u64 \<Rightarrow> u32 \<Rightarrow> u32 \<Rightarrow> u32 \<Rightarrow> tcp_hdr \<Rightarrow> bytes \<Rightarrow> nat \<Rightarrow> tref \<Rightarrow> tcb \<Rightarrow> tcb \<Rightarrow> tcb" where
  "tcp_child now is src dst h d hlen l lt t =
     (let o' = tcp_parse_syn d hlen
      in (tcp_use_syn_opts now o' t)
           \<lparr>rcv_shift := 0, local_ip := dst, local_port := h_dst_port h, remote_ip := src,
            remote_port := h_src_port h, iss := is, snd_una := is, snd_nxt := is + 1,
            snd_wnd := ucast (h_window h), snd_wl1 := h_seq h, rcv_nxt := h_seq h + 1,
            t_state := TCP_SYN_RCVD, parent := Some l, keepalive := keepalive lt, nodelay := nodelay lt,
            keep_idle := keep_idle lt, keep_intvl := keep_intvl lt, keep_cnt := keep_cnt lt,
            shift_next := (if o_has_wscale o' then TCP_WSCALE else 0)\<rparr>)"

definition tcp_listen_input :: "(u32 list \<Rightarrow> u32) \<Rightarrow> u64 \<Rightarrow> u64 \<Rightarrow> tref \<Rightarrow> u32 \<Rightarrow> u32 \<Rightarrow> tcp_hdr \<Rightarrow> bytes \<Rightarrow> nat
    \<Rightarrow> nat \<Rightarrow> tcp_tab \<Rightarrow> tcp_io \<Rightarrow> tcp_tab \<times> tcp_io" where
  "tcp_listen_input key clk now l src dst h d hlen blen tab io =
     (if h_flags h AND TCP_RST \<noteq> 0 then (tab, io)
      else if h_flags h AND TCP_ACK \<noteq> 0 then (tab, tcp_reset_reply dst src h blen io)
      else if h_flags h AND TCP_SYN = 0 \<or> t_pending (tcb_at tab l) \<ge> backlog (tcb_at tab l) then (tab, io)
      else case tcp_alloc tab of
        (None, tab1) \<Rightarrow> (tab1, io)
      | (Some i, tab1) \<Rightarrow>
          let lt = tcb_at tab1 l;
              is = tcp_new_iss key clk dst (h_dst_port h) src (h_src_port h);
              tab2 = put_tcb i (tcp_child now is src dst h d hlen l lt (tcb_at tab1 i)) tab1;
              tab3 = put_tcb l (lt\<lparr>t_pending := t_pending lt + 1\<rparr>) tab2;
              (tab4, io4) = on_tcb i tcp_send_syn (tcp_link i tab3) io
          in on_tcb i (\<lambda>t io. (tcp_arm_rto now t, io)) tab4 io4)"

definition tcp_syn_rcvd :: "tref \<Rightarrow> tcp_hdr \<Rightarrow> u32 \<Rightarrow> u32 \<Rightarrow> tcp_tab \<Rightarrow> tcp_io \<Rightarrow> bool \<times> tcp_tab \<times> tcp_io" where
  "tcp_syn_rcvd i h sq ack tab io =
     (let t = tcb_at tab i
      in if h_flags h AND TCP_RST \<noteq> 0 then (False, if sq = rcv_nxt t then tcp_drop_child i tab else tab, io)
         else if h_flags h AND TCP_SYN \<noteq> 0 \<and> sq + 1 = rcv_nxt t then (False, on_tcb i tcp_send_syn tab io)
         else if h_flags h AND TCP_ACK = 0 then (False, tab, io)
         else if ack \<noteq> snd_nxt t then (False, on_tcb i (tcp_send_ctl TCP_RST ack) tab io)
         else case tcp_alloc_rings i tab of
           (err, tab1) \<Rightarrow>
             if err \<noteq> 0 then
               let (tab2, io2) = on_tcb i (tcp_send_ctl TCP_RST ack) tab1 io in (False, tcp_drop_child i tab2, io2)
             else
               let t1 = tcb_at tab1 i;
                   l = the (parent t1);
                   tab2 = put_tcb i (t1\<lparr>rcv_shift := shift_next t1, snd_una := ack, t_state := TCP_ESTABLISHED,
                            was_connected := True, rto_at := 0, rto_ms := rto_base t1, retries := 0\<rparr>) tab1;
                   lt = tcb_at tab2 l
               in (True, put_tcb l (lt\<lparr>accept_q := accept_q lt @ [i]\<rparr>) tab2, sched_wake (t_wait lt) io))"

section \<open>Receiving: acknowledgements\<close>

text \<open>The first result is the division by a zero window.\<close>

definition tcp_cc_acked :: "u32 \<Rightarrow> u32 \<Rightarrow> tcb \<Rightarrow> bool \<times> tcb" where
  "tcp_cc_acked acked ack t =
     (if recovery t = TCP_RECOVERY_FAST \<and> SEQ_LT ack (recover t) then
        (False, t\<lparr>cwnd := (if cwnd t > acked then cwnd t - acked + ucast (mss t) else ucast (mss t)),
                  rtx_one := True\<rparr>)
      else if recovery t \<noteq> TCP_RECOVERY_NONE \<and> \<not> SEQ_LT ack (recover t) then
        (False, t\<lparr>cwnd := (if recovery t = TCP_RECOVERY_FAST then ssthresh t else cwnd t),
                  recovery := TCP_RECOVERY_NONE, dupacks := 0\<rparr>)
      else
        let t1 = t\<lparr>dupacks := 0\<rparr>;
            inc = ucast (mss t) * ucast (mss t) div cwnd t;
            w = (if cwnd t < ssthresh t then cwnd t + (if acked < ucast (mss t) then acked else ucast (mss t))
                 else cwnd t + (if inc \<noteq> 0 then inc else 1))
        in (\<not> cwnd t < ssthresh t \<and> cwnd t = 0, t1\<lparr>cwnd := (if w > 0x40000000 then 0x40000000 else w)\<rparr>))"

definition tcp_cc_dupack :: "tcb \<Rightarrow> tcb" where
  "tcp_cc_dupack t =
     (if recovery t = TCP_RECOVERY_FAST then t\<lparr>cwnd := cwnd t + ucast (mss t)\<rparr>
      else if recovery t \<noteq> TCP_RECOVERY_NONE then t
      else
        let t1 = t\<lparr>dupacks := dupacks t + 1\<rparr>;
            half = (snd_nxt t - snd_una t) div 2;
            ss = (if half > 2 * ucast (mss t) then half else 2 * ucast (mss t))
        in if dupacks t1 < 3 then t1
           else t1\<lparr>ssthresh := ss, cwnd := ss + 3 * ucast (mss t), recovery := TCP_RECOVERY_FAST,
                   recover := snd_nxt t, rtx_one := True\<rparr>)"

text \<open>Our FIN is the last thing there is to acknowledge.\<close>

definition tcp_fin_acked :: "u64 \<Rightarrow> u32 \<Rightarrow> tcb \<Rightarrow> tcp_io \<Rightarrow> tcb \<times> tcp_io" where
  "tcp_fin_acked now ack t io =
     (if fin_sent t \<and> ack = snd_nxt t then
        if t_state t = TCP_FIN_WAIT_1 then (t\<lparr>t_state := TCP_FIN_WAIT_2\<rparr>, io)
        else if t_state t = TCP_CLOSING
        then (t\<lparr>t_state := TCP_TIME_WAIT, done_at := now + TCP_TIMEWAIT_MS\<rparr>, io)
        else if t_state t = TCP_LAST_ACK then tcp_set_closed 0 t io
        else (t, io)
      else (t, io))"

definition tcp_ack_advance :: "u64 \<Rightarrow> u32 \<Rightarrow> tcb \<Rightarrow> tcp_io \<Rightarrow> tcb \<times> tcp_io" where
  "tcp_ack_advance now ack t io =
     (let acked = ack - snd_una t;
          data = (if acked < tx_len t then acked else tx_len t);
          t1 = t\<lparr>tx_start := (tx_start t + data) mod of_nat TCP_TX_BUF, tx_len := tx_len t - data,
                 snd_una := ack, retries := 0, rto_ms := rto_base t, rto_at := 0\<rparr>;
          t2 = (if rtt_at t1 \<noteq> 0 \<and> SEQ_LT (rtt_seq t1) ack then tcp_rtt_sample now t1 else t1);
          t3 = t2\<lparr>rto_ms := rto_base t2\<rparr>;
          t4 = (if snd_una t3 \<noteq> snd_nxt t3 then tcp_arm_rto now t3 else t3);
          (fault, t5) = tcp_cc_acked acked ack t4;
          (t6, io6) = tcp_fin_acked now ack t5 (if fault then io\<lparr>io_fault := True\<rparr> else io)
      in (t6, sched_wake (t_wait t6) io6))"

definition tcp_got_ack :: "u64 \<Rightarrow> u32 \<Rightarrow> u32 \<Rightarrow> u16 \<Rightarrow> bool \<Rightarrow> tcb \<Rightarrow> tcp_io \<Rightarrow> tcb \<times> tcp_io" where
  "tcp_got_ack now sq ack raw_window bare t io =
     (let window = push_bit (unat (snd_shift t)) (ucast raw_window);
          moved = window \<noteq> snd_wnd t;
          (t1, io1) =
            (if SEQ_LT (snd_una t) ack \<and> SEQ_LEQ ack (snd_nxt t) then tcp_ack_advance now ack t io
             else if ack = snd_una t \<and> bare \<and> \<not> moved \<and> snd_una t \<noteq> snd_nxt t then (tcp_cc_dupack t, io)
             else (t, io));
          t2 = (if snd_wnd t1 = 0 \<and> window \<noteq> 0 \<and> ack = snd_una t1 \<and> snd_nxt t1 - ack = 1 \<and> \<not> fin_sent t1
                then t1\<lparr>snd_nxt := ack, rto_at := 0, rto_ms := rto_base t1\<rparr> else t1);
          t3 = (if window = 0 \<and> ack = snd_una t2 then t2\<lparr>retries := 0\<rparr> else t2)
      in (if SEQ_LEQ (snd_una t3) ack \<and> SEQ_LEQ ack (snd_nxt t3) \<and> SEQ_LEQ (snd_wl1 t3) sq
          then t3\<lparr>snd_wnd := window, snd_wl1 := sq\<rparr> else t3, io1))"

section \<open>Receiving: data\<close>

fun ooo_absorb :: "u32 \<Rightarrow> tcp_range list \<Rightarrow> u32 \<times> tcp_range list" where
  "ooo_absorb e [] = (e, [])"
| "ooo_absorb e (q # qs) =
     (if SEQ_LEQ (r_start q) e then ooo_absorb (if SEQ_LT e (r_end q) then r_end q else e) qs else (e, q # qs))"

definition ooo_insert :: "u32 \<Rightarrow> u32 \<Rightarrow> tcp_range list \<Rightarrow> tcp_range list" where
  "ooo_insert s e rs =
     (let pre = takeWhile (\<lambda>r. SEQ_LT (r_end r) s) rs; post = dropWhile (\<lambda>r. SEQ_LT (r_end r) s) rs
      in case post of
           r # qs \<Rightarrow>
             if SEQ_LEQ (r_start r) e then
               let s1 = (if SEQ_LT s (r_start r) then s else r_start r);
                   (e1, qs1) = ooo_absorb (if SEQ_LT (r_end r) e then e else r_end r) qs
               in pre @ \<lparr>r_start = s1, r_end = e1\<rparr> # qs1
             else if length rs = TCP_OOO_MAX then rs
             else pre @ \<lparr>r_start = s, r_end = e\<rparr> # post
         | [] \<Rightarrow> if length rs = TCP_OOO_MAX then rs else pre @ [\<lparr>r_start = s, r_end = e\<rparr>])"

definition tcp_ooo_add :: "u32 \<Rightarrow> u32 \<Rightarrow> tcb \<Rightarrow> tcb" where
  "tcp_ooo_add s e t = t\<lparr>ooo := ooo_insert s e (ooo t)\<rparr>"

fun ooo_settle :: "tcp_range list \<Rightarrow> u32 \<Rightarrow> u32 \<Rightarrow> tcp_range list \<times> u32 \<times> u32" where
  "ooo_settle [] nxt len = ([], nxt, len)"
| "ooo_settle (r # rs) nxt len =
     (if SEQ_LEQ (r_start r) nxt then
        if SEQ_LT nxt (r_end r) then ooo_settle rs (r_end r) (len + (r_end r - nxt)) else ooo_settle rs nxt len
      else (r # rs, nxt, len))"

definition tcp_ooo_settle :: "tcb \<Rightarrow> tcb" where
  "tcp_ooo_settle t =
     (case ooo_settle (ooo t) (rcv_nxt t) (rx_len t) of
        (rs, nxt, len) \<Rightarrow> t\<lparr>ooo := rs, rcv_nxt := nxt, rx_len := len\<rparr>)"

text \<open>The FIN is reached.\<close>

definition tcp_fin_reached :: "u64 \<Rightarrow> tcb \<Rightarrow> tcb" where
  "tcp_fin_reached now t =
     (if fin_seen t \<and> fin_seq t = rcv_nxt t then
        let t1 = t\<lparr>rcv_nxt := rcv_nxt t + 1, peer_fin := True\<rparr>
        in if t_state t1 = TCP_ESTABLISHED then t1\<lparr>t_state := TCP_CLOSE_WAIT\<rparr>
           else if t_state t1 = TCP_FIN_WAIT_1 then t1\<lparr>t_state := TCP_CLOSING\<rparr>
           else if t_state t1 = TCP_FIN_WAIT_2
           then t1\<lparr>t_state := TCP_TIME_WAIT, done_at := now + TCP_TIMEWAIT_MS\<rparr>
           else t1
      else t)"

text \<open>The two copies into the ring and the note of a FIN; then the bytes are counted.\<close>

definition tcp_store_data :: "u32 \<Rightarrow> u32 \<Rightarrow> bytes \<Rightarrow> u32 \<Rightarrow> bool \<Rightarrow> tcb \<Rightarrow> tcb" where
  "tcp_store_data sq off data tk fin t =
     (let at = (rx_start t + rx_len t + off) mod of_nat TCP_RX_BUF;
          t1 = t\<lparr>rx := ring_put (rx t) (unat at) (take (unat tk) data)\<rparr>
      in if fin \<and> unat tk = length data then t1\<lparr>fin_seen := True, fin_seq := sq + tk\<rparr> else t1)"

definition tcp_count_data :: "u32 \<Rightarrow> u32 \<Rightarrow> u32 \<Rightarrow> tcb \<Rightarrow> tcb" where
  "tcp_count_data sq off tk t =
     (if off \<noteq> 0 then if tk \<noteq> 0 then tcp_ooo_add sq (sq + tk) t else t
      else tcp_ooo_settle (t\<lparr>rx_len := rx_len t + tk, rcv_nxt := rcv_nxt t + tk\<rparr>))"

text \<open>A block that starts at or behind \<open>rcv_nxt\<close>.\<close>

definition tcp_take_data :: "u64 \<Rightarrow> u32 \<Rightarrow> bytes \<Rightarrow> bool \<Rightarrow> tcb \<Rightarrow> tcp_io \<Rightarrow> tcb \<times> tcp_io" where
  "tcp_take_data now sq data fin t io =
     (let off = sq - rcv_nxt t;
          room = of_nat TCP_RX_BUF - rx_len t;
          tk = (if length data < unat (room - off) then of_nat (length data) else room - off);
          t1 = tcp_fin_reached now (tcp_count_data sq off tk (tcp_store_data sq off data tk fin t))
      in if peer_fin t \<or> off \<noteq> 0 \<and> off \<ge> room then (t, io)
         else (t1, if rx_len t1 \<noteq> rx_len t \<or> peer_fin t1 then sched_wake (t_wait t1) io else io))"

definition tcp_got_data :: "u64 \<Rightarrow> u32 \<Rightarrow> bytes \<Rightarrow> bool \<Rightarrow> tcb \<Rightarrow> tcp_io \<Rightarrow> tcb \<times> tcp_io" where
  "tcp_got_data now sq data fin t io =
     (if SEQ_LT sq (rcv_nxt t) then
        let skip = rcv_nxt t - sq
        in if unat skip > length data then (t, io)
           else tcp_take_data now (rcv_nxt t) (drop (unat skip) data) fin t io
      else tcp_take_data now sq data fin t io)"

definition tcp_can_take_data :: "tcb \<Rightarrow> bool" where
  "tcp_can_take_data t \<longleftrightarrow>
     t_state t = TCP_ESTABLISHED \<or> t_state t = TCP_FIN_WAIT_1 \<or> t_state t = TCP_FIN_WAIT_2"

section \<open>Receiving: a segment\<close>

text \<open>A segment for a connection past its handshake that is no reset.\<close>

definition tcp_segment_arrives :: "u64 \<Rightarrow> tcp_hdr \<Rightarrow> bytes \<Rightarrow> tcb \<Rightarrow> tcp_io \<Rightarrow> tcb \<times> tcp_io" where
  "tcp_segment_arrives now h body t0 io =
     (let t = t0\<lparr>last_rx := now, keep_sent := 0\<rparr>;
          sq = h_seq h; ack = h_ack h;
          has_ack = h_flags h AND TCP_ACK \<noteq> 0;
          fin = h_flags h AND TCP_FIN \<noteq> 0;
          carry = body \<noteq> [] \<or> fin;
          answer = carry \<or> h_flags h AND TCP_SYN \<noteq> 0
      in if has_ack \<and> SEQ_LT (snd_nxt t) ack then tcp_send_ctl TCP_ACK (snd_nxt t) t io
         else if detached t \<and> body \<noteq> [] \<and> SEQ_LT (rcv_nxt t) (sq + of_nat (length body)) \<and> tcp_can_take_data t then
           let (t1, io1) = tcp_send_ctl (TCP_RST OR TCP_ACK) ack t io in tcp_set_closed 0 t1 io1
         else
           let (t1, io1) = (if has_ack then tcp_got_ack now sq ack (h_window h) (\<not> carry) t io else (t, io));
               (t2, io2) = (if carry \<and> tcp_can_take_data t1 then tcp_got_data now sq body fin t1 io1 else (t1, io1))
           in if t_state t2 = TCP_CLOSED then (t2, io2)
              else
                let (t3, io3) = tcp_push now t2 io2
                in if answer then tcp_send_ack t3 io3 else (t3, io3))"

definition tcp_reset_arrives :: "u32 \<Rightarrow> tcb \<Rightarrow> tcp_io \<Rightarrow> tcb \<times> tcp_io" where
  "tcp_reset_arrives sq t io =
     (let win = of_nat TCP_RX_BUF - rx_len t
      in if sq = rcv_nxt t \<or> SEQ_LEQ (rcv_nxt t) sq \<and> SEQ_LT sq (rcv_nxt t + (if win \<noteq> 0 then win else 1))
         then tcp_set_closed (if peer_fin t then 0 else - ECONNRESET) t io
         else (t, io))"

definition tcp_dispatch :: "(u32 list \<Rightarrow> u32) \<Rightarrow> u64 \<Rightarrow> u64 \<Rightarrow> u32 \<Rightarrow> u32 \<Rightarrow> bytes \<Rightarrow> tcp_tab \<Rightarrow> tcp_io
    \<Rightarrow> tcp_tab \<times> tcp_io" where
  "tcp_dispatch key clk now src dst data tab io =
     (let h = tcp_hdr_of data;
          hlen = unat (drop_bit 4 (h_off h)) * 4;
          body = drop hlen data;
          find = (\<lambda>tab. tcp_find tab src (h_src_port h) dst (h_dst_port h));
          (t0, tab0, io0) =
            (case find tab of
               Some i \<Rightarrow>
                 if t_state (tcb_at tab i) = TCP_TIME_WAIT \<and> h_flags h AND TCP_SYN \<noteq> 0
                    \<and> h_flags h AND TCP_ACK = 0 \<and> SEQ_LT (rcv_nxt (tcb_at tab i)) (h_seq h)
                 then let (tab1, io1) = on_tcb i (tcp_set_closed 0) tab io in (find tab1, tab1, io1)
                 else (Some i, tab, io)
             | None \<Rightarrow> (None, tab, io))
      in case t0 of
           None \<Rightarrow> (tab0, if h_flags h AND TCP_RST = 0 then tcp_reset_reply dst src h (length body) io0 else io0)
         | Some i \<Rightarrow>
             if t_state (tcb_at tab0 i) = TCP_LISTEN
             then tcp_listen_input key clk now i src dst h data hlen (length body) tab0 io0
             else if t_state (tcb_at tab0 i) = TCP_SYN_SENT
             then on_tcb i (tcp_syn_sent now h data hlen (h_seq h) (h_ack h)) tab0 io0
             else if h_flags h AND TCP_RST \<noteq> 0 then
               if t_state (tcb_at tab0 i) = TCP_SYN_RCVD then snd (tcp_syn_rcvd i h (h_seq h) (h_ack h) tab0 io0)
               else on_tcb i (tcp_reset_arrives (h_seq h)) tab0 io0
             else
               let (go, tab1, io1) = (if t_state (tcb_at tab0 i) \<noteq> TCP_SYN_RCVD then (True, tab0, io0)
                                      else tcp_syn_rcvd i h (h_seq h) (h_ack h) tab0 io0)
               in if go then on_tcb i (tcp_segment_arrives now h body) tab1 io1 else (tab1, io1))"

record tcp_state = udp_state +
  tcp :: tcp_tab
  woken :: "nat list"
  tcp_fault :: bool

definition tcp_out_flush :: "(nif_ref \<Rightarrow> bytes \<Rightarrow> int) \<Rightarrow> (ip_up \<Rightarrow> 'a ip_state_scheme \<Rightarrow> 'a ip_state_scheme) \<Rightarrow> u64
    \<Rightarrow> (netbuf \<times> u32 \<times> u32) list \<Rightarrow> 'a ip_state_scheme \<Rightarrow> 'a ip_state_scheme" where
  "tcp_out_flush drv up now out s =
     fold (\<lambda>(nb, src, dst) s. snd (ipv4_output drv up now s None nb src dst IP_PROTO_TCP)) out s"

text \<open>One critical section under \<open>tcp_lock\<close> and the flush behind it.\<close>

definition tcp_locked :: "(nif_ref \<Rightarrow> bytes \<Rightarrow> int) \<Rightarrow> (ip_up \<Rightarrow> 'a tcp_state_scheme \<Rightarrow> 'a tcp_state_scheme) \<Rightarrow> u64
    \<Rightarrow> (tcp_tab \<Rightarrow> tcp_io \<Rightarrow> 'r \<times> tcp_tab \<times> tcp_io) \<Rightarrow> 'a tcp_state_scheme \<Rightarrow> 'r \<times> 'a tcp_state_scheme" where
  "tcp_locked drv up now f s =
     (case f (tcp s) \<lparr>io_mem = nb_mem s, io_out = [], io_wake = woken s, io_fault = tcp_fault s\<rparr> of
        (r, tab, io) \<Rightarrow>
          (r, tcp_out_flush drv up now (io_out io)
                (s\<lparr>nb_mem := io_mem io, tcp := tab, woken := io_wake io, tcp_fault := io_fault io\<rparr>)))"

definition tcp_accepts :: "u32 \<Rightarrow> u32 \<Rightarrow> bytes \<Rightarrow> bool" where
  "tcp_accepts src dst data \<longleftrightarrow>
     length data \<ge> TCP_HLEN
     \<and> (let hlen = unat (drop_bit 4 (h_off (tcp_hdr_of data))) * 4 in TCP_HLEN \<le> hlen \<and> hlen \<le> length data)
     \<and> net_checksum data (ipv4_pseudo_sum src dst IP_PROTO_TCP (length data)) = 0"

definition tcp_input :: "(nif_ref \<Rightarrow> bytes \<Rightarrow> int) \<Rightarrow> (ip_up \<Rightarrow> 'a tcp_state_scheme \<Rightarrow> 'a tcp_state_scheme)
    \<Rightarrow> (u32 list \<Rightarrow> u32) \<Rightarrow> u64 \<Rightarrow> u64 \<Rightarrow> u32 \<Rightarrow> u32 \<Rightarrow> bytes \<Rightarrow> 'a tcp_state_scheme \<Rightarrow> 'a tcp_state_scheme" where
  "tcp_input drv up key clk now src dst data s =
     (if \<not> tcp_accepts src dst data then s
      else snd (tcp_locked drv up now (\<lambda>tab io. ((), tcp_dispatch key clk now src dst data tab io)) s))"

definition tcp_unreachable :: "u8 \<Rightarrow> u32 \<Rightarrow> u16 \<Rightarrow> u32 \<Rightarrow> u16 \<Rightarrow> u32 \<Rightarrow> tcp_tab \<Rightarrow> tcp_io \<Rightarrow> tcp_tab \<times> tcp_io" where
  "tcp_unreachable code src src_port dst dst_port sq tab io =
     (case tcp_find tab dst dst_port src src_port of
        None \<Rightarrow> (tab, io)
      | Some i \<Rightarrow>
          if t_state (tcb_at tab i) = TCP_SYN_SENT \<and> sq = iss (tcb_at tab i) then
            on_tcb i (tcp_set_closed (if code = 0 then - ENETUNREACH
                                      else if code = 2 \<or> code = 3 then - ECONNREFUSED else - EHOSTUNREACH)) tab io
          else (tab, io))"

definition tcp_tick :: "(nif_ref \<Rightarrow> bytes \<Rightarrow> int) \<Rightarrow> (ip_up \<Rightarrow> 'a tcp_state_scheme \<Rightarrow> 'a tcp_state_scheme) \<Rightarrow> u64
    \<Rightarrow> 'a tcp_state_scheme \<Rightarrow> 'a tcp_state_scheme" where
  "tcp_tick drv up now s = snd (tcp_locked drv up now (\<lambda>tab io. ((), tcp_tick_all now tab io)) s)"

section \<open>The interface to sockets\<close>

definition tcp_create :: "nat \<Rightarrow> tcp_tab \<Rightarrow> tref option \<times> tcp_tab" where
  "tcp_create wq tab =
     (case tcp_alloc tab of
        (None, tab1) \<Rightarrow> (None, tab1)
      | (Some i, tab1) \<Rightarrow>
          (case tcp_alloc_rings i tab1 of
             (err, tab2) \<Rightarrow>
               if err \<noteq> 0 then (None, tab2\<lparr>tcbs := (tcbs tab2)(i := None)\<rparr>)
               else (Some i, put_tcb i ((tcb_at tab2 i)\<lparr>t_wait := Some wq\<rparr>) tab2)))"

definition tcp_connect_locked :: "(u32 list \<Rightarrow> u32) \<Rightarrow> u64 \<Rightarrow> u64 \<Rightarrow> tref \<Rightarrow> u32 \<Rightarrow> u16 \<Rightarrow> u32 \<Rightarrow> u16
    \<Rightarrow> tcp_tab \<Rightarrow> tcp_io \<Rightarrow> int \<times> tcp_tab \<times> tcp_io" where
  "tcp_connect_locked key clk now i src lport rip rport tab io =
     (let t = tcb_at tab i
      in if t_state t = TCP_SYN_SENT then (- EALREADY, tab, io)
         else if t_state t \<noteq> TCP_CLOSED \<or> was_connected t then (- EISCONN, tab, io)
         else
           let is = tcp_new_iss key clk src lport rip rport;
               t1 = t\<lparr>local_ip := src, local_port := lport, remote_ip := rip, remote_port := rport, iss := is,
                      snd_una := is, snd_nxt := is + 1, t_state := TCP_SYN_SENT, t_error := 0, retries := 0,
                      rto_ms := rto_base t, rto_at := 0\<rparr>;
               (t2, io2) = tcp_send_syn t1 io;
               t3 = tcp_arm_rto now t2;
               tab3 = put_tcb i t3 tab
           in (0, if linked t3 then tab3 else tcp_link i tab3, io2))"

definition tcp_connect :: "(nif_ref \<Rightarrow> bytes \<Rightarrow> int) \<Rightarrow> (ip_up \<Rightarrow> 'a tcp_state_scheme \<Rightarrow> 'a tcp_state_scheme)
    \<Rightarrow> (u32 list \<Rightarrow> u32) \<Rightarrow> u64 \<Rightarrow> u64 \<Rightarrow> tref \<Rightarrow> u32 \<Rightarrow> u16 \<Rightarrow> u32 \<Rightarrow> u16 \<Rightarrow> 'a tcp_state_scheme
    \<Rightarrow> int \<times> 'a tcp_state_scheme" where
  "tcp_connect drv up key clk now i lip lport rip rport s =
     (case ipv4_route s rip of
        None \<Rightarrow> (- ENETUNREACH, s)
      | Some r \<Rightarrow>
          let src = (if lip \<noteq> 0 then lip else ipv4_source (get_nif s r) rip)
          in if src = 0 then (- ENETUNREACH, s)
             else tcp_locked drv up now (tcp_connect_locked key clk now i src lport rip rport) s)"

definition tcp_connect_result :: "tcb \<Rightarrow> int" where
  "tcp_connect_result t =
     (if t_state t = TCP_SYN_SENT then - EINPROGRESS
      else if was_connected t then 0
      else if t_error t \<noteq> 0 then t_error t else - ECONNREFUSED)"

definition tcp_listen :: "tref \<Rightarrow> u32 \<Rightarrow> u16 \<Rightarrow> int \<Rightarrow> tcp_tab \<Rightarrow> int \<times> tcp_tab" where
  "tcp_listen i lip lport blog tab =
     (let b0 = (if blog < 1 then 1 else blog);
          b = (if b0 > TCP_BACKLOG_MAX then TCP_BACKLOG_MAX else b0);
          t = tcb_at tab i
      in if t_state t = TCP_LISTEN then (0, put_tcb i (t\<lparr>backlog := b\<rparr>) tab)
         else if t_state t \<noteq> TCP_CLOSED \<or> was_connected t then (- EISCONN, tab)
         else
           let tab1 = put_tcb i (t\<lparr>local_ip := lip, local_port := lport, backlog := b, t_state := TCP_LISTEN\<rparr>) tab;
               tab2 = (if linked t then tab1 else tcp_link i tab1)
           in (0, put_tcb i ((tcb_at tab2 i)\<lparr>rx := [], tx := []\<rparr>) tab2))"

definition tcp_accept :: "tref \<Rightarrow> nat \<Rightarrow> tcp_tab \<Rightarrow> int \<times> tref option \<times> tcp_tab" where
  "tcp_accept i wq tab =
     (let t = tcb_at tab i
      in if t_state t \<noteq> TCP_LISTEN then (- EINVAL, None, tab)
         else case accept_q t of
           [] \<Rightarrow> (- EAGAIN, None, tab)
         | c # cs \<Rightarrow>
             let tab1 = put_tcb i (t\<lparr>accept_q := cs, t_pending := t_pending t - 1\<rparr>) tab
             in (0, Some c, put_tcb c ((tcb_at tab1 c)\<lparr>parent := None, t_wait := Some wq\<rparr>) tab1))"

definition tcp_endpoints :: "tcb \<Rightarrow> u32 \<times> u16 \<times> u32 \<times> u16" where
  "tcp_endpoints t = (local_ip t, local_port t, remote_ip t, remote_port t)"

definition tcp_shutdown :: "u64 \<Rightarrow> bool \<Rightarrow> bool \<Rightarrow> tcb \<Rightarrow> tcp_io \<Rightarrow> int \<times> tcb \<times> tcp_io" where
  "tcp_shutdown now rd wr t io =
     (if \<not> was_connected t \<or> t_state t = TCP_CLOSED then (- ENOTCONN, t, io)
      else
        let t1 = (if rd then t\<lparr>rd_shut := True\<rparr> else t);
            (t2, io2) = (if wr \<and> \<not> fin_wanted t1 then tcp_push now (t1\<lparr>fin_wanted := True\<rparr>) io else (t1, io))
        in (0, t2, sched_wake (t_wait t2) io2))"

definition tcp_send :: "u64 \<Rightarrow> bytes \<Rightarrow> tcb \<Rightarrow> tcp_io \<Rightarrow> int \<times> tcb \<times> tcp_io" where
  "tcp_send now buf t io =
     (if t_error t \<noteq> 0 then (t_error t, t, io)
      else if t_state t = TCP_SYN_SENT then (- EAGAIN, t, io)
      else if t_state t \<noteq> TCP_ESTABLISHED \<and> t_state t \<noteq> TCP_CLOSE_WAIT \<or> fin_wanted t
      then (if was_connected t then - EPIPE else - ENOTCONN, t, io)
      else
        let room = of_nat TCP_TX_BUF - tx_len t;
            n = (if length buf < unat room then of_nat (length buf) else room);
            at = (tx_start t + tx_len t) mod of_nat TCP_TX_BUF;
            t1 = t\<lparr>tx := ring_put (tx t) (unat at) (take (unat n) buf), tx_len := tx_len t + n\<rparr>;
            (t2, io2) = tcp_push now t1 io
        in (if n \<noteq> 0 then uint n else - EAGAIN, t2, io2))"

text \<open>The bytes handed out are the second result.\<close>

definition tcp_recv :: "nat \<Rightarrow> bool \<Rightarrow> tcb \<Rightarrow> tcp_io \<Rightarrow> int \<times> bytes \<times> tcb \<times> tcp_io" where
  "tcp_recv len peek t io =
     (if rx_len t \<noteq> 0 then
        let n = (if len < unat (rx_len t) then of_nat len else rx_len t);
            buf = ring_get (rx t) (unat (rx_start t)) (unat n)
        in if peek then (uint n, buf, t, io)
           else
             let t1 = t\<lparr>rx_start := (rx_start t + n) mod of_nat TCP_RX_BUF, rx_len := rx_len t - n\<rparr>;
                 edge = rcv_nxt t1 + (of_nat TCP_RX_BUF - rx_len t1);
                 told = rcv_adv t1 - rcv_nxt t1;
                 (t2, io2) =
                   (if told < of_nat (TCP_RX_BUF div 4) \<and> sint (edge - rcv_adv t1) \<ge> 2 * uint TCP_MSS
                       \<and> t_state t1 \<noteq> TCP_CLOSED
                    then tcp_send_ctl TCP_ACK (snd_nxt t1) t1 io else (t1, io))
             in (uint n, buf, t2, io2)
      else if peer_fin t \<or> rd_shut t then (0, [], t, io)
      else if t_error t \<noteq> 0 then (t_error t, [], t\<lparr>t_error := 0\<rparr>, io)
      else if t_state t = TCP_CLOSED \<or> t_state t = TCP_LISTEN
      then (if was_connected t then 0 else - ENOTCONN, [], t, io)
      else (- EAGAIN, [], t, io))"

definition tcp_poll :: "tcb \<Rightarrow> int" where
  "tcp_poll t =
     (let ready =
        (if t_state t = TCP_LISTEN then (if accept_q t \<noteq> [] then POLLIN else 0)
         else if t_state t = TCP_CLOSED then (POLLHUP OR POLLOUT) OR (if was_connected t then POLLIN else 0)
         else (if rx_len t \<noteq> 0 \<or> peer_fin t \<or> rd_shut t then POLLIN else 0)
              OR (if (t_state t = TCP_ESTABLISHED \<or> t_state t = TCP_CLOSE_WAIT) \<and> \<not> fin_wanted t
                     \<and> tx_len t < of_nat TCP_TX_BUF then POLLOUT else 0))
      in if t_error t \<noteq> 0 then ready OR (POLLERR OR POLLIN OR POLLOUT) else ready)"

definition tcp_take_error :: "tcb \<Rightarrow> int \<times> tcb" where
  "tcp_take_error t = (t_error t, t\<lparr>t_error := 0\<rparr>)"

definition tcp_pending :: "tcb \<Rightarrow> u32" where
  "tcp_pending t = rx_len t"

definition tcp_setopt :: "int \<Rightarrow> int \<Rightarrow> tcb \<Rightarrow> int \<times> tcb" where
  "tcp_setopt name val t =
     (if name = TCP_NODELAY then (0, t\<lparr>nodelay := val \<noteq> 0\<rparr>)
      else if name = TCP_KEEPIDLE then (if val < 1 then (- EINVAL, t) else (0, t\<lparr>keep_idle := of_int val\<rparr>))
      else if name = TCP_KEEPINTVL then (if val < 1 then (- EINVAL, t) else (0, t\<lparr>keep_intvl := of_int val\<rparr>))
      else if name = TCP_KEEPCNT then (if val < 1 then (- EINVAL, t) else (0, t\<lparr>keep_cnt := of_int val\<rparr>))
      else if name = TCP_MAXSEG then (0, t)
      else (- ENOPROTOOPT, t))"

definition tcp_getopt :: "int \<Rightarrow> tcb \<Rightarrow> int \<times> int option" where
  "tcp_getopt name t =
     (if name = TCP_NODELAY then (0, Some (if nodelay t then 1 else 0))
      else if name = TCP_KEEPIDLE then (0, Some (sint (keep_idle t)))
      else if name = TCP_KEEPINTVL then (0, Some (sint (keep_intvl t)))
      else if name = TCP_KEEPCNT then (0, Some (sint (keep_cnt t)))
      else if name = TCP_MAXSEG then (0, Some (uint (mss t)))
      else (- ENOPROTOOPT, None))"

definition tcp_set_keepalive :: "u64 \<Rightarrow> bool \<Rightarrow> tcb \<Rightarrow> tcb" where
  "tcp_set_keepalive now on t = t\<lparr>keepalive := on, keep_sent := 0, last_rx := now\<rparr>"

definition tcp_get_keepalive :: "tcb \<Rightarrow> bool" where
  "tcp_get_keepalive t = keepalive t"

definition tcp_is_listening :: "tcb \<Rightarrow> bool" where
  "tcp_is_listening t \<longleftrightarrow> t_state t = TCP_LISTEN"

text \<open>The two loops of \<open>tcp_listener_gone\<close>.\<close>

definition tcp_drop_queued :: "tref \<Rightarrow> tcp_tab \<times> tcp_io \<Rightarrow> tcp_tab \<times> tcp_io" where
  "tcp_drop_queued c s =
     (let (tab1, io1) =
        (if t_state (tcb_at (fst s) c) \<noteq> TCP_CLOSED
         then on_tcb c (tcp_send_ctl (TCP_RST OR TCP_ACK) (snd_nxt (tcb_at (fst s) c))) (fst s) (snd s) else s)
      in (tcp_free c tab1, io1))"

definition tcp_drop_half_open :: "tref \<Rightarrow> tref \<Rightarrow> tcp_tab \<times> tcp_io \<Rightarrow> tcp_tab \<times> tcp_io" where
  "tcp_drop_half_open l i s =
     (if parent (tcb_at (fst s) i) = Some l then
        let (tab1, io1) = on_tcb i (tcp_send_ctl (TCP_RST OR TCP_ACK) (snd_nxt (tcb_at (fst s) i))) (fst s) (snd s)
        in (tcp_drop_child i tab1, io1)
      else s)"

definition tcp_listener_gone :: "tref \<Rightarrow> tcp_tab \<Rightarrow> tcp_io \<Rightarrow> tcp_tab \<times> tcp_io" where
  "tcp_listener_gone l tab io =
     (let s = fold tcp_drop_queued (accept_q (tcb_at tab l)) (tab, io)
      in fold (tcp_drop_half_open l) (tcp_list (fst s)) s)"

definition tcp_detach_locked :: "u64 \<Rightarrow> tref \<Rightarrow> bool \<Rightarrow> tcp_tab \<Rightarrow> tcp_io \<Rightarrow> tcp_tab \<times> tcp_io" where
  "tcp_detach_locked now i abort tab io =
     (let t = (tcb_at tab i)\<lparr>t_wait := None, detached := True\<rparr>;
          tab1 = put_tcb i t tab
      in if t_state t = TCP_LISTEN then
           let (tab2, io2) = tcp_listener_gone i tab1 io in (tcp_free i tab2, io2)
         else if t_state t = TCP_CLOSED \<or> t_state t = TCP_SYN_SENT then (tcp_free i tab1, io)
         else if abort \<or> rx_len t \<noteq> 0 \<and> \<not> fin_sent t then
           let (tab2, io2) = on_tcb i (tcp_send_ctl (TCP_RST OR TCP_ACK) (snd_nxt t)) tab1 io
           in (tcp_free i tab2, io2)
         else if t_state t \<noteq> TCP_TIME_WAIT then
           on_tcb i (tcp_push now) (put_tcb i (t\<lparr>fin_wanted := True, done_at := now + TCP_LINGER_MS\<rparr>) tab1) io
         else (tab1, io))"

definition tcp_detach :: "(nif_ref \<Rightarrow> bytes \<Rightarrow> int) \<Rightarrow> (ip_up \<Rightarrow> 'a tcp_state_scheme \<Rightarrow> 'a tcp_state_scheme) \<Rightarrow> u64
    \<Rightarrow> tref \<Rightarrow> bool \<Rightarrow> 'a tcp_state_scheme \<Rightarrow> 'a tcp_state_scheme" where
  "tcp_detach drv up now i abort s =
     snd (tcp_locked drv up now (\<lambda>tab io. ((), tcp_detach_locked now i abort tab io)) s)"

end
