(* ===== verification/Tcprx.thy ===== *)
theory Tcprx
  imports Tcp
begin

text \<open>
  The receiving side of TCP. Sequence numbers are related to positions in the byte stream of the
  peer, so that the comparisons of the code become comparisons of naturals; the ranges behind a hole
  are intervals of positions. The invariant says that the ring holds the right bytes of the
  stream, also behind the holes, and every operation keeps it.
\<close>

section \<open>Sequence numbers and positions\<close>

abbreviation seq_at :: "u32 \<Rightarrow> nat \<Rightarrow> u32" where
  "seq_at b i \<equiv> b + of_nat i"

lemma sint_seq_diff:
  assumes "\<bar>int i - int j\<bar> < 2 ^ 31"
  shows "sint (seq_at b i - seq_at b j) = int i - int j"
proof -
  have "seq_at b i - seq_at b j = of_int (int i - int j)" by simp
  then have "sint (seq_at b i - seq_at b j) = signed_take_bit 31 (int i - int j)"
    by (simp only: signed_of_int) simp
  also have "\<dots> = int i - int j"
    using assms by (intro signed_take_bit_int_eq_self) auto
  finally show ?thesis .
qed

lemma SEQ_LT_at: "\<bar>int i - int j\<bar> < 2 ^ 31 \<Longrightarrow> SEQ_LT (seq_at b i) (seq_at b j) \<longleftrightarrow> i < j"
  unfolding SEQ_LT_def by (simp only: sint_seq_diff) simp

lemma SEQ_LEQ_at: "\<bar>int i - int j\<bar> < 2 ^ 31 \<Longrightarrow> SEQ_LEQ (seq_at b i) (seq_at b j) \<longleftrightarrow> i \<le> j"
  unfolding SEQ_LEQ_def by (simp only: sint_seq_diff) simp

lemma sint_neg_iff: "sint (w :: u32) < 0 \<longleftrightarrow> 2 ^ 31 \<le> unat w"
proof -
  consider "unat w < 2 ^ 31" | "unat w = 2 ^ 31" | "2 ^ 31 < unat w" by linarith
  then show ?thesis
  proof cases
    case 1
    then have "int (unat w) < int (2 ^ 31)" by (simp only: of_nat_less_iff)
    then have "\<bar>int (unat w) - int 0\<bar> < 2 ^ 31" by simp
    from sint_seq_diff [OF this, of 0] 1 show ?thesis by simp
  next
    case 2
    then have "unat w = unat (0x80000000 :: u32)" by simp
    then have "w = 0x80000000" by (simp only: word_unat_eq_iff)
    then show ?thesis by simp
  next
    case 3
    define j where "j = 2 ^ 32 - unat w"
    have j: "0 < j" "j < 2 ^ 31" "unat w = 2 ^ 32 - j" using 3 unat_u32 [of w] by (simp_all add: j_def)
    have "int j < int (2 ^ 31)" using j(2) by (simp only: of_nat_less_iff)
    then have "sint (seq_at 0 0 - seq_at 0 j) = - int j" by (subst sint_seq_diff) simp_all
    moreover have "w = of_nat (unat w)" by simp
    then have "w = seq_at 0 0 - seq_at 0 j" unfolding j(3) using j(2) by (simp add: of_nat_diff)
    ultimately have "sint w = - int j" by (simp only:)
    with 3 j(1) show ?thesis by simp
  qed
qed

lemma unat_seq_diff:
  assumes "j \<le> i" and "i - j < 2 ^ 32"
  shows "unat (seq_at b i - seq_at b j) = i - j"
proof -
  have "seq_at b i - seq_at b j = of_nat (i - j)" using assms(1) by (simp add: of_nat_diff)
  then show ?thesis using assms(2) by (simp add: unat_of_nat_small)
qed

section \<open>Ranges as intervals of positions\<close>

type_synonym span = "nat \<times> nat"

definition range_at :: "u32 \<Rightarrow> span \<Rightarrow> tcp_range" where
  "range_at b x = \<lparr>r_start = seq_at b (fst x), r_end = seq_at b (snd x)\<rparr>"

lemma range_at_sel [simp]: "r_start (range_at b x) = seq_at b (fst x)" "r_end (range_at b x) = seq_at b (snd x)"
  by (simp_all add: range_at_def)

text \<open>Increasing, apart, nonempty, above \<open>lo\<close> and not beyond \<open>hi\<close>.\<close>

fun spans_ok :: "nat \<Rightarrow> nat \<Rightarrow> span list \<Rightarrow> bool" where
  "spans_ok lo hi [] = True"
| "spans_ok lo hi ((i, j) # xs) \<longleftrightarrow> lo < i \<and> i < j \<and> j \<le> hi \<and> spans_ok j hi xs"

definition covered :: "span list \<Rightarrow> nat set" where
  "covered xs = (\<Union>(i, j) \<in> set xs. {i..<j})"

lemma covered_simps [simp]: "covered [] = {}" "covered (x # xs) = {fst x..<snd x} \<union> covered xs"
  "covered (xs @ ys) = covered xs \<union> covered ys"
  by (auto simp: covered_def split: prod.splits)

fun span_absorb :: "nat \<Rightarrow> span list \<Rightarrow> nat \<times> span list" where
  "span_absorb e [] = (e, [])"
| "span_absorb e (q # qs) = (if fst q \<le> e then span_absorb (max e (snd q)) qs else (e, q # qs))"

definition span_insert :: "nat \<Rightarrow> nat \<Rightarrow> span list \<Rightarrow> span list" where
  "span_insert s e xs =
     (let pre = takeWhile (\<lambda>x. snd x < s) xs; post = dropWhile (\<lambda>x. snd x < s) xs
      in case post of
           x # qs \<Rightarrow>
             if fst x \<le> e then
               let (e1, qs1) = span_absorb (max e (snd x)) qs in pre @ (min s (fst x), e1) # qs1
             else if length xs = TCP_OOO_MAX then xs
             else pre @ (s, e) # post
         | [] \<Rightarrow> if length xs = TCP_OOO_MAX then xs else pre @ [(s, e)])"

fun span_settle :: "span list \<Rightarrow> nat \<Rightarrow> span list \<times> nat" where
  "span_settle [] n = ([], n)"
| "span_settle (x # xs) n = (if fst x \<le> n then span_settle xs (max n (snd x)) else (x # xs, n))"

lemma spans_ok_mono: "spans_ok lo hi xs \<Longrightarrow> lo' \<le> lo \<Longrightarrow> hi \<le> hi' \<Longrightarrow> spans_ok lo' hi' xs"
  by (induction lo hi xs arbitrary: lo' rule: spans_ok.induct) auto

lemma spans_ok_above: "spans_ok lo hi xs \<Longrightarrow> x \<in> set xs \<Longrightarrow> lo < fst x \<and> fst x < snd x \<and> snd x \<le> hi"
proof (induction xs arbitrary: lo)
  case (Cons y xs)
  obtain i j where y: "y = (i, j)" by fastforce
  show ?case
  proof (cases "x = y")
    case True
    with Cons.prems y show ?thesis by simp
  next
    case False
    with Cons.prems y have "spans_ok j hi xs" "x \<in> set xs" "lo < j" by auto
    from Cons.IH [OF this(1,2)] this(3) show ?thesis by simp
  qed
qed simp

lemma covered_bounds: "spans_ok lo hi xs \<Longrightarrow> k \<in> covered xs \<Longrightarrow> lo < k \<and> k < hi"
  by (auto simp: covered_def dest!: spans_ok_above)

lemma span_absorb_ok:
  assumes "spans_ok lo hi qs" and "e \<le> hi" and "lo \<le> e" and "a \<le> lo" and "span_absorb e qs = (e1, qs1)"
  shows "e \<le> e1 \<and> e1 \<le> hi \<and> spans_ok e1 hi qs1 \<and> length qs1 \<le> length qs
    \<and> {a..<e} \<union> covered qs = {a..<e1} \<union> covered qs1"
  using assms
proof (induction e qs arbitrary: lo rule: span_absorb.induct)
  case (2 e q qs)
  obtain i j where q: "q = (i, j)" by fastforce
  have o: "lo < i" "i < j" "j \<le> hi" "spans_ok j hi qs" using 2(2) by (auto simp: q)
  show ?case
  proof (cases "i \<le> e")
    case True
    have r: "span_absorb (max e j) qs = (e1, qs1)" using 2(6) True by (simp add: q)
    have "max e j \<le> e1 \<and> e1 \<le> hi \<and> spans_ok e1 hi qs1 \<and> length qs1 \<le> length qs
      \<and> {a..<max e j} \<union> covered qs = {a..<e1} \<union> covered qs1"
      using 2(1) [of j] True o 2(3,5) r by (simp add: q)
    moreover have "{a..<max e j} = {a..<e} \<union> {i..<j}"
      using True o(1) 2(5) by (auto simp: max_def)
    ultimately show ?thesis by (auto simp: q)
  next
    case False
    with 2(3,6) o show ?thesis by (auto simp: q)
  qed
qed auto

lemma spans_ok_append:
  "spans_ok lo hi (xs @ ys) \<longleftrightarrow> spans_ok lo hi xs \<and> spans_ok (if xs = [] then lo else snd (last xs)) hi ys"
  by (induction lo hi xs rule: spans_ok.induct) auto

text \<open>Putting an interval in: the order is kept and exactly its positions are added.\<close>

lemma span_insert_ok:
  assumes ok: "spans_ok lo hi xs" and "lo < s" and "s < e" and "e \<le> hi" and "length xs \<le> TCP_OOO_MAX"
  shows "spans_ok lo hi (span_insert s e xs) \<and> length (span_insert s e xs) \<le> TCP_OOO_MAX
    \<and> (covered (span_insert s e xs) = covered xs \<union> {s..<e}
       \<or> length xs = TCP_OOO_MAX \<and> span_insert s e xs = xs)"
proof -
  define pre where "pre = takeWhile (\<lambda>x. snd x < s) xs"
  define post where "post = dropWhile (\<lambda>x. snd x < s) xs"
  define m where "m = (if pre = [] then lo else snd (last pre))"
  have xs: "xs = pre @ post" by (simp add: pre_def post_def)
  have o: "spans_ok lo hi pre" "spans_ok m hi post" using ok by (simp_all add: xs spans_ok_append m_def)
  have m: "m < s"
    using assms(2) by (auto simp: m_def pre_def dest: set_takeWhileD [OF last_in_set])
  have lo: "lo \<le> m"
    using spans_ok_above [OF o(1) last_in_set] by (fastforce simp: m_def)
  have app: "spans_ok lo hi (pre @ ys)" if "spans_ok m hi ys" for ys
    using o(1) that by (simp add: spans_ok_append m_def)
  have def: "span_insert s e xs =
    (case post of
       x # qs \<Rightarrow> if fst x \<le> e then let (e1, qs1) = span_absorb (max e (snd x)) qs in pre @ (min s (fst x), e1) # qs1
                 else if length xs = TCP_OOO_MAX then xs else pre @ (s, e) # post
     | [] \<Rightarrow> if length xs = TCP_OOO_MAX then xs else pre @ [(s, e)])"
    unfolding span_insert_def Let_def pre_def post_def by (rule refl)
  show ?thesis
  proof (cases post)
    case Nil
    then have "span_insert s e xs = (if length xs = TCP_OOO_MAX then xs else pre @ [(s, e)])"
      by (simp add: def)
    then show ?thesis using app [of "[(s, e)]"] m assms(3,4,5) ok Nil by (auto simp: xs)
  next
    case (Cons x qs)
    obtain i j where x: "x = (i, j)" by fastforce
    have "\<not> snd x < s" using Cons hd_dropWhile [of "\<lambda>x. snd x < s" xs] by (simp add: post_def)
    then have js: "s \<le> j" by (simp add: x)
    have q: "m < i" "i < j" "j \<le> hi" "spans_ok j hi qs" using o(2) by (simp_all add: Cons x)
    show ?thesis
    proof (cases "i \<le> e")
      case True
      obtain e1 qs1 where a: "span_absorb (max e j) qs = (e1, qs1)" by fastforce
      have r: "max e j \<le> e1" "e1 \<le> hi" "spans_ok e1 hi qs1" "length qs1 \<le> length qs"
        "{min s i..<max e j} \<union> covered qs = {min s i..<e1} \<union> covered qs1"
        using span_absorb_ok [OF q(4) _ _ _ a, of "min s i"] assms(3,4) q(2,3) by auto
      have ins: "span_insert s e xs = pre @ (min s i, e1) # qs1"
        using True a by (simp add: def Cons x)
      have "min s i < e1" using r(1) assms(3) by linarith
      then have "spans_ok lo hi (span_insert s e xs)"
        unfolding ins using app [of "(min s i, e1) # qs1"] m q(1) r(2,3) by simp
      moreover have "{min s i..<max e j} = {s..<e} \<union> {i..<j}"
        using True js assms(3) q(2) by (auto simp: min_def max_def)
      then have "covered (pre @ (min s i, e1) # qs1) = covered (pre @ (i, j) # qs) \<union> {s..<e}"
        using r(5) by (simp add: Un_commute Un_left_commute Un_assoc)
      then have "covered (span_insert s e xs) = covered xs \<union> {s..<e}"
        unfolding ins by (simp add: xs Cons x)
      moreover have "length (span_insert s e xs) \<le> TCP_OOO_MAX"
        unfolding ins using r(4) assms(5) by (simp add: xs Cons)
      ultimately show ?thesis by simp
    next
      case False
      then have "spans_ok m hi ((s, e) # post)" using m assms(3,4) q by (simp add: Cons x)
      moreover have "span_insert s e xs = (if length xs = TCP_OOO_MAX then xs else pre @ (s, e) # post)"
        using False by (simp add: def Cons x)
      moreover have "covered (pre @ (s, e) # post) = covered xs \<union> {s..<e}" by (auto simp: xs)
      ultimately show ?thesis using app assms(5) ok by (auto simp: xs)
    qed
  qed
qed

lemma span_settle_ok:
  assumes "spans_ok lo hi xs" and "lo \<le> n" and "n \<le> hi" and "span_settle xs n = (ys, n1)"
  shows "n \<le> n1 \<and> n1 \<le> hi \<and> spans_ok n1 hi ys \<and> length ys \<le> length xs
    \<and> {n..<n1} \<subseteq> covered xs \<and> set ys \<subseteq> set xs"
  using assms
proof (induction xs n arbitrary: lo rule: span_settle.induct)
  case (2 x xs n)
  obtain i j where x: "x = (i, j)" by fastforce
  have o: "lo < i" "i < j" "j \<le> hi" "spans_ok j hi xs" using 2(2) by (auto simp: x)
  show ?case
  proof (cases "i \<le> n")
    case True
    with 2(5) have "span_settle xs (max n j) = (ys, n1)" by (simp add: x)
    with 2(1) [of j] True o 2(4) have r: "max n j \<le> n1 \<and> n1 \<le> hi \<and> spans_ok n1 hi ys \<and> length ys \<le> length xs
      \<and> {max n j..<n1} \<subseteq> covered xs \<and> set ys \<subseteq> set xs"
      by (simp add: x)
    have "{n..<n1} \<subseteq> {n..<max n j} \<union> {max n j..<n1}" by auto
    also have "{n..<max n j} \<subseteq> {i..<j}" using True by (auto simp: max_def)
    finally have "{n..<n1} \<subseteq> {i..<j} \<union> covered xs" using r by blast
    with r show ?thesis by (auto simp: x)
  next
    case False
    with 2(4,5) o show ?thesis by (auto simp: x)
  qed
qed auto


section \<open>The code on ranges, as the code on intervals\<close>

text \<open>All positions involved lie within half the sequence space.\<close>

definition near :: "nat \<Rightarrow> nat set \<Rightarrow> bool" where
  "near lo X \<longleftrightarrow> (\<forall>x \<in> X. lo \<le> x \<and> x < lo + 2 ^ 31)"

lemma near_dist: "near lo X \<Longrightarrow> i \<in> X \<Longrightarrow> j \<in> X \<Longrightarrow> \<bar>int i - int j\<bar> < 2 ^ 31"
proof -
  assume "near lo X" "i \<in> X" "j \<in> X"
  then have "lo \<le> i" "i < lo + 2 ^ 31" "lo \<le> j" "j < lo + 2 ^ 31" by (simp_all add: near_def)
  then show ?thesis by (simp add: abs_if)
qed

lemma near_mono: "near lo X \<Longrightarrow> Y \<subseteq> X \<Longrightarrow> near lo Y"
  by (auto simp: near_def)

definition ends :: "span list \<Rightarrow> nat set" where
  "ends xs = fst ` set xs \<union> snd ` set xs"

lemma ends_simps [simp]: "ends [] = {}" "ends (x # xs) = {fst x, snd x} \<union> ends xs"
  by (auto simp: ends_def)

lemma ooo_absorb_at:
  "near lo ({e} \<union> ends qs) \<Longrightarrow>
   ooo_absorb (seq_at b e) (map (range_at b) qs) = map_prod (seq_at b) (map (range_at b)) (span_absorb e qs)"
proof (induction qs arbitrary: e)
  case (Cons q qs)
  have d: "SEQ_LEQ (seq_at b (fst q)) (seq_at b e) \<longleftrightarrow> fst q \<le> e"
    "SEQ_LT (seq_at b e) (seq_at b (snd q)) \<longleftrightarrow> e < snd q"
    using near_dist [OF Cons.prems] by (simp_all add: SEQ_LT_at SEQ_LEQ_at)
  have "near lo ({max e (snd q)} \<union> ends qs)"
    by (rule near_mono [OF Cons.prems]) (auto simp: max_def)
  from Cons.IH [OF this] d show ?case by (auto simp: max_def)
qed simp

lemma takeWhile_at:
  "near lo ({s} \<union> ends xs) \<Longrightarrow>
   takeWhile (\<lambda>r. SEQ_LT (r_end r) (seq_at b s)) (map (range_at b) xs) = map (range_at b) (takeWhile (\<lambda>x. snd x < s) xs)"
  "near lo ({s} \<union> ends xs) \<Longrightarrow>
   dropWhile (\<lambda>r. SEQ_LT (r_end r) (seq_at b s)) (map (range_at b) xs) = map (range_at b) (dropWhile (\<lambda>x. snd x < s) xs)"
proof -
  assume n: "near lo ({s} \<union> ends xs)"
  have "SEQ_LT (seq_at b (snd x)) (seq_at b s) \<longleftrightarrow> snd x < s" if "x \<in> set xs" for x
    by (rule SEQ_LT_at, rule near_dist [OF n]) (use that in \<open>auto simp: ends_def\<close>)
  then show "takeWhile (\<lambda>r. SEQ_LT (r_end r) (seq_at b s)) (map (range_at b) xs) = map (range_at b) (takeWhile (\<lambda>x. snd x < s) xs)"
    "dropWhile (\<lambda>r. SEQ_LT (r_end r) (seq_at b s)) (map (range_at b) xs) = map (range_at b) (dropWhile (\<lambda>x. snd x < s) xs)"
    by (simp_all add: takeWhile_map dropWhile_map o_def cong: takeWhile_cong dropWhile_cong)
qed

lemma ooo_insert_at:
  assumes n: "near lo ({s, e} \<union> ends xs)"
  shows "ooo_insert (seq_at b s) (seq_at b e) (map (range_at b) xs) = map (range_at b) (span_insert s e xs)"
proof -
  have n1: "near lo ({s} \<union> ends xs)" by (rule near_mono [OF n]) auto
  show ?thesis
  proof (cases "dropWhile (\<lambda>x. snd x < s) xs")
    case Nil
    then show ?thesis
      unfolding ooo_insert_def span_insert_def takeWhile_at [OF n1] Let_def Nil by (simp add: range_at_def)
  next
    case (Cons x qs)
    then have mem: "x \<in> set xs" "set qs \<subseteq> set xs"
      by (metis list.set_intros(1) set_dropWhileD, metis Cons set_dropWhileD set_subset_Cons subset_eq)
    then have nq: "near lo ({max e (snd x)} \<union> ends qs)"
      by (intro near_mono [OF n]) (auto simp: ends_def max_def)
    have d: "SEQ_LEQ (seq_at b (fst x)) (seq_at b e) \<longleftrightarrow> fst x \<le> e"
      "SEQ_LT (seq_at b s) (seq_at b (fst x)) \<longleftrightarrow> s < fst x"
      "SEQ_LT (seq_at b (snd x)) (seq_at b e) \<longleftrightarrow> snd x < e"
      using near_dist [OF n] mem by (simp_all add: SEQ_LT_at SEQ_LEQ_at ends_def)
    show ?thesis
      unfolding ooo_insert_def span_insert_def takeWhile_at [OF n1] Let_def Cons
      using ooo_absorb_at [OF nq, of b]
      by (cases "snd x < e"; cases "s < fst x")
        (simp_all add: d range_at_def case_prod_unfold map_prod_def max_def min_def)
  qed
qed

lemma span_settle_mono: "n \<le> snd (span_settle xs n)"
  by (induction xs n rule: span_settle.induct) auto

lemma ooo_settle_at:
  assumes "near lo ({n} \<union> ends xs)"
  shows "ooo_settle (map (range_at b) xs) (seq_at b n) len =
      (map (range_at b) (fst (span_settle xs n)), seq_at b (snd (span_settle xs n)),
       len + of_nat (snd (span_settle xs n) - n))"
  using assms
proof (induction xs arbitrary: n len)
  case (Cons x xs)
  have d: "SEQ_LEQ (seq_at b (fst x)) (seq_at b n) \<longleftrightarrow> fst x \<le> n"
    "SEQ_LT (seq_at b n) (seq_at b (snd x)) \<longleftrightarrow> n < snd x"
    using near_dist [OF Cons.prems] by (simp_all add: SEQ_LT_at SEQ_LEQ_at)
  have nm: "near lo ({max n (snd x)} \<union> ends xs)"
    by (rule near_mono [OF Cons.prems]) (auto simp: max_def)
  note IH = Cons.IH [OF nm]
  show ?case
  proof (cases "fst x \<le> n \<and> n < snd x")
    case True
    define n1 where "n1 = snd (span_settle xs (snd x))"
    have "snd x \<le> n1" unfolding n1_def by (rule span_settle_mono)
    then have "n1 - n = (snd x - n) + (n1 - snd x)" using True by simp
    then have "of_nat (n1 - n) = of_nat (snd x - n) + (of_nat (n1 - snd x) :: u32)" by (simp only: of_nat_add)
    moreover have "seq_at b (snd x) - seq_at b n = of_nat (snd x - n)" using True by (simp add: of_nat_diff)
    ultimately show ?thesis
      using True d IH [of "len + (seq_at b (snd x) - seq_at b n)"] by (simp add: n1_def [symmetric] max_def add.assoc)
  next
    case False
    then show ?thesis using d IH by (auto simp: max_def)
  qed
qed simp

section \<open>The receive ring\<close>

text \<open>
  \<open>b\<close> is the sequence number of the first byte of the peer's stream \<open>S\<close>, \<open>d\<close> bytes of
  which were handed out and \<open>p\<close> received without a hole. \<open>stored\<close> says that the ring holds the
  right bytes at a set of positions.
\<close>

definition stored :: "bytes \<Rightarrow> nat \<Rightarrow> tcb \<Rightarrow> nat set \<Rightarrow> bool" where
  "stored S d t K \<longleftrightarrow> (\<forall>k \<in> K. rx t ! ((unat (rx_start t) + (k - d)) mod TCP_RX_BUF) = S ! k)"

definition rx_inv :: "u32 \<Rightarrow> bytes \<Rightarrow> nat \<Rightarrow> nat \<Rightarrow> tcb \<Rightarrow> bool" where
  "rx_inv b S d p t \<longleftrightarrow>
     length (rx t) = TCP_RX_BUF \<and> unat (rx_start t) < TCP_RX_BUF \<and> unat (rx_len t) = p - d
     \<and> d \<le> p \<and> p \<le> d + TCP_RX_BUF \<and> p \<le> length S
     \<and> rcv_nxt t = seq_at b (p + (if peer_fin t then 1 else 0))
     \<and> (fin_seen t \<longrightarrow> fin_seq t = seq_at b (length S) \<and> length S \<le> d + TCP_RX_BUF)
     \<and> (peer_fin t \<longrightarrow> p = length S)
     \<and> (\<exists>L. ooo t = map (range_at b) L \<and> length L \<le> TCP_OOO_MAX
          \<and> spans_ok p (min (d + TCP_RX_BUF) (length S)) L \<and> stored S d t ({d..<p} \<union> covered L))"

text \<open>A segment cut from the stream at position \<open>q\<close>.\<close>

definition genuine :: "bytes \<Rightarrow> nat \<Rightarrow> bytes \<Rightarrow> bool \<Rightarrow> bool" where
  "genuine S q data fin \<longleftrightarrow>
     q + length data \<le> length S \<and> (\<forall>i < length data. data ! i = S ! (q + i))
     \<and> (fin \<longrightarrow> q + length data = length S)"

lemma genuine_nth: "genuine S q data fin \<Longrightarrow> i < length data \<Longrightarrow> data ! i = S ! (q + i)"
  by (simp add: genuine_def)

lemma genuine_drop: "genuine S q data fin \<Longrightarrow> n \<le> length data \<Longrightarrow> genuine S (q + n) (drop n data) fin"
  by (auto simp: genuine_def add.assoc)

text \<open>Writing a genuine block into the ring.\<close>

lemma stored_put:
  assumes st: "stored S d t K" and K: "\<forall>k \<in> K. d \<le> k \<and> k < d + TCP_RX_BUF"
    and len: "length (rx t) = TCP_RX_BUF" "unat (rx_start t) < TCP_RX_BUF"
    and g: "genuine S q data fin" and q: "d \<le> q" "q + n \<le> d + TCP_RX_BUF" "n \<le> length data"
    and pos: "pos = (unat (rx_start t) + (q - d)) mod TCP_RX_BUF"
  shows "stored S d (t\<lparr>rx := ring_put (rx t) pos (take n data)\<rparr>) (K \<union> {q..<q + n})"
  unfolding stored_def
proof
  fix k assume k: "k \<in> K \<union> {q..<q + n}"
  have l: "length (take n data) = n" using q(3) by simp
  have bounds: "unat (rx_start t) < length (rx t)" "q - d + length (take n data) \<le> length (rx t)"
    "k - d < length (rx t)" "d \<le> k"
    using k K len q l by auto
  note r = ring_put_at [OF bounds(1-3), unfolded len(1), folded pos, unfolded l]
  have "ring_put (rx t) pos (take n data) ! ((unat (rx_start t) + (k - d)) mod TCP_RX_BUF) = S ! k"
  proof (cases "q \<le> k \<and> k < q + n")
    case True
    then have "q - d \<le> k - d \<and> k - d < q - d + n" "k - d - (q - d) = k - q" using q(1) by auto
    moreover have "k - q < n" "k - q < length data" using True q(3) by linarith+
    then have "take n data ! (k - q) = S ! k"
      using True genuine_nth [OF g, of "k - q"] by simp
    ultimately show ?thesis using r by simp
  next
    case False
    then have nf: "\<not> (q - d \<le> k - d \<and> k - d < q - d + n)" using q(1) bounds(4) by linarith
    have "k \<in> K" using k False by auto
    then show ?thesis using r [unfolded if_not_P [OF nf]] st by (simp add: stored_def)
  qed
  then show "rx (t\<lparr>rx := ring_put (rx t) pos (take n data)\<rparr>)
      ! ((unat (rx_start (t\<lparr>rx := ring_put (rx t) pos (take n data)\<rparr>)) + (k - d)) mod TCP_RX_BUF) = S ! k"
    by simp
qed

lemma stored_mono: "stored S d t K \<Longrightarrow> K' \<subseteq> K \<Longrightarrow> stored S d t K'"
  by (auto simp: stored_def)


text \<open>Parts of the invariant.\<close>

lemma rx_invD:
  assumes "rx_inv b S d p t"
  shows "length (rx t) = TCP_RX_BUF" "unat (rx_start t) < TCP_RX_BUF" "unat (rx_len t) = p - d"
    "d \<le> p" "p \<le> d + TCP_RX_BUF" "p \<le> length S"
    "rcv_nxt t = seq_at b (p + (if peer_fin t then 1 else 0))"
  using assms unfolding rx_inv_def by blast+

lemma rx_room:
  assumes "rx_inv b S d p t"
  shows "unat (of_nat TCP_RX_BUF - rx_len t) = d + TCP_RX_BUF - p"
proof -
  note i = rx_invD [OF assms]
  have "unat (of_nat TCP_RX_BUF :: u32) = TCP_RX_BUF" by simp
  then show ?thesis using i(3-5) by (simp add: unat_minus_small)
qed

text \<open>The write position the code computes.\<close>

lemma rx_slot:
  assumes "rx_inv b S d p t" and "p \<le> q" and "q \<le> d + TCP_RX_BUF"
  shows "unat ((rx_start t + rx_len t + of_nat (q - p)) mod of_nat TCP_RX_BUF) =
    (unat (rx_start t) + (q - d)) mod TCP_RX_BUF"
proof -
  note i = rx_invD [OF assms(1)]
  have "q - p < 2 ^ 32" using i(4) assms by simp
  then have u: "unat (of_nat (q - p) :: u32) = q - p" by (simp add: unat_of_nat_small)
  have "unat (rx_start t + rx_len t) = unat (rx_start t) + (p - d)"
    using i by (simp add: unat_plus_small)
  then have "unat (rx_start t + rx_len t + of_nat (q - p)) = unat (rx_start t) + (p - d) + (q - p)"
    using i u assms by (simp add: unat_plus_small)
  also have "\<dots> = unat (rx_start t) + (q - d)" using i(4) assms(2) by simp
  finally show ?thesis by (simp add: unat_mod)
qed

text \<open>The FIN.\<close>

lemma rx_fin_reached:
  assumes "rx_inv b S d p t" and "\<not> peer_fin t"
  shows "rx_inv b S d p (tcp_fin_reached now t)"
proof (cases "fin_seen t \<and> fin_seq t = rcv_nxt t")
  case True
  note i = rx_invD [OF assms(1)]
  from True assms(1) have f: "fin_seq t = seq_at b (length S)" "length S \<le> d + TCP_RX_BUF"
    by (auto simp: rx_inv_def)
  have "seq_at b (length S) - seq_at b p = 0" using True f i(7) assms(2) by simp
  then have "length S - p = 0" using unat_seq_diff [of p "length S" b] i(4,6) f(2) by simp
  then have "p = length S" using i(6) by simp
  then show ?thesis using True assms i(7) unfolding tcp_fin_reached_def Let_def
    by (auto simp: rx_inv_def stored_def add.assoc)
next
  case False
  show ?thesis unfolding tcp_fin_reached_def if_not_P [OF False] by (rule assms(1))
qed


text \<open>The block is in the ring; now it is counted, as an interval behind a hole or in order.\<close>

lemma rx_add_span:
  assumes inv: "rx_inv b S d p t" and "\<not> peer_fin t" and q: "p < q" "0 < n" "q + n \<le> d + TCP_RX_BUF" "q + n \<le> length S"
    and st: "\<And>L. spans_ok p (min (d + TCP_RX_BUF) (length S)) L \<Longrightarrow> stored S d t ({d..<p} \<union> covered L) \<Longrightarrow>
      stored S d u ({d..<p} \<union> covered L \<union> {q..<q + n})"
    and u: "u = t\<lparr>rx := ring, fin_seen := fs, fin_seq := fq\<rparr>" "length ring = TCP_RX_BUF"
    and fin: "fs \<Longrightarrow> fq = seq_at b (length S) \<and> length S \<le> d + TCP_RX_BUF"
  shows "rx_inv b S d p (tcp_ooo_add (seq_at b q) (seq_at b (q + n)) u)"
proof -
  note i = rx_invD [OF inv]
  from inv obtain L where L: "ooo t = map (range_at b) L" "length L \<le> TCP_OOO_MAX"
    "spans_ok p (min (d + TCP_RX_BUF) (length S)) L" "stored S d t ({d..<p} \<union> covered L)"
    unfolding rx_inv_def by blast
  define L1 where "L1 = span_insert q (q + n) L"
  have s1: "spans_ok p (min (d + TCP_RX_BUF) (length S)) L1" "length L1 \<le> TCP_OOO_MAX"
    "covered L1 \<subseteq> covered L \<union> {q..<q + n}"
    using span_insert_ok [OF L(3) q(1), of "q + n"] q L(2) by (auto simp: L1_def)
  have "near p ({q, q + n} \<union> ends L)"
    using q spans_ok_above [OF L(3)] i(4) by (fastforce simp: near_def ends_def)
  from ooo_insert_at [OF this, of b] have o: "ooo (tcp_ooo_add (seq_at b q) (seq_at b (q + n)) u) = map (range_at b) L1"
    by (simp add: tcp_ooo_add_def L(1) u(1) L1_def)
  have "stored S d u ({d..<p} \<union> covered L1)"
    by (rule stored_mono [OF st [OF L(3,4)]]) (use s1(3) in blast)
  then have "stored S d (tcp_ooo_add (seq_at b q) (seq_at b (q + n)) u) ({d..<p} \<union> covered L1)"
    by (simp add: stored_def tcp_ooo_add_def)
  with o s1 show ?thesis using inv fin assms(2) u(2)
    unfolding rx_inv_def by (auto simp: tcp_ooo_add_def u(1))
qed

lemma rx_add_in_order:
  assumes inv: "rx_inv b S d p t" and "\<not> peer_fin t" and n: "p + n \<le> d + TCP_RX_BUF" "p + n \<le> length S"
    and st: "\<And>L. spans_ok p (min (d + TCP_RX_BUF) (length S)) L \<Longrightarrow> stored S d t ({d..<p} \<union> covered L) \<Longrightarrow>
      stored S d u ({d..<p} \<union> covered L \<union> {p..<p + n})"
    and u: "u = t\<lparr>rx := ring, fin_seen := fs, fin_seq := fq\<rparr>" "length ring = TCP_RX_BUF"
    and fin: "fs \<Longrightarrow> fq = seq_at b (length S) \<and> length S \<le> d + TCP_RX_BUF"
    and v: "v = tcp_ooo_settle (u\<lparr>rx_len := rx_len u + of_nat n, rcv_nxt := rcv_nxt u + of_nat n\<rparr>)"
  shows "\<exists>p'. p + n \<le> p' \<and> rx_inv b S d p' v \<and> \<not> peer_fin v"
proof -
  note i = rx_invD [OF inv]
  from inv obtain L where L: "ooo t = map (range_at b) L" "length L \<le> TCP_OOO_MAX"
    "spans_ok p (min (d + TCP_RX_BUF) (length S)) L" "stored S d t ({d..<p} \<union> covered L)"
    unfolding rx_inv_def by blast
  obtain ys p' where y: "span_settle L (p + n) = (ys, p')" by fastforce
  have r: "p + n \<le> p'" "p' \<le> d + TCP_RX_BUF" "p' \<le> length S" "spans_ok p' (min (d + TCP_RX_BUF) (length S)) ys"
    "length ys \<le> TCP_OOO_MAX" "{p + n..<p'} \<subseteq> covered L" "set ys \<subseteq> set L"
    using span_settle_ok [OF L(3) _ _ y] n L(2) by auto
  have ys: "covered ys \<subseteq> covered L" using r(7) by (auto simp: covered_def)
  have "near p ({p + n} \<union> ends L)"
    using n spans_ok_above [OF L(3)] i(4) by (fastforce simp: near_def ends_def)
  note st1 = ooo_settle_at [OF this, of b "rx_len u + of_nat n", unfolded y fst_conv snd_conv]
  have nx: "rcv_nxt u + of_nat n = seq_at b (p + n)" using i(7) assms(2) by (simp add: u(1) add.assoc)
  have ou: "ooo u = map (range_at b) L" by (simp add: u(1) L(1))
  have vv: "v = u\<lparr>ooo := map (range_at b) ys, rcv_nxt := seq_at b p', rx_len := rx_len u + of_nat n + of_nat (p' - (p + n))\<rparr>"
    unfolding v tcp_ooo_settle_def using st1 by (simp add: ou nx del: of_nat_add)
  have len: "unat (rx_len u + of_nat n + of_nat (p' - (p + n))) = p' - d"
  proof -
    have "rx_len u + of_nat n + of_nat (p' - (p + n)) = rx_len t + of_nat (p' - p)"
      using r(1) by (simp add: u(1) of_nat_diff)
    moreover have "p' - p < 2 ^ 32" using r(2) i(4) by simp
    then have "unat (of_nat (p' - p) :: u32) = p' - p" by (simp add: unat_of_nat_small)
    ultimately show ?thesis using i r by (simp add: unat_plus_small)
  qed
  have "stored S d u ({d..<p'} \<union> covered ys)"
  proof (rule stored_mono [OF st [OF L(3,4)]])
    have "{d..<p'} \<subseteq> {d..<p} \<union> {p..<p + n} \<union> {p + n..<p'}" by auto
    then show "{d..<p'} \<union> covered ys \<subseteq> {d..<p} \<union> covered L \<union> {p..<p + n}" using r(6) ys by blast
  qed
  then have "stored S d v ({d..<p'} \<union> covered ys)" by (simp add: vv stored_def)
  with r len i fin assms(2) u(2) have "rx_inv b S d p' v"
    unfolding rx_inv_def by (auto simp: vv u(1))
  with r(1) show ?thesis using assms(2) by (auto simp: vv u(1))
qed


text \<open>The ring after the copies: the block is there, nothing that was there is lost.\<close>

lemma tcp_store_data_form:
  assumes inv: "rx_inv b S d p t" and g: "genuine S q data fin"
    and q: "p \<le> q" "q + n \<le> d + TCP_RX_BUF" "n \<le> length data"
    and u: "u = tcp_store_data (seq_at b q) (of_nat (q - p)) data (of_nat n) fin t"
  shows "\<exists>ring fs fq. u = t\<lparr>rx := ring, fin_seen := fs, fin_seq := fq\<rparr> \<and> length ring = TCP_RX_BUF
    \<and> (fs \<longrightarrow> fq = seq_at b (length S) \<and> length S \<le> d + TCP_RX_BUF)
    \<and> (\<forall>L. spans_ok p (min (d + TCP_RX_BUF) (length S)) L \<longrightarrow> stored S d t ({d..<p} \<union> covered L) \<longrightarrow>
         stored S d u ({d..<p} \<union> covered L \<union> {q..<q + n}))"
proof -
  note i = rx_invD [OF inv]
  define ring where "ring = ring_put (rx t) ((unat (rx_start t) + (q - d)) mod TCP_RX_BUF) (take n data)"
  have "n < 2 ^ 32" using q i(4) by simp
  then have un: "unat (of_nat n :: u32) = n" by (simp add: unat_of_nat_small)
  have at: "unat ((rx_start t + rx_len t + of_nat (q - p)) mod of_nat TCP_RX_BUF) = (unat (rx_start t) + (q - d)) mod TCP_RX_BUF"
    by (rule rx_slot [OF inv q(1)]) (use q(2) in simp)
  define fs fq where "fs = fin_seen u" and "fq = fin_seq u"
  have ufin: "u = (if fin \<and> n = length data then t\<lparr>rx := ring, fin_seen := True, fin_seq := seq_at b (q + n)\<rparr>
      else t\<lparr>rx := ring\<rparr>)"
    unfolding u tcp_store_data_def Let_def un at ring_def by (simp add: add.assoc)
  then have uu: "u = t\<lparr>rx := ring, fin_seen := fs, fin_seq := fq\<rparr>" by (simp add: fs_def fq_def)
  have "length ring = TCP_RX_BUF" using i(1,4) q by (simp add: ring_def)
  moreover have "fs \<longrightarrow> fq = seq_at b (length S) \<and> length S \<le> d + TCP_RX_BUF"
  proof (cases "fin \<and> n = length data")
    case True
    then have "q + n = length S" using g by (simp add: genuine_def)
    then show ?thesis using True q(2) by (simp add: fq_def ufin)
  next
    case False
    then have "u = t\<lparr>rx := ring\<rparr>" unfolding ufin if_not_P [OF False] by simp
    then show ?thesis using inv by (simp add: fs_def fq_def rx_inv_def)
  qed
  moreover have "stored S d u ({d..<p} \<union> covered L \<union> {q..<q + n})"
    if ok: "spans_ok p (min (d + TCP_RX_BUF) (length S)) L" and st: "stored S d t ({d..<p} \<union> covered L)" for L
  proof -
    have "\<forall>k \<in> {d..<p} \<union> covered L. d \<le> k \<and> k < d + TCP_RX_BUF"
      using covered_bounds [OF ok] i(4,5) by fastforce
    from stored_put [OF st this i(1,2) g _ q(2,3) refl] q(1) i(4) show ?thesis
      by (simp add: stored_def uu ring_def)
  qed
  ultimately show ?thesis using uu by blast
qed

lemma tcp_count_data_inv:
  assumes inv: "rx_inv b S d p t" and nf: "\<not> peer_fin t" and g: "genuine S q data fin"
    and q: "p \<le> q" "q + n \<le> d + TCP_RX_BUF" "n \<le> length data"
    and w: "w = tcp_count_data (seq_at b q) (of_nat (q - p)) (of_nat n)
      (tcp_store_data (seq_at b q) (of_nat (q - p)) data (of_nat n) fin t)"
  shows "\<exists>p' \<ge> p. rx_inv b S d p' w \<and> \<not> peer_fin w \<and> (q = p \<longrightarrow> p + n \<le> p')"
proof -
  note i = rx_invD [OF inv]
  have nS: "q + n \<le> length S" using g q(3) by (simp add: genuine_def)
  have z: "(of_nat x :: u32) = 0 \<longleftrightarrow> x = 0" if "x < 2 ^ 32" for x
    using unat_of_nat_small [where ?'a = 32, of x] that by (auto simp: unat_eq_0 [symmetric])
  have small: "q - p < 2 ^ 32" "n < 2 ^ 32" using q i(4) by simp_all
  define u where "u = tcp_store_data (seq_at b q) (of_nat (q - p)) data (of_nat n) fin t"
  from tcp_store_data_form [OF inv g q u_def] obtain ring fs fq
    where uu: "u = t\<lparr>rx := ring, fin_seen := fs, fin_seq := fq\<rparr>" "length ring = TCP_RX_BUF"
      and ff: "fs \<Longrightarrow> fq = seq_at b (length S) \<and> length S \<le> d + TCP_RX_BUF"
      and st: "\<And>L. spans_ok p (min (d + TCP_RX_BUF) (length S)) L \<Longrightarrow> stored S d t ({d..<p} \<union> covered L) \<Longrightarrow>
         stored S d u ({d..<p} \<union> covered L \<union> {q..<q + n})"
    by blast
  show ?thesis
  proof (cases "q = p")
    case True
    then have "w = tcp_ooo_settle (u\<lparr>rx_len := rx_len u + of_nat n, rcv_nxt := rcv_nxt u + of_nat n\<rparr>)"
      unfolding w u_def by (simp add: tcp_count_data_def)
    from rx_add_in_order [OF inv nf q(2) [unfolded True] nS [unfolded True] st [unfolded True] uu ff this] obtain p' where
      "p + n \<le> p'" "rx_inv b S d p' w" "\<not> peer_fin w" by blast
    then show ?thesis by (intro exI [of _ p']) simp
  next
    case qp: False
    then have off: "(of_nat (q - p) :: u32) \<noteq> 0" using z [OF small(1)] q(1) by simp
    then have ww: "w = (if n \<noteq> 0 then tcp_ooo_add (seq_at b q) (seq_at b (q + n)) u else u)"
      unfolding w u_def [symmetric] tcp_count_data_def using z [OF small(2)] by (simp add: add.assoc)
    have "rx_inv b S d p w"
    proof (cases "n = 0")
      case True
      then show ?thesis using inv ff uu(2) st unfolding ww rx_inv_def by (auto simp: uu(1))
    next
      case False
      then show ?thesis using rx_add_span [OF inv nf _ _ q(2) nS st uu ff] qp q(1) by (simp add: ww)
    qed
    moreover have "\<not> peer_fin w" using nf by (simp add: ww uu(1) tcp_ooo_add_def)
    ultimately show ?thesis using qp by auto
  qed
qed

text \<open>A genuine block at or behind the next expected position.\<close>

lemma tcp_take_data_inv:
  assumes inv: "rx_inv b S d p t" and nf: "\<not> peer_fin t" and g: "genuine S q data fin"
    and q: "p \<le> q" "q - p < 2 ^ 31" and t': "t' = fst (tcp_take_data now (seq_at b q) data fin t io)"
  shows "\<exists>p' \<ge> p. rx_inv b S d p' t' \<and> (q = p \<longrightarrow> min (p + length data) (d + TCP_RX_BUF) \<le> p')"
proof -
  note i = rx_invD [OF inv]
  define off room where "off = seq_at b q - rcv_nxt t" and "room = of_nat TCP_RX_BUF - rx_len t"
  define tk where "tk = (if length data < unat (room - off) then of_nat (length data) else room - off)"
  have room: "unat room = d + TCP_RX_BUF - p" unfolding room_def by (rule rx_room [OF inv])
  have off: "off = of_nat (q - p)" using i(7) nf q(1) by (simp add: off_def of_nat_diff)
  have uoff: "unat off = q - p" using q(2) by (simp add: off unat_of_nat_small)
  have off0: "off = 0 \<longleftrightarrow> q = p" using uoff q(1) by (auto simp: unat_eq_0 [symmetric])
  show ?thesis
  proof (cases "off \<noteq> 0 \<and> off \<ge> room")
    case True
    then have "t' = t" unfolding t' tcp_take_data_def Let_def off_def [symmetric] room_def [symmetric] by simp
    with inv True off0 show ?thesis by auto
  next
    case False
    then have qb: "q \<le> d + TCP_RX_BUF" using i(5) q(1) uoff room off0 by (auto simp: word_le_nat_alt)
    then have rest: "unat (room - off) = d + TCP_RX_BUF - q"
      using room uoff q(1) by (simp add: unat_minus_small)
    define n where "n = unat tk"
    have "length data < 2 ^ 32" if "length data < d + TCP_RX_BUF - q" using that i(4) q(1) by simp
    then have n: "n = min (length data) (d + TCP_RX_BUF - q)"
      using rest by (auto simp: n_def tk_def min_def unat_of_nat_small)
    have tk: "tk = of_nat n" by (simp add: n_def)
    define w where "w = tcp_count_data (seq_at b q) off tk (tcp_store_data (seq_at b q) off data tk fin t)"
    have "\<not> (peer_fin t \<or> off \<noteq> 0 \<and> off \<ge> room)" using False nf by blast
    then have t'w: "t' = tcp_fin_reached now w"
      unfolding t' tcp_take_data_def Let_def off_def [symmetric] room_def [symmetric] tk_def [symmetric] w_def
      by (simp only: if_False fst_conv)
    have "q + n \<le> d + TCP_RX_BUF" "n \<le> length data" using n qb by auto
    from tcp_count_data_inv [OF inv nf g q(1) this w_def [unfolded off tk]] obtain p' where
      "p \<le> p'" "rx_inv b S d p' w" "\<not> peer_fin w" "q = p \<Longrightarrow> p + n \<le> p'" by blast
    with rx_fin_reached [of b S d p' w now] n t'w show ?thesis
      using i(5) by (intro exI [of _ p']) auto
  qed
qed


text \<open>A genuine segment at any position, old data included.\<close>

lemma tcp_got_data_inv:
  assumes inv: "rx_inv b S d p t" and g: "genuine S q data fin" and q: "\<bar>int q - int p\<bar> < 2 ^ 31 - 1"
    and t': "t' = fst (tcp_got_data now (seq_at b q) data fin t io)"
  shows "\<exists>p' \<ge> p. rx_inv b S d p' t' \<and>
    (q \<le> p \<and> \<not> peer_fin t \<longrightarrow> min (q + length data) (d + TCP_RX_BUF) \<le> p')"
proof (cases "peer_fin t")
  case True
  then have "t' = t" by (simp add: t' tcp_got_data_def tcp_take_data_def Let_def)
  with inv True show ?thesis by auto
next
  case nf: False
  note i = rx_invD [OF inv]
  have nxt: "rcv_nxt t = seq_at b p" using i(7) nf by simp
  have lt: "SEQ_LT (seq_at b q) (rcv_nxt t) \<longleftrightarrow> q < p" unfolding nxt using q by (intro SEQ_LT_at) simp
  show ?thesis
  proof (cases "q < p")
    case False
    then have "t' = fst (tcp_take_data now (seq_at b q) data fin t io)" using lt by (simp add: t' tcp_got_data_def)
    moreover have "p \<le> q" using False by simp
    moreover have "q - p < 2 ^ 31" using False q by (simp add: abs_if split: if_splits)
    ultimately show ?thesis using tcp_take_data_inv [OF inv nf g] False by (metis le_antisym)
  next
    case True
    have "p - q < 2 ^ 32" using q True by (simp add: abs_if)
    then have sk: "unat (rcv_nxt t - seq_at b q) = p - q" unfolding nxt using True by (intro unat_seq_diff) simp_all
    show ?thesis
    proof (cases "p - q > length data")
      case old: True
      then have "t' = t" using True lt sk by (simp add: t' tcp_got_data_def Let_def)
      with inv old show ?thesis by auto
    next
      case F: False
      then have t2: "t' = fst (tcp_take_data now (seq_at b p) (drop (p - q) data) fin t io)"
        using True lt sk nxt by (simp add: t' tcp_got_data_def Let_def)
      have "genuine S p (drop (p - q) data) fin" using genuine_drop [OF g, of "p - q"] F True by simp
      from tcp_take_data_inv [OF inv nf this _ _ t2] F True show ?thesis by auto
    qed
  qed
qed

section \<open>Everything else leaves the receive side alone\<close>

definition rx_view :: "tcb \<Rightarrow> bytes \<times> u32 \<times> u32 \<times> u32 \<times> bool \<times> bool \<times> u32 \<times> tcp_range list" where
  "rx_view t = (rx t, rx_start t, rx_len t, rcv_nxt t, peer_fin t, fin_seen t, fin_seq t, ooo t)"

lemma rx_inv_view: "rx_view t' = rx_view t \<Longrightarrow> rx_inv b S d p t' = rx_inv b S d p t"
  unfolding rx_inv_def stored_def rx_view_def by simp

named_theorems frames \<open>what operations leave unchanged\<close>

lemma rx_view_upd [frames]:
  "rx_view (t\<lparr>t_state := x_t_state\<rparr>) = rx_view t"
  "rx_view (t\<lparr>local_ip := x_local_ip\<rparr>) = rx_view t"
  "rx_view (t\<lparr>remote_ip := x_remote_ip\<rparr>) = rx_view t"
  "rx_view (t\<lparr>local_port := x_local_port\<rparr>) = rx_view t"
  "rx_view (t\<lparr>remote_port := x_remote_port\<rparr>) = rx_view t"
  "rx_view (t\<lparr>linked := x_linked\<rparr>) = rx_view t"
  "rx_view (t\<lparr>iss := x_iss\<rparr>) = rx_view t"
  "rx_view (t\<lparr>snd_una := x_snd_una\<rparr>) = rx_view t"
  "rx_view (t\<lparr>snd_nxt := x_snd_nxt\<rparr>) = rx_view t"
  "rx_view (t\<lparr>snd_wnd := x_snd_wnd\<rparr>) = rx_view t"
  "rx_view (t\<lparr>snd_wl1 := x_snd_wl1\<rparr>) = rx_view t"
  "rx_view (t\<lparr>mss := x_mss\<rparr>) = rx_view t"
  "rx_view (t\<lparr>snd_shift := x_snd_shift\<rparr>) = rx_view t"
  "rx_view (t\<lparr>rcv_shift := x_rcv_shift\<rparr>) = rx_view t"
  "rx_view (t\<lparr>shift_next := x_shift_next\<rparr>) = rx_view t"
  "rx_view (t\<lparr>sack_ok := x_sack_ok\<rparr>) = rx_view t"
  "rx_view (t\<lparr>rcv_adv := x_rcv_adv\<rparr>) = rx_view t"
  "rx_view (t\<lparr>cwnd := x_cwnd\<rparr>) = rx_view t"
  "rx_view (t\<lparr>ssthresh := x_ssthresh\<rparr>) = rx_view t"
  "rx_view (t\<lparr>dupacks := x_dupacks\<rparr>) = rx_view t"
  "rx_view (t\<lparr>recovery := x_recovery\<rparr>) = rx_view t"
  "rx_view (t\<lparr>recover := x_recover\<rparr>) = rx_view t"
  "rx_view (t\<lparr>rtx_nxt := x_rtx_nxt\<rparr>) = rx_view t"
  "rx_view (t\<lparr>rtx_one := x_rtx_one\<rparr>) = rx_view t"
  "rx_view (t\<lparr>rtt_at := x_rtt_at\<rparr>) = rx_view t"
  "rx_view (t\<lparr>rtt_seq := x_rtt_seq\<rparr>) = rx_view t"
  "rx_view (t\<lparr>srtt := x_srtt\<rparr>) = rx_view t"
  "rx_view (t\<lparr>rttvar := x_rttvar\<rparr>) = rx_view t"
  "rx_view (t\<lparr>rto_base := x_rto_base\<rparr>) = rx_view t"
  "rx_view (t\<lparr>tx := x_tx\<rparr>) = rx_view t"
  "rx_view (t\<lparr>tx_start := x_tx_start\<rparr>) = rx_view t"
  "rx_view (t\<lparr>tx_len := x_tx_len\<rparr>) = rx_view t"
  "rx_view (t\<lparr>fin_wanted := x_fin_wanted\<rparr>) = rx_view t"
  "rx_view (t\<lparr>fin_sent := x_fin_sent\<rparr>) = rx_view t"
  "rx_view (t\<lparr>rd_shut := x_rd_shut\<rparr>) = rx_view t"
  "rx_view (t\<lparr>was_connected := x_was_connected\<rparr>) = rx_view t"
  "rx_view (t\<lparr>t_error := x_t_error\<rparr>) = rx_view t"
  "rx_view (t\<lparr>rto_at := x_rto_at\<rparr>) = rx_view t"
  "rx_view (t\<lparr>rto_ms := x_rto_ms\<rparr>) = rx_view t"
  "rx_view (t\<lparr>retries := x_retries\<rparr>) = rx_view t"
  "rx_view (t\<lparr>done_at := x_done_at\<rparr>) = rx_view t"
  "rx_view (t\<lparr>t_wait := x_t_wait\<rparr>) = rx_view t"
  "rx_view (t\<lparr>detached := x_detached\<rparr>) = rx_view t"
  "rx_view (t\<lparr>keepalive := x_keepalive\<rparr>) = rx_view t"
  "rx_view (t\<lparr>nodelay := x_nodelay\<rparr>) = rx_view t"
  "rx_view (t\<lparr>keep_idle := x_keep_idle\<rparr>) = rx_view t"
  "rx_view (t\<lparr>keep_intvl := x_keep_intvl\<rparr>) = rx_view t"
  "rx_view (t\<lparr>keep_cnt := x_keep_cnt\<rparr>) = rx_view t"
  "rx_view (t\<lparr>keep_sent := x_keep_sent\<rparr>) = rx_view t"
  "rx_view (t\<lparr>last_rx := x_last_rx\<rparr>) = rx_view t"
  "rx_view (t\<lparr>parent := x_parent\<rparr>) = rx_view t"
  "rx_view (t\<lparr>accept_q := x_accept_q\<rparr>) = rx_view t"
  "rx_view (t\<lparr>backlog := x_backlog\<rparr>) = rx_view t"
  "rx_view (t\<lparr>t_pending := x_t_pending\<rparr>) = rx_view t"
  by (simp_all add: rx_view_def)

lemma rx_view_emit [frames]: "rx_view (fst (tcp_emit flags sq off len opts t io)) = rx_view t"
  by (simp add: tcp_emit_fst rx_view_def)

lemma rx_view_simple [frames]:
  "rx_view (tcp_arm_rto now t) = rx_view t" "rx_view (tcp_enter_rto t) = rx_view t"
  "rx_view (tcp_backoff now t) = rx_view t" "rx_view (tcp_rtt_sample now t) = rx_view t"
  "rx_view (tcp_cc_dupack t) = rx_view t" "rx_view (snd (tcp_cc_acked acked ack t)) = rx_view t"
  "rx_view (fst (tcp_set_closed err t io)) = rx_view t"
  by (simp_all add: tcp_arm_rto_def tcp_enter_rto_def tcp_backoff_def tcp_rtt_sample_def tcp_cc_dupack_def
      tcp_cc_acked_def tcp_set_closed_def rx_view_def Let_def)

lemma rx_view_send [frames]:
  "rx_view (fst (tcp_send_ctl flags sq t io)) = rx_view t" "rx_view (fst (tcp_send_ack t io)) = rx_view t"
  "rx_view (fst (tcp_send_syn t io)) = rx_view t"
  by (simp_all add: tcp_send_ctl_def tcp_send_ack_def tcp_send_syn_def frames)

lemma rx_view_resend [frames]: "rx_view (fst (snd (tcp_resend sq t io))) = rx_view t"
  using tcp_resend_tcb [of sq t io] by (auto simp: rx_view_def)

lemma rx_view_rtx_loop [frames]: "rx_view (fst (tcp_rtx_loop t io)) = rx_view t"
proof (rule tcp_rtx_loop_keeps [where P = "\<lambda>u io. rx_view u = rx_view t"], goal_cases)
  case (2 u io n t1 io1)
  then show ?case using rx_view_resend [of "rtx_nxt u" u io] by (simp add: rx_view_def)
qed simp

lemma rx_view_push_recovery [frames]: "rx_view (fst (tcp_push_recovery t io)) = rx_view t"
proof -
  have "rx_view (t\<lparr>rtx_one := v\<rparr>) = rx_view t" "rx_view (t\<lparr>rtx_nxt := w\<rparr>) = rx_view t" for v w
    by (simp_all add: rx_view_def)
  then show ?thesis by (simp add: tcp_push_recovery_def frames split: tcp_recovery_t.splits)
qed

lemma rx_view_push_one [frames]: "rx_view (fst (tcp_push_one now sent n t io)) = rx_view t"
proof -
  have "rx_view (t\<lparr>rtt_at := v, rtt_seq := w\<rparr>) = rx_view t" "rx_view (u\<lparr>snd_nxt := x\<rparr>) = rx_view u" for v w x u
    by (simp_all add: rx_view_def)
  then show ?thesis by (simp add: tcp_push_one_def Let_def case_prod_unfold frames)
qed

lemma rx_view_push_loop [frames]: "rx_view (fst (snd (tcp_push_loop now wnd sent t io))) = rx_view t"
proof -
  have "case tcp_push_loop now wnd sent t io of (sent1, t1, io1) \<Rightarrow> rx_view t1 = rx_view t"
  proof (rule tcp_push_loop_keeps, goal_cases)
    case (3 sent n u io t1 io1)
    then show ?case using rx_view_push_one [of now sent n u io] by simp
  qed simp_all
  then show ?thesis by (simp add: case_prod_unfold)
qed


lemma rx_view_push [frames]: "rx_view (fst (tcp_push now t io)) = rx_view t"
  by (simp add: tcp_push_def Let_def case_prod_unfold frames)

lemma rx_view_got_ack [frames]: "rx_view (fst (tcp_got_ack now sq ack w bare t io)) = rx_view t"
proof -
  have "rx_view (fst (tcp_fin_acked now ack u io)) = rx_view u" for u io
    by (simp add: tcp_fin_acked_def frames)
  then have "rx_view (fst (tcp_ack_advance now ack t io)) = rx_view t"
    by (simp add: tcp_ack_advance_def Let_def case_prod_unfold frames)
  then show ?thesis by (simp add: tcp_got_ack_def Let_def case_prod_unfold frames)
qed

lemma rx_view_ops [frames]:
  "rx_view (fst (snd (tcp_send now buf t io))) = rx_view t"
  "rx_view (fst (snd (tcp_shutdown now rd wr t io))) = rx_view t"
  "rx_view (fst (tcp_timeout_retry now t io)) = rx_view t"
  "rx_view (fst (tcp_keepalive now t io)) = rx_view t"
  "rx_view (fst (tcp_reset_arrives sq t io)) = rx_view t"
  by (simp_all add: tcp_send_def tcp_shutdown_def tcp_timeout_retry_def tcp_keepalive_def tcp_reset_arrives_def
      Let_def case_prod_unfold frames)

section \<open>Segments and reads\<close>

text \<open>A segment that carries something is cut from the stream, not too far from position \<open>p\<close>.\<close>

definition seg_genuine :: "u32 \<Rightarrow> bytes \<Rightarrow> nat \<Rightarrow> tcp_hdr \<Rightarrow> bytes \<Rightarrow> bool" where
  "seg_genuine b S p h body \<longleftrightarrow> (body \<noteq> [] \<or> h_flags h AND TCP_FIN \<noteq> 0 \<longrightarrow>
     (\<exists>q. h_seq h = seq_at b q \<and> genuine S q body (h_flags h AND TCP_FIN \<noteq> 0)
          \<and> \<bar>int q - int p\<bar> < 2 ^ 31 - 1))"

lemma tcp_segment_arrives_rx:
  assumes inv: "rx_inv b S d p t" and g: "seg_genuine b S p h body"
  shows "\<exists>p' \<ge> p. rx_inv b S d p' (fst (tcp_segment_arrives now h body t io))"
proof -
  define P where "P u \<longleftrightarrow> (\<exists>p' \<ge> p. rx_inv b S d p' u)" for u
  have view: "P v \<longleftrightarrow> P u" if "rx_view v = rx_view u" for u v
    unfolding P_def rx_inv_view [OF that] by simp
  define t0 where "t0 = t\<lparr>last_rx := now, keep_sent := 0\<rparr>"
  define r1 where "r1 = (if h_flags h AND TCP_ACK \<noteq> 0
    then tcp_got_ack now (h_seq h) (h_ack h) (h_window h) (\<not> (body \<noteq> [] \<or> h_flags h AND TCP_FIN \<noteq> 0)) t0 io else (t0, io))"
  define r2 where "r2 = (if (body \<noteq> [] \<or> h_flags h AND TCP_FIN \<noteq> 0) \<and> tcp_can_take_data (fst r1)
    then tcp_got_data now (h_seq h) body (h_flags h AND TCP_FIN \<noteq> 0) (fst r1) (snd r1) else r1)"
  have t0: "rx_view t0 = rx_view t" by (simp add: t0_def frames)
  have r1: "rx_view (fst r1) = rx_view t" by (simp add: r1_def t0 frames)
  have P0: "P u" if "rx_view u = rx_view t" for u using inv rx_inv_view [OF that] by (auto simp: P_def)
  have "P (fst (tcp_got_data now (h_seq h) body (h_flags h AND TCP_FIN \<noteq> 0) (fst r1) (snd r1)))"
    if carry: "body \<noteq> [] \<or> h_flags h AND TCP_FIN \<noteq> 0"
  proof -
    from g carry obtain q where q: "h_seq h = seq_at b q" "genuine S q body (h_flags h AND TCP_FIN \<noteq> 0)"
      "\<bar>int q - int p\<bar> < 2 ^ 31 - 1" unfolding seg_genuine_def by blast
    have "rx_inv b S d p (fst r1)" using inv rx_inv_view [OF r1] by simp
    from tcp_got_data_inv [OF this q(2,3) refl, of now "snd r1"] q(1) show ?thesis by (auto simp: P_def)
  qed
  then have P2: "P (fst r2)" using P0 [OF r1] by (simp add: r2_def)
  have Pp: "P (fst (tcp_push now (fst r2) (snd r2)))" using P2 view [OF rx_view_push] by blast
  have "P (fst (tcp_send_ack (fst (tcp_push now (fst r2) (snd r2))) (snd (tcp_push now (fst r2) (snd r2)))))"
    using Pp view [OF rx_view_send(2)] by blast
  moreover have "P (fst (tcp_send_ctl f x t0 io))" "P (fst (tcp_set_closed 0 (fst (tcp_send_ctl f x t0 io)) iox))" for f x iox
    by (rule P0, simp add: frames t0)+
  ultimately have "P (fst (tcp_segment_arrives now h body t io))"
    unfolding tcp_segment_arrives_def Let_def t0_def [symmetric] case_prod_unfold prod.collapse
      r1_def [symmetric] r2_def [symmetric]
    using P2 Pp by simp
  then show ?thesis by (simp add: P_def)
qed

text \<open>Moving the start of the ring.\<close>

lemma rx_inv_read:
  assumes inv: "rx_inv b S d p t" and n: "unat n \<le> p - d"
  shows "rx_inv b S (d + unat n) p (t\<lparr>rx_start := (rx_start t + n) mod of_nat TCP_RX_BUF, rx_len := rx_len t - n\<rparr>)"
proof -
  note i = rx_invD [OF inv]
  define a where "a = (unat (rx_start t) + unat n) mod TCP_RX_BUF"
  have "unat n \<le> TCP_RX_BUF" using n i(5) by simp
  then have a: "unat ((rx_start t + n) mod of_nat TCP_RX_BUF) = a"
    using i(2) by (simp add: a_def unat_mod unat_plus_small)
  have l: "unat (rx_len t - n) = p - (d + unat n)" using n i(3) by (simp add: unat_minus_small)
  from inv obtain L where L: "ooo t = map (range_at b) L" "length L \<le> TCP_OOO_MAX"
    "spans_ok p (min (d + TCP_RX_BUF) (length S)) L" "stored S d t ({d..<p} \<union> covered L)"
    unfolding rx_inv_def by blast
  have pos: "(a + (k - (d + unat n))) mod TCP_RX_BUF = (unat (rx_start t) + (k - d)) mod TCP_RX_BUF"
    if "d + unat n \<le> k" for k
    using ring_pos_add [of "unat n" "k - d" "unat (rx_start t)" TCP_RX_BUF] that by (simp add: a_def)
  have st: "rx t ! ((a + (k - (d + unat n))) mod TCP_RX_BUF) = S ! k" if "k \<in> {d + unat n..<p} \<union> covered L" for k
  proof -
    have "d + unat n \<le> k" "k \<in> {d..<p} \<union> covered L" using that covered_bounds [OF L(3), of k] n i(4) by auto
    then show ?thesis unfolding pos [OF \<open>d + unat n \<le> k\<close>] using L(4) unfolding stored_def by blast
  qed
  have sp: "spans_ok p (min (d + unat n + TCP_RX_BUF) (length S)) L"
    by (rule spans_ok_mono [OF L(3)]) auto
  define u where "u = t\<lparr>rx_start := (rx_start t + n) mod of_nat TCP_RX_BUF, rx_len := rx_len t - n\<rparr>"
  have sel: "rx u = rx t" "unat (rx_start u) = a" "unat (rx_len u) = p - (d + unat n)" "rcv_nxt u = rcv_nxt t"
    "peer_fin u = peer_fin t" "fin_seen u = fin_seen t" "fin_seq u = fin_seq t" "ooo u = ooo t"
    using a l by (simp_all add: u_def)
  have b: "a < TCP_RX_BUF" "d + unat n \<le> p" "p \<le> d + unat n + TCP_RX_BUF" using n i(4,5) by (simp_all add: a_def)
  have fin: "fin_seen t \<longrightarrow> fin_seq t = seq_at b (length S) \<and> length S \<le> d + unat n + TCP_RX_BUF"
    "peer_fin t \<longrightarrow> p = length S" using inv by (auto simp: rx_inv_def)
  have "stored S (d + unat n) u ({d + unat n..<p} \<union> covered L)" unfolding stored_def sel using st by blast
  then show ?thesis
    unfolding u_def [symmetric] rx_inv_def sel(1,3-8) using sel(2) i(1,6,7) b fin L(1,2) sp by blast
qed

text \<open>Reading hands out the next bytes of the stream.\<close>

lemma tcp_recv_rx:
  assumes inv: "rx_inv b S d p t" and r: "tcp_recv len False t io = (r, buf, t', io')"
  shows "buf = take (length buf) (drop d S) \<and> length buf = min len (p - d) \<and> rx_inv b S (d + length buf) p t'
    \<and> (rx_len t \<noteq> 0 \<longrightarrow> r = int (length buf))"
proof (cases "rx_len t = 0")
  case True
  note i = rx_invD [OF inv]
  have "buf = []" "rx_view t' = rx_view t"
    using r True by (auto simp: tcp_recv_def rx_view_def split: if_splits)
  moreover have "p = d" using True i(3,4) by simp
  ultimately show ?thesis using inv rx_inv_view [of t' t] True by simp
next
  case False
  note i = rx_invD [OF inv]
  have "p - d < 2 ^ 32" using i(5) by simp
  define n where "n = (if len < unat (rx_len t) then of_nat len else rx_len t)"
  have n: "unat n = min len (p - d)"
    using i(3) \<open>p - d < 2 ^ 32\<close> by (auto simp: n_def min_def unat_of_nat_small)
  define u where "u = t\<lparr>rx_start := (rx_start t + n) mod of_nat TCP_RX_BUF, rx_len := rx_len t - n\<rparr>"
  have out: "buf = ring_get (rx t) (unat (rx_start t)) (unat n)" "r = uint n" "rx_view t' = rx_view u"
    using r False rx_view_send(1) [of TCP_ACK "snd_nxt u" u io] unfolding tcp_recv_def Let_def n_def [symmetric] u_def [symmetric]
    by (auto split: if_splits prod.splits)
  from inv obtain L where L: "ooo t = map (range_at b) L" "length L \<le> TCP_OOO_MAX"
    "spans_ok p (min (d + TCP_RX_BUF) (length S)) L" "stored S d t ({d..<p} \<union> covered L)"
    unfolding rx_inv_def by blast
  have buf: "buf = ring_slice (rx t) (unat (rx_start t)) (unat n)"
    unfolding out(1) using i n by (intro ring_get_slice) simp_all
  have "buf = take (unat n) (drop d S)"
  proof (rule nth_equalityI)
    show "length buf = length (take (unat n) (drop d S))" using buf i n by simp
    fix k assume "k < length buf"
    then have k1: "k < unat n" by (simp add: buf)
    then have "k < p - d" using n by simp
    with k1 have k: "k < unat n" "d + k \<in> {d..<p}" by (simp_all add: less_diff_conv add.commute)
    have "rx t ! ((unat (rx_start t) + (d + k - d)) mod TCP_RX_BUF) = S ! (d + k)"
      using L(4) k(2) unfolding stored_def by blast
    then show "buf ! k = take (unat n) (drop d S) ! k" using buf k i by simp
  qed
  moreover have "length buf = unat n" by (simp add: buf)
  moreover have "rx_inv b S (d + unat n) p u" unfolding u_def by (rule rx_inv_read [OF inv]) (use n in simp)
  moreover have "r = int (unat n)" using out(2) by simp
  ultimately show ?thesis using rx_inv_view [OF out(3)] n by simp
qed


section \<open>A connection and its reader\<close>

text \<open>
  Every history of an open connection whose peer sends the stream \<open>S\<close>: segments cut from
  the stream arrive in any order, any number of times, as long as they are not half the sequence space
  away; the owner reads and writes; the timers run. The last argument is what was read so far.
\<close>

definition rx_fresh :: "u32 \<Rightarrow> tcb \<Rightarrow> bool" where
  "rx_fresh b t \<longleftrightarrow> length (rx t) = TCP_RX_BUF \<and> rx_start t = 0 \<and> rx_len t = 0 \<and> rcv_nxt t = b
     \<and> ooo t = [] \<and> \<not> fin_seen t \<and> \<not> peer_fin t"

inductive tcp_conn :: "u32 \<Rightarrow> bytes \<Rightarrow> tcb \<Rightarrow> bytes \<Rightarrow> bool" for b S where
  opened: "rx_fresh b t \<Longrightarrow> tcp_conn b S t []"
| arrives: "tcp_conn b S t out \<Longrightarrow> seg_genuine b S (length out + unat (rx_len t)) h body \<Longrightarrow>
    tcp_conn b S (fst (tcp_segment_arrives now h body t io)) out"
| reads: "tcp_conn b S t out \<Longrightarrow> tcp_recv len False t io = (r, buf, t', io') \<Longrightarrow> tcp_conn b S t' (out @ buf)"
| peeks: "tcp_conn b S t out \<Longrightarrow> tcp_recv len True t io = (r, buf, t', io') \<Longrightarrow> tcp_conn b S t' out"
| writes: "tcp_conn b S t out \<Longrightarrow> tcp_conn b S (fst (snd (tcp_send now buf t io))) out"
| shuts: "tcp_conn b S t out \<Longrightarrow> tcp_conn b S (fst (snd (tcp_shutdown now rd wr t io))) out"
| pushes: "tcp_conn b S t out \<Longrightarrow> tcp_conn b S (fst (tcp_push now t io)) out"
| times_out: "tcp_conn b S t out \<Longrightarrow> tcp_conn b S (fst (tcp_timeout_retry now t io)) out"
| keeps_alive: "tcp_conn b S t out \<Longrightarrow> tcp_conn b S (fst (tcp_keepalive now t io)) out"

lemma rx_fresh_inv: "rx_fresh b t \<Longrightarrow> rx_inv b S 0 0 t"
  by (auto simp: rx_fresh_def rx_inv_def stored_def intro!: exI [of _ "[]"])

lemma rx_keep:
  assumes "rx_view t' = rx_view t" and "\<exists>p. rx_inv b S d p t \<and> Q"
  shows "\<exists>p. rx_inv b S d p t' \<and> Q"
  unfolding rx_inv_view [OF assms(1)] by (rule assms(2))

lemma tcp_conn_inv:
  "tcp_conn b S t out \<Longrightarrow> \<exists>p. rx_inv b S (length out) p t \<and> out = take (length out) S"
proof (induction rule: tcp_conn.induct)
  case (opened t)
  then show ?case using rx_fresh_inv by fastforce
next
  case (arrives t out h body now io)
  then obtain p where p: "rx_inv b S (length out) p t" "out = take (length out) S" by blast
  have "length out + unat (rx_len t) = p" using rx_invD(3,4) [OF p(1)] by simp
  with arrives(2) have "seg_genuine b S p h body" by simp
  from tcp_segment_arrives_rx [OF p(1) this, of now io] p(2) show ?case by auto
next
  case (reads t out len io r buf t' io')
  then obtain p where p: "rx_inv b S (length out) p t" "out = take (length out) S" by blast
  from tcp_recv_rx [OF p(1) reads(2)] have r: "buf = take (length buf) (drop (length out) S)"
    "rx_inv b S (length out + length buf) p t'" by auto
  have "out @ buf = take (length out) S @ take (length buf) (drop (length out) S)" using r(1) p(2) by metis
  also have "\<dots> = take (length (out @ buf)) S" unfolding length_append take_add ..
  finally have "out @ buf = take (length (out @ buf)) S" .
  with r(2) show ?case unfolding length_append by blast
next
  case (peeks t out len io r buf t' io')
  have "rx_view t' = rx_view t" using peeks(2) by (auto simp: tcp_recv_def Let_def frames split: if_splits)
  then show ?case using peeks(3) by (rule rx_keep)
qed (rule rx_keep, simp only: frames, assumption)+

end
