(* ===== verification/Tcptx.thy ===== *)
theory Tcptx
  imports Tcprx
begin

text \<open>
  The sending side of TCP. Packets are parsed back into their header and body; the send ring holds
  the bytes of the stream that are not acknowledged yet; and every packet that carries data or a
  FIN is cut from the stream the owner wrote, whatever acknowledgements arrive and however
  often it is sent again.
\<close>

section \<open>Packets\<close>

definition tcp_body :: "bytes \<Rightarrow> bytes" where
  "tcp_body d = drop (unat (drop_bit 4 (h_off (tcp_hdr_of d))) * 4) d"

definition opts_ok :: "bytes \<Rightarrow> bool" where
  "opts_ok opts \<longleftrightarrow> length opts \<le> 40 \<and> 4 dvd length opts"

lemma length_tcp_fields [simp]: "length (tcp_fields sp dp sq ack off flags window csum) = TCP_HLEN"
  by (simp add: tcp_fields_def)

lemma tcp_packet_fields:
  obtains c where "tcp_packet src dst sp dp sq ack flags window opts data =
    tcp_fields sp dp sq ack (push_bit 4 (of_nat ((TCP_HLEN + length opts) div 4))) flags window c @ opts @ data"
  by (simp add: tcp_packet_def Let_def)

lemma length_tcp_packet:
  "length (tcp_packet src dst sp dp sq ack flags window opts data) = TCP_HLEN + length opts + length data"
  by (rule tcp_packet_fields [of src dst sp dp sq ack flags window opts data]) simp

lemma tcp_hdr_packet:
  "tcp_hdr_of (tcp_packet src dst sp dp sq ack flags window opts data) =
     \<lparr>h_src_port = sp, h_dst_port = dp, h_seq = sq, h_ack = ack,
      h_off = push_bit 4 (of_nat ((TCP_HLEN + length opts) div 4)), h_flags = flags, h_window = window\<rparr>"
proof -
  obtain c where "tcp_packet src dst sp dp sq ack flags window opts data =
    tcp_fields sp dp sq ack (push_bit 4 (of_nat ((TCP_HLEN + length opts) div 4))) flags window c @ opts @ data"
    by (rule tcp_packet_fields)
  then show ?thesis by (simp add: tcp_hdr_of_def tcp_fields_def wire_simps)
qed

lemma tcp_hlen:
  assumes "opts_ok opts"
  shows "unat (drop_bit 4 (push_bit 4 (of_nat ((TCP_HLEN + length opts) div 4)) :: u8)) * 4 = TCP_HLEN + length opts"
proof -
  define k where "k = (TCP_HLEN + length opts) div 4"
  have k: "k < 16" "4 * k = TCP_HLEN + length opts" using assms by (auto simp: k_def opts_ok_def)
  have "unat (push_bit 4 (of_nat k) :: u8) = k * 16"
    using k(1) by (simp add: push_bit_eq_mult unat_mult_small unat_of_nat_small)
  then have "unat (drop_bit 4 (push_bit 4 (of_nat k) :: u8)) = k" by (simp add: drop_bit_eq_div unat_div)
  then show ?thesis unfolding k_def [symmetric] using k(2) by simp
qed

lemma tcp_body_packet:
  assumes "opts_ok opts"
  shows "tcp_body (tcp_packet src dst sp dp sq ack flags window opts data) = data"
proof -
  obtain c where p: "tcp_packet src dst sp dp sq ack flags window opts data =
    tcp_fields sp dp sq ack (push_bit 4 (of_nat ((TCP_HLEN + length opts) div 4))) flags window c @ opts @ data"
    by (rule tcp_packet_fields)
  have "tcp_body (tcp_packet src dst sp dp sq ack flags window opts data) =
      drop (TCP_HLEN + length opts) (tcp_packet src dst sp dp sq ack flags window opts data)"
    unfolding tcp_body_def tcp_hdr_packet tcp_hdr.simps tcp_hlen [OF assms] ..
  then show ?thesis unfolding p by simp
qed

lemma tcp_packet_accepted:
  assumes "opts_ok opts" and "length data \<le> 65000"
  shows "tcp_accepts src dst (tcp_packet src dst sp dp sq ack flags window opts data)"
proof -
  define off where "off = (push_bit 4 (of_nat ((TCP_HLEN + length opts) div 4)) :: u8)"
  let ?pre = "st16 (htons sp) @ st16 (htons dp) @ st32 (htonl sq) @ st32 (htonl ack) @ [off, flags] @ st16 (htons window)"
  let ?post = "st16 0 @ opts @ data"
  let ?n = "TCP_HLEN + (length opts + length data)"
  have seg: "tcp_fields sp dp sq ack off flags window c @ opts @ data = ?pre @ st16 c @ ?post" for c
    by (simp add: tcp_fields_def)
  have "net_checksum (?pre @ st16 (net_checksum (?pre @ st16 0 @ ?post) (ipv4_pseudo_sum src dst IP_PROTO_TCP ?n)) @ ?post)
      (ipv4_pseudo_sum src dst IP_PROTO_TCP ?n) = 0"
    using assms by (intro checksum_inserted pseudo_sum_bound) (auto simp: opts_ok_def)
  then have "net_checksum (tcp_packet src dst sp dp sq ack flags window opts data)
      (ipv4_pseudo_sum src dst IP_PROTO_TCP ?n) = 0"
    unfolding tcp_packet_def Let_def off_def [symmetric] seg by simp
  then show ?thesis
    unfolding tcp_accepts_def tcp_hdr_packet tcp_hdr.simps tcp_hlen [OF assms(1)] Let_def length_tcp_packet
    by (simp add: add.assoc)
qed

section \<open>What is queued to go out\<close>

text \<open>
  Memory for packet buffers has their size. A queued packet passes the checks of
  \<open>tcp_input\<close>, and what it carries is cut from the stream; \<open>g\<close> says whether it may
  be a FIN. No more than the send ring holds was written behind it.
\<close>

definition io_ok :: "tcp_io \<Rightarrow> bool" where
  "io_ok io \<longleftrightarrow> (\<forall>m \<in> set (io_mem io). \<forall>junk. m = Some junk \<longrightarrow> length junk = NETBUF_SIZE)"

definition carries :: "u32 \<Rightarrow> bytes \<Rightarrow> bool \<Rightarrow> bytes \<Rightarrow> bool" where
  "carries b T g p \<longleftrightarrow> (h_flags (tcp_hdr_of p) AND TCP_FIN \<noteq> 0 \<longrightarrow> g) \<and>
     (tcp_body p \<noteq> [] \<or> h_flags (tcp_hdr_of p) AND TCP_FIN \<noteq> 0 \<longrightarrow>
       (\<exists>q. h_seq (tcp_hdr_of p) = seq_at b q \<and> genuine T q (tcp_body p) (h_flags (tcp_hdr_of p) AND TCP_FIN \<noteq> 0)
            \<and> length T \<le> q + TCP_TX_BUF))"

definition queued_ok :: "u32 \<Rightarrow> bytes \<Rightarrow> bool \<Rightarrow> netbuf \<times> u32 \<times> u32 \<Rightarrow> bool" where
  "queued_ok b T g x \<longleftrightarrow>
     (case x of (nb, src, dst) \<Rightarrow> tcp_accepts src dst (netbuf_data nb) \<and> carries b T g (netbuf_data nb))"

definition out_ok :: "u32 \<Rightarrow> bytes \<Rightarrow> bool \<Rightarrow> tcp_io \<Rightarrow> bool" where
  "out_ok b T g io \<longleftrightarrow> io_ok io \<and> (\<forall>x \<in> set (io_out io). queued_ok b T g x)"

lemma tcp_segment_queued:
  assumes "out_ok b T g io" and "opts_ok opts" and d: "data = tcp_tx_bytes from off len" "length data = unat len"
    and "data \<noteq> [] \<or> flags AND TCP_FIN \<noteq> 0 \<Longrightarrow> \<exists>q. sq = seq_at b q \<and> genuine T q data (flags AND TCP_FIN \<noteq> 0)
      \<and> length T \<le> q + TCP_TX_BUF"
    and "flags AND TCP_FIN \<noteq> 0 \<Longrightarrow> g"
  shows "out_ok b T g (tcp_segment src dst sp dp sq ack flags window from off len opts io)"
proof -
  let ?p = "tcp_packet src dst sp dp sq ack flags window opts data"
  obtain onb io1 where nb: "io_netbuf io = (onb, io1)" by fastforce
  have io1: "out_ok b T g io1" "io_out io1 = io_out io"
    using nb assms(1) by (auto simp: io_netbuf_def out_ok_def io_ok_def split: list.splits)
  show ?thesis
  proof (cases "length (io_out io) < TCP_OUT_MAX \<and> onb \<noteq> None")
    case False
    then show ?thesis using assms(1) io1 nb by (auto simp: tcp_segment_def)
  next
    case True
    then obtain nb0 where nb0: "onb = Some nb0" by blast
    then obtain junk where "netbuf_alloc (Some junk) = Some nb0" "length junk = NETBUF_SIZE"
      using nb assms(1) by (auto simp: io_netbuf_def netbuf_alloc_def out_ok_def io_ok_def split: list.splits)
    then have w: "netbuf_wf nb0" "netbuf_data nb0 = []" using netbuf_alloc_wf by blast+
    have len: "length ?p = TCP_HLEN + length opts + unat len" by (simp add: length_tcp_packet d(2))
    show ?thesis
    proof (cases "netbuf_put nb0 (length ?p)")
      case None
      then show ?thesis using True nb nb0 io1 len by (simp add: tcp_segment_def)
    next
      case (Some x)
      obtain at nb1 where x: "x = (at, nb1)" by fastforce
      have fits: "nb_off nb0 + nb_len nb0 + length ?p \<le> NETBUF_SIZE"
        using Some unat_u32 [of len] assms(2) w(1) by (simp add: netbuf_put_def Let_def len netbuf_wf_def opts_ok_def split: if_splits)
      from netbuf_put_store [OF w(1) this] Some x w(2) have eq: "netbuf_data (netbuf_store nb1 at ?p) = ?p" by auto
      have "length data \<le> 65000" using fits len d(2) by simp
      then have "queued_ok b T g (netbuf_store nb1 at ?p, src, dst)"
        unfolding queued_ok_def prod.case carries_def eq tcp_body_packet [OF assms(2)] tcp_hdr_packet tcp_hdr.simps
        using tcp_packet_accepted [OF assms(2)] assms(5,6) by blast
      then show ?thesis using True nb nb0 Some x io1 len d(1)
        by (auto simp: tcp_segment_def Let_def out_ok_def io_ok_def)
    qed
  qed
qed


text \<open>With memory at hand the packet is queued.\<close>

lemma tcp_segment_sent:
  assumes "length (io_out io) < TCP_OUT_MAX" and "io_mem io = Some junk # ms" and "length junk = NETBUF_SIZE"
    and "opts_ok opts" and d: "data = tcp_tx_bytes from off len" "length data = unat len" "unat len \<le> unat TCP_MSS"
  shows "\<exists>nb. tcp_segment src dst sp dp sq ack flags window from off len opts io =
      io\<lparr>io_mem := ms, io_out := io_out io @ [(nb, src, dst)]\<rparr>
    \<and> netbuf_data nb = tcp_packet src dst sp dp sq ack flags window opts data"
proof -
  let ?p = "tcp_packet src dst sp dp sq ack flags window opts data"
  define nb where "nb = \<lparr>nb_off = NETBUF_HEADROOM, nb_len = 0, nb_buf = junk\<rparr>"
  have alloc: "io_netbuf io = (Some nb, io\<lparr>io_mem := ms\<rparr>)" by (simp add: io_netbuf_def assms(2) netbuf_alloc_def nb_def)
  have w: "netbuf_wf nb" "netbuf_data nb = []" using assms(3) by (simp_all add: nb_def netbuf_wf_def netbuf_data_def)
  have len: "length ?p = TCP_HLEN + length opts + unat len" by (simp add: length_tcp_packet d(2))
  have "nb_off nb + nb_len nb + length ?p \<le> NETBUF_SIZE" using d(3) assms(4) by (simp add: len nb_def opts_ok_def)
  from netbuf_put_store [OF w(1) this] obtain at nb1 where
    n: "netbuf_put nb (length ?p) = Some (at, nb1)" "netbuf_data (netbuf_store nb1 at ?p) = ?p" using w(2) by auto
  have put: "netbuf_put nb (TCP_HLEN + length opts + unat len) = Some (at, nb1)" using n(1) unfolding len .
  show ?thesis
    using assms(1) n(2) unfolding tcp_segment_def alloc d(1) [symmetric]
    by (intro exI [of _ "netbuf_store nb1 at ?p"]) (simp add: put Let_def)
qed

section \<open>The send ring\<close>

text \<open>
  \<open>T\<close> is everything the owner wrote, \<open>b\<close> the sequence number of its first byte.
  \<open>u\<close> and \<open>m\<close> are the positions of \<open>snd_una\<close> and \<open>snd_nxt\<close>; the FIN has
  the position behind the last byte. Errors are negative numbers.
\<close>

definition tx_inv :: "u32 \<Rightarrow> bytes \<Rightarrow> nat \<Rightarrow> nat \<Rightarrow> tcb \<Rightarrow> bool" where
  "tx_inv b T u m t \<longleftrightarrow>
     length (tx t) = TCP_TX_BUF \<and> unat (tx_start t) < TCP_TX_BUF
     \<and> unat (tx_len t) = length T - min u (length T) \<and> length T - min u (length T) \<le> TCP_TX_BUF
     \<and> snd_una t = seq_at b u \<and> snd_nxt t = seq_at b m \<and> u \<le> m
     \<and> m \<le> length T + (if fin_sent t then 1 else 0)
     \<and> (fin_sent t \<longrightarrow> m = length T + 1 \<and> fin_wanted t)
     \<and> (t_state t = TCP_ESTABLISHED \<or> t_state t = TCP_CLOSE_WAIT \<longrightarrow> \<not> fin_sent t)
     \<and> (\<forall>k \<in> {min u (length T)..<length T}.
          tx t ! ((unat (tx_start t) + (k - min u (length T))) mod TCP_TX_BUF) = T ! k)
     \<and> (recovery t \<noteq> TCP_RECOVERY_NONE \<longrightarrow>
          (\<exists>r. recover t = seq_at b r \<and> u < r \<and> r \<le> length T + (if fin_sent t then 1 else 0)))
     \<and> t_error t \<le> 0"

definition tx_view :: "tcb \<Rightarrow> bytes \<times> u32 \<times> u32 \<times> u32 \<times> u32 \<times> bool \<times> bool \<times> tcp_state_t \<times> tcp_recovery_t \<times> u32 \<times> int" where
  "tx_view t = (tx t, tx_start t, tx_len t, snd_una t, snd_nxt t, fin_sent t, fin_wanted t, t_state t, recovery t, recover t,
    t_error t)"

lemma tx_inv_view: "tx_view t' = tx_view t \<Longrightarrow> tx_inv b T u m t' = tx_inv b T u m t"
  unfolding tx_inv_def tx_view_def by simp

named_theorems tx_frames \<open>what operations leave unchanged of the send side\<close>

lemma tx_view_upd [tx_frames]:
  "tx_view (t\<lparr>local_ip := x_local_ip\<rparr>) = tx_view t"
  "tx_view (t\<lparr>remote_ip := x_remote_ip\<rparr>) = tx_view t"
  "tx_view (t\<lparr>local_port := x_local_port\<rparr>) = tx_view t"
  "tx_view (t\<lparr>remote_port := x_remote_port\<rparr>) = tx_view t"
  "tx_view (t\<lparr>linked := x_linked\<rparr>) = tx_view t"
  "tx_view (t\<lparr>iss := x_iss\<rparr>) = tx_view t"
  "tx_view (t\<lparr>snd_wnd := x_snd_wnd\<rparr>) = tx_view t"
  "tx_view (t\<lparr>snd_wl1 := x_snd_wl1\<rparr>) = tx_view t"
  "tx_view (t\<lparr>mss := x_mss\<rparr>) = tx_view t"
  "tx_view (t\<lparr>snd_shift := x_snd_shift\<rparr>) = tx_view t"
  "tx_view (t\<lparr>rcv_shift := x_rcv_shift\<rparr>) = tx_view t"
  "tx_view (t\<lparr>shift_next := x_shift_next\<rparr>) = tx_view t"
  "tx_view (t\<lparr>sack_ok := x_sack_ok\<rparr>) = tx_view t"
  "tx_view (t\<lparr>rcv_nxt := x_rcv_nxt\<rparr>) = tx_view t"
  "tx_view (t\<lparr>rcv_adv := x_rcv_adv\<rparr>) = tx_view t"
  "tx_view (t\<lparr>ooo := x_ooo\<rparr>) = tx_view t"
  "tx_view (t\<lparr>fin_seq := x_fin_seq\<rparr>) = tx_view t"
  "tx_view (t\<lparr>fin_seen := x_fin_seen\<rparr>) = tx_view t"
  "tx_view (t\<lparr>cwnd := x_cwnd\<rparr>) = tx_view t"
  "tx_view (t\<lparr>ssthresh := x_ssthresh\<rparr>) = tx_view t"
  "tx_view (t\<lparr>dupacks := x_dupacks\<rparr>) = tx_view t"
  "tx_view (t\<lparr>rtx_nxt := x_rtx_nxt\<rparr>) = tx_view t"
  "tx_view (t\<lparr>rtx_one := x_rtx_one\<rparr>) = tx_view t"
  "tx_view (t\<lparr>rtt_at := x_rtt_at\<rparr>) = tx_view t"
  "tx_view (t\<lparr>rtt_seq := x_rtt_seq\<rparr>) = tx_view t"
  "tx_view (t\<lparr>srtt := x_srtt\<rparr>) = tx_view t"
  "tx_view (t\<lparr>rttvar := x_rttvar\<rparr>) = tx_view t"
  "tx_view (t\<lparr>rto_base := x_rto_base\<rparr>) = tx_view t"
  "tx_view (t\<lparr>rx := x_rx\<rparr>) = tx_view t"
  "tx_view (t\<lparr>rx_start := x_rx_start\<rparr>) = tx_view t"
  "tx_view (t\<lparr>rx_len := x_rx_len\<rparr>) = tx_view t"
  "tx_view (t\<lparr>peer_fin := x_peer_fin\<rparr>) = tx_view t"
  "tx_view (t\<lparr>rd_shut := x_rd_shut\<rparr>) = tx_view t"
  "tx_view (t\<lparr>was_connected := x_was_connected\<rparr>) = tx_view t"
  "tx_view (t\<lparr>rto_at := x_rto_at\<rparr>) = tx_view t"
  "tx_view (t\<lparr>rto_ms := x_rto_ms\<rparr>) = tx_view t"
  "tx_view (t\<lparr>retries := x_retries\<rparr>) = tx_view t"
  "tx_view (t\<lparr>done_at := x_done_at\<rparr>) = tx_view t"
  "tx_view (t\<lparr>t_wait := x_t_wait\<rparr>) = tx_view t"
  "tx_view (t\<lparr>detached := x_detached\<rparr>) = tx_view t"
  "tx_view (t\<lparr>keepalive := x_keepalive\<rparr>) = tx_view t"
  "tx_view (t\<lparr>nodelay := x_nodelay\<rparr>) = tx_view t"
  "tx_view (t\<lparr>keep_idle := x_keep_idle\<rparr>) = tx_view t"
  "tx_view (t\<lparr>keep_intvl := x_keep_intvl\<rparr>) = tx_view t"
  "tx_view (t\<lparr>keep_cnt := x_keep_cnt\<rparr>) = tx_view t"
  "tx_view (t\<lparr>keep_sent := x_keep_sent\<rparr>) = tx_view t"
  "tx_view (t\<lparr>last_rx := x_last_rx\<rparr>) = tx_view t"
  "tx_view (t\<lparr>parent := x_parent\<rparr>) = tx_view t"
  "tx_view (t\<lparr>accept_q := x_accept_q\<rparr>) = tx_view t"
  "tx_view (t\<lparr>backlog := x_backlog\<rparr>) = tx_view t"
  "tx_view (t\<lparr>t_pending := x_t_pending\<rparr>) = tx_view t"
  by (simp_all add: tx_view_def)

lemma tx_view_emit [tx_frames]: "tx_view (fst (tcp_emit flags sq off len opts t io)) = tx_view t"
  by (simp add: tcp_emit_fst tx_frames)

lemma tx_view_simple [tx_frames]:
  "tx_view (tcp_arm_rto now t) = tx_view t" "tx_view (tcp_backoff now t) = tx_view t"
  "tx_view (tcp_rtt_sample now t) = tx_view t" "tx_view (tcp_ooo_add s e t) = tx_view t"
  "tx_view (tcp_ooo_settle t) = tx_view t" "tx_view (tcp_store_data sq off data tk fin t) = tx_view t"
  by (simp_all add: tcp_arm_rto_def tcp_backoff_def tcp_rtt_sample_def tcp_ooo_add_def tcp_ooo_settle_def
      tcp_store_data_def tx_frames Let_def case_prod_unfold)

lemma tx_inv_arm: "tx_inv b T u m (tcp_arm_rto now t) = tx_inv b T u m t"
  by (rule tx_inv_view [OF tx_view_simple(1)])

lemma tx_view_send [tx_frames]:
  "tx_view (fst (tcp_send_ctl flags sq t io)) = tx_view t" "tx_view (fst (tcp_send_ack t io)) = tx_view t"
  "tx_view (fst (tcp_send_syn t io)) = tx_view t"
  by (simp_all add: tcp_send_ctl_def tcp_send_ack_def tcp_send_syn_def tx_frames)

lemma tx_view_resend [tx_frames]: "tx_view (fst (snd (tcp_resend sq t io))) = tx_view t"
  using tcp_resend_tcb [of sq t io] by (auto simp: tx_frames)

lemma tx_invD:
  assumes "tx_inv b T u m t"
  shows "length (tx t) = TCP_TX_BUF" "unat (tx_start t) < TCP_TX_BUF"
    "unat (tx_len t) = length T - min u (length T)" "length T - min u (length T) \<le> TCP_TX_BUF"
    "snd_una t = seq_at b u" "snd_nxt t = seq_at b m" "u \<le> m" "m \<le> length T + (if fin_sent t then 1 else 0)"
    "fin_sent t \<Longrightarrow> m = length T + 1" "fin_sent t \<Longrightarrow> fin_wanted t"
  using assms unfolding tx_inv_def by blast+

lemma tx_flight:
  assumes "tx_inv b T u m t"
  shows "m - u \<le> TCP_TX_BUF + 1" "unat (snd_nxt t - snd_una t) = m - u"
proof -
  note i = tx_invD [OF assms]
  show "m - u \<le> TCP_TX_BUF + 1" using i(4,7,8) by (auto simp: min_def split: if_splits)
  then show "unat (snd_nxt t - snd_una t) = m - u" unfolding i(5,6) using i(7) by (intro unat_seq_diff) simp_all
qed

text \<open>The bytes a segment takes from the ring.\<close>

lemma tx_bytes:
  assumes "tx_inv b T u m t" and "u + off + n \<le> length T" and "tx t' = tx t" "tx_start t' = tx_start t"
  shows "length (tcp_tx_bytes (Some t') (of_nat off) (of_nat n)) = n \<and>
    genuine T (u + off) (tcp_tx_bytes (Some t') (of_nat off) (of_nat n)) False"
proof (cases "n = 0")
  case True
  then show ?thesis using assms(2) by (simp add: tcp_tx_bytes_def genuine_def)
next
  case False
  note i = tx_invD [OF assms(1)]
  have mu: "min u (length T) = u" using assms(2) by simp
  have small: "off + n \<le> TCP_TX_BUF" using i(4) assms(2) by (simp add: mu)
  have n: "unat (of_nat n :: u32) = n" "unat (of_nat off :: u32) = off" using small by (simp_all add: unat_of_nat_small)
  have n0: "(of_nat n :: u32) \<noteq> 0" using n(1) False by (metis unat_0)
  let ?at = "(unat (tx_start t) + off) mod TCP_TX_BUF"
  have "unat ((tx_start t + of_nat off) mod of_nat TCP_TX_BUF) = ?at"
    using i(2) small n(2) by (simp add: unat_mod unat_plus_small)
  then have e: "tcp_tx_bytes (Some t') (of_nat off) (of_nat n) = ring_slice (tx t) ?at n"
    using n0 n(1) i(1) small assms(3,4) by (simp add: tcp_tx_bytes_def ring_get_slice)
  have "ring_slice (tx t) ?at n ! k = T ! (u + off + k)" if "k < n" for k
  proof -
    have "u + off + k \<in> {u..<length T}" using that assms(2) by simp
    then have "tx t ! ((unat (tx_start t) + (u + off + k - u)) mod TCP_TX_BUF) = T ! (u + off + k)"
      using assms(1) unfolding tx_inv_def mu by blast
    then show ?thesis using that i(1) by (simp add: mod_add_left_eq add.assoc)
  qed
  then show ?thesis unfolding e using assms(2) by (simp add: genuine_def)
qed

lemma tcp_emit_out:
  assumes inv: "tx_inv b T u m t" and "out_ok b T g io" and "opts_ok opts"
    and "u + off + n \<le> length T \<or> n = 0" and "n \<noteq> 0 \<Longrightarrow> sq = seq_at b (u + off) \<and> flags AND TCP_FIN = 0"
    and "flags AND TCP_FIN \<noteq> 0 \<Longrightarrow> sq = seq_at b (length T) \<and> g"
  shows "out_ok b T g (snd (tcp_emit flags sq (of_nat off) (of_nat n) opts t io))"
proof -
  define t1 where "t1 = fst (tcp_emit flags sq (of_nat off) (of_nat n) opts t io)"
  have t1: "tx t1 = tx t" "tx_start t1 = tx_start t" by (simp_all add: t1_def tcp_emit_fst)
  let ?d = "tcp_tx_bytes (Some t1) (of_nat off) (of_nat n)"
  have d: "length ?d = n \<and> (n \<noteq> 0 \<longrightarrow> genuine T (u + off) ?d False)"
    using tx_bytes [OF inv _ t1, of off n] assms(4) by (cases "n = 0") (auto simp: tcp_tx_bytes_def)
  have "n < 2 ^ 32" using assms(4) tx_invD(4) [OF inv] by (auto simp: min_def split: if_splits)
  then have n: "unat (of_nat n :: u32) = n" by (simp add: unat_of_nat_small)
  have "\<exists>q. sq = seq_at b q \<and> genuine T q ?d (flags AND TCP_FIN \<noteq> 0) \<and> length T \<le> q + TCP_TX_BUF" if "?d \<noteq> [] \<or> flags AND TCP_FIN \<noteq> 0"
  proof (cases "n = 0")
    case True
    then have "flags AND TCP_FIN \<noteq> 0" "?d = []" using that d by auto
    then show ?thesis using assms(6) by (auto simp: genuine_def)
  next
    case False
    then have "length T \<le> u + off + TCP_TX_BUF" using assms(4) tx_invD(4) [OF inv] by (simp add: min_def)
    then show ?thesis using False d assms(5) by (intro exI [of _ "u + off"]) simp
  qed
  then show ?thesis
    unfolding tcp_emit_def Let_def snd_conv
    by (intro tcp_segment_queued [OF assms(2,3) refl]) (use d n assms(6) in \<open>simp_all add: t1_def tcp_emit_def Let_def\<close>)
qed


text \<open>Segments without data or FIN.\<close>

lemma opts_ok_simps [simp]: "opts_ok []" "opts_ok tcp_syn_options" "opts_ok (tcp_sack_opts t)"
proof -
  have "length tcp_syn_options = 12" by (simp add: tcp_syn_options_def)
  then show "opts_ok []" "opts_ok tcp_syn_options" by (simp_all add: opts_ok_def)
  have "length (concat (map (\<lambda>r. st32 (htonl (r_start r)) @ st32 (htonl (r_end r))) xs)) = 8 * length xs" for xs :: "tcp_range list"
    by (induction xs) auto
  then have "\<exists>k \<le> 3. length (tcp_sack_opts t) = (if k = 0 then 0 else 4 + 8 * k)"
    by (intro exI [of _ "if sack_ok t then min (length (ooo t)) 3 else 0"])
      (auto simp: tcp_sack_opts_def Let_def)
  then obtain k where k: "k \<le> 3" "length (tcp_sack_opts t) = (if k = 0 then 0 else 4 + 8 * k)" by blast
  moreover have "4 dvd 4 + 8 * k" by presburger
  ultimately show "opts_ok (tcp_sack_opts t)" unfolding opts_ok_def by simp
qed

lemma out_ok_emit_plain:
  assumes "out_ok b T g io" and "opts_ok opts" and "flags AND TCP_FIN = 0"
  shows "out_ok b T g (snd (tcp_emit flags sq off 0 opts t io))"
  unfolding tcp_emit_def Let_def snd_conv
  by (rule tcp_segment_queued [OF assms(1,2) refl]) (use assms(3) in \<open>simp_all add: tcp_tx_bytes_def\<close>)

lemma out_ok_ctl:
  "out_ok b T g io \<Longrightarrow> flags AND TCP_FIN = 0 \<Longrightarrow> out_ok b T g (snd (tcp_send_ctl flags sq t io))"
  "out_ok b T g io \<Longrightarrow> out_ok b T g (snd (tcp_send_ack t io))"
  "out_ok b T g io \<Longrightarrow> out_ok b T g (snd (tcp_send_syn t io))"
  by (simp_all add: tcp_send_ctl_def tcp_send_ack_def tcp_send_syn_def out_ok_emit_plain)

lemma out_ok_flags [simp]:
  "out_ok b T g (io\<lparr>io_fault := f\<rparr>) = out_ok b T g io" "out_ok b T g (sched_wake w io) = out_ok b T g io"
  by (simp_all add: out_ok_def io_ok_def sched_wake_def split: option.splits)

section \<open>Sending again\<close>

lemma tx_data_end:
  assumes inv: "tx_inv b T u m t" and "recovery t \<noteq> TCP_RECOVERY_NONE"
  shows "u \<le> length T" "unat (snd_nxt t - snd_una t - (if fin_sent t then 1 else 0)) \<le> length T - u"
proof -
  note i = tx_invD [OF inv]
  from assms obtain r where "u < r" "r \<le> length T + (if fin_sent t then 1 else 0)" unfolding tx_inv_def by blast
  then show uT: "u \<le> length T" by (auto split: if_splits)
  show "unat (snd_nxt t - snd_una t - (if fin_sent t then 1 else 0)) \<le> length T - u"
  proof (cases "fin_sent t")
    case True
    have "unat (1::u32) \<le> unat (snd_nxt t - snd_una t)" using tx_flight(2) [OF inv] i(9) [OF True] uT by simp
    then have "unat (snd_nxt t - snd_una t - 1) = (m - u) - 1" using tx_flight(2) [OF inv] by (simp add: unat_minus_small)
    then show ?thesis using True i(9) by simp
  next
    case False
    then show ?thesis using tx_flight(2) [OF inv] i(8) by simp
  qed
qed

lemma tcp_resend_out:
  assumes inv: "tx_inv b T u m t" and rec: "recovery t \<noteq> TCP_RECOVERY_NONE" and io: "out_ok b T g io"
    and g: "fin_wanted t \<Longrightarrow> g"
  shows "out_ok b T g (snd (snd (tcp_resend sq t io)))"
proof -
  note i = tx_invD [OF inv]
  define off e where "off = sq - snd_una t" and "e = snd_nxt t - snd_una t - (if fin_sent t then 1 else 0)"
  define t1 where "t1 = t\<lparr>rtt_at := 0\<rparr>"
  have inv1: "tx_inv b T u m t1" using inv tx_inv_view [of t1 t] by (simp add: t1_def tx_frames)
  have sq: "sq = seq_at b (u + unat off)" using i(5) by (simp add: off_def)
  consider "off < e" | "\<not> off < e" "fin_sent t \<and> sq = snd_nxt t - 1" | "\<not> off < e" "\<not> (fin_sent t \<and> sq = snd_nxt t - 1)"
    by blast
  then show ?thesis
  proof cases
    case 1
    define n where "n = (if e - off < ucast (mss t) then e - off else ucast (mss t))"
    have "n \<le> e - off" by (auto simp: n_def)
    then have "unat off + unat n \<le> unat e"
      using 1 by (simp add: word_le_nat_alt word_less_nat_alt unat_minus_small)
    then have "u + unat off + unat n \<le> length T" using tx_data_end [OF inv rec] by (simp add: e_def)
    from tcp_emit_out [OF inv1 io opts_ok_simps(1), of "unat off" "unat n" sq "TCP_ACK OR TCP_PSH"] this sq
    have "out_ok b T g (snd (tcp_emit (TCP_ACK OR TCP_PSH) sq off n [] t1 io))" by simp
    then show ?thesis unfolding tcp_resend_def Let_def off_def [symmetric] e_def [symmetric] n_def [symmetric] t1_def [symmetric]
      using 1 by simp
  next
    case 2
    then have "sq = seq_at b (length T)" "g" using i(6,9,10) g by simp_all
    from tcp_emit_out [OF inv1 io opts_ok_simps(1), of 0 0 sq "TCP_FIN OR TCP_ACK"] this
    have "out_ok b T g (snd (tcp_send_ctl (TCP_FIN OR TCP_ACK) sq t1 io))" by (simp add: tcp_send_ctl_def)
    then show ?thesis unfolding tcp_resend_def Let_def off_def [symmetric] e_def [symmetric] t1_def [symmetric]
      using 2 by simp
  next
    case 3
    show ?thesis unfolding tcp_resend_def Let_def off_def [symmetric] e_def [symmetric] if_not_P [OF 3(1)] if_not_P [OF 3(2)]
      using io by simp
  qed
qed

lemma tcp_push_recovery_out:
  assumes inv: "tx_inv b T u m t" and io: "out_ok b T g io" and g: "fin_wanted t \<Longrightarrow> g"
  shows "tx_view (fst (tcp_push_recovery t io)) = tx_view t \<and> out_ok b T g (snd (tcp_push_recovery t io))"
proof (cases "recovery t")
  case TCP_RECOVERY_NONE
  then show ?thesis using io by (simp add: tcp_push_recovery_def)
next
  case TCP_RECOVERY_FAST
  let ?t = "t\<lparr>rtx_one := False\<rparr>"
  have "tx_inv b T u m ?t" using inv tx_inv_view [of ?t t] by (simp add: tx_frames)
  from tcp_resend_out [OF this _ io, of "snd_una t"] TCP_RECOVERY_FAST io g show ?thesis
    by (simp add: tcp_push_recovery_def tx_frames)
next
  case TCP_RECOVERY_RTO
  define t0 where "t0 = (if SEQ_LT (rtx_nxt t) (snd_una t) then t\<lparr>rtx_nxt := snd_una t\<rparr> else t)"
  have "tx_view (fst (tcp_rtx_loop t0 io)) = tx_view t \<and> out_ok b T g (snd (tcp_rtx_loop t0 io))"
  proof (rule tcp_rtx_loop_keeps [where P = "\<lambda>v io. tx_view v = tx_view t \<and> out_ok b T g io"], goal_cases)
    case 1
    then show ?case using io by (simp add: t0_def tx_frames)
  next
    case (2 v iov n t1 io1)
    then have "tx_inv b T u m v" "recovery v = TCP_RECOVERY_RTO"
      using inv tx_inv_view [of v t] TCP_RECOVERY_RTO by (auto simp: tx_view_def)
    moreover have "fin_wanted v = fin_wanted t" using 2(1) by (simp add: tx_view_def)
    ultimately have "out_ok b T g io1" using tcp_resend_out [of b T u m v g iov "rtx_nxt v"] 2 g by simp
    moreover have "tx_view t1 = tx_view v" using tx_view_resend [of "rtx_nxt v" v iov] 2 by simp
    ultimately show ?case using 2 by (simp add: tx_frames)
  qed
  then show ?thesis using TCP_RECOVERY_RTO by (simp add: tcp_push_recovery_def t0_def)
qed


section \<open>Sending new data and the FIN\<close>

lemma seq_at_add: "seq_at b m + n = seq_at b (m + unat n)"
  by (simp add: add.assoc)

lemma tx_inv_advance:
  assumes "tx_inv b T u m t" and "\<not> fin_sent t" and "m + unat n \<le> length T" and "tx_view t1 = tx_view t"
  shows "tx_inv b T u (m + unat n) (t1\<lparr>snd_nxt := snd_nxt t1 + n\<rparr>)"
proof -
  have "tx_inv b T u m t1" "\<not> fin_sent t1" using assms tx_inv_view [OF assms(4)] by (auto simp: tx_view_def)
  then show ?thesis using assms(3) unfolding tx_inv_def by (auto simp: seq_at_add)
qed

lemma tcp_push_one_out:
  assumes inv: "tx_inv b T u m t" and nf: "\<not> fin_sent t" and io: "out_ok b T g io"
    and n: "m + unat n \<le> length T" and one: "tcp_push_one now (of_nat (m - u)) n t io = (t', io')"
  shows "tx_inv b T u (m + unat n) t' \<and> \<not> fin_sent t' \<and> out_ok b T g io' \<and> t_state t' = t_state t
    \<and> fin_wanted t' = fin_wanted t"
proof -
  note i = tx_invD [OF inv]
  define t1 where "t1 = (if rtt_at t = 0 \<and> recovery t = TCP_RECOVERY_NONE then t\<lparr>rtt_at := now, rtt_seq := snd_nxt t\<rparr> else t)"
  define r where "r = tcp_emit (TCP_ACK OR TCP_PSH) (snd_nxt t1) (of_nat (m - u)) n [] t1 io"
  have v1: "tx_view t1 = tx_view t" by (simp add: t1_def tx_frames)
  have v2: "tx_view (fst r) = tx_view t" by (simp add: r_def tx_frames v1)
  have res: "t' = tcp_arm_rto now ((fst r)\<lparr>snd_nxt := snd_nxt (fst r) + n\<rparr>)" "io' = snd r"
    using one unfolding tcp_push_one_def Let_def t1_def [symmetric] r_def [symmetric] by (auto simp: case_prod_unfold)
  have inv1: "tx_inv b T u m t1" using inv tx_inv_view [OF v1] by simp
  have sq: "snd_nxt t1 = seq_at b (u + (m - u))" using tx_invD(6) [OF inv1] i(7) by simp
  have "out_ok b T g (snd r)"
    unfolding r_def using tcp_emit_out [OF inv1 io opts_ok_simps(1), of "m - u" "unat n" "snd_nxt t1" "TCP_ACK OR TCP_PSH"]
      sq n i(7) by simp
  moreover have "tx_inv b T u (m + unat n) t'"
    unfolding res(1) tx_inv_arm by (rule tx_inv_advance [OF inv nf n v2])
  moreover have "t_state t' = t_state t" "fin_wanted t' = fin_wanted t" "\<not> fin_sent t'"
    using v2 nf by (simp_all add: res(1) tcp_arm_rto_def tx_view_def)
  ultimately show ?thesis by (simp add: res(2))
qed

lemma tcp_push_loop_out:
  assumes inv: "tx_inv b T u m t" and nf: "\<not> fin_sent t" and io: "out_ok b T g io"
  shows "case tcp_push_loop now wnd (of_nat (m - u)) t io of (sent1, t1, io1) \<Rightarrow>
    (\<exists>m1. sent1 = of_nat (m1 - u) \<and> tx_inv b T u m1 t1) \<and> \<not> fin_sent t1 \<and> out_ok b T g io1
    \<and> t_state t1 = t_state t \<and> fin_wanted t1 = fin_wanted t"
proof (rule tcp_push_loop_keeps, goal_cases)
  case 1
  then show ?case using assms by blast
next
  case (2 sent v io)
  then show ?case by simp
next
  case (3 sent n v io v1 io1)
  then obtain m1 where m1: "sent = of_nat (m1 - u)" "tx_inv b T u m1 v" by blast
  note i = tx_invD [OF m1(2)]
  have u: "u \<le> length T" using i(7,8) 3(1) by simp
  have s: "unat sent = m1 - u" using tx_flight(1) [OF m1(2)] by (simp add: m1(1) unat_of_nat_small)
  have "unat n \<le> unat (tx_len v) - unat sent" using tcp_push_size_bound 3(2,4) by blast
  then have "m1 + unat n \<le> length T" using s i(3,7) u 3(2) by (simp add: word_less_nat_alt)
  from tcp_push_one_out [OF m1(2) _ _ this 3(5) [unfolded m1(1)]] 3(1) have
    r: "tx_inv b T u (m1 + unat n) v1 \<and> \<not> fin_sent v1 \<and> out_ok b T g io1 \<and> t_state v1 = t_state v \<and> fin_wanted v1 = fin_wanted v"
    by blast
  have "sent + n = of_nat (m1 + unat n - u)" using i(7) by (simp add: m1(1) of_nat_diff)
  with r 3(1) show ?case by auto
qed

lemma tcp_push_fin_inv:
  assumes "tx_inv b T u (length T) t" and "\<not> fin_sent t" and "fin_wanted t" and "tx_view t1 = tx_view t"
    and "s \<noteq> TCP_ESTABLISHED" and "s \<noteq> TCP_CLOSE_WAIT"
  shows "tx_inv b T u (length T + 1) (t1\<lparr>snd_nxt := snd_nxt t1 + 1, fin_sent := True, t_state := s\<rparr>)"
proof -
  have i: "tx_inv b T u (length T) t1" "\<not> fin_sent t1" "fin_wanted t1"
    using assms tx_inv_view [OF assms(4)] by (auto simp: tx_view_def)
  from i(1,2) have "\<exists>r. recover t1 = seq_at b r \<and> u < r \<and> r \<le> length T + 1" if "recovery t1 \<noteq> TCP_RECOVERY_NONE"
    using that unfolding tx_inv_def by fastforce
  with i assms(5,6) show ?thesis unfolding tx_inv_def by (auto simp: add.assoc)
qed

lemma tcp_push_out:
  assumes inv: "tx_inv b T u m t" and io: "out_ok b T g io" and g: "fin_wanted t \<Longrightarrow> g"
  shows "(\<exists>m1. tx_inv b T u m1 (fst (tcp_push now t io))) \<and> out_ok b T g (snd (tcp_push now t io))"
proof -
  obtain t1 io1 where r1: "tcp_push_recovery t io = (t1, io1)" by fastforce
  have v1: "tx_view t1 = tx_view t" and o1: "out_ok b T g io1" using tcp_push_recovery_out [OF inv io g] r1 by auto
  have inv1: "tx_inv b T u m t1" using inv tx_inv_view [OF v1] by simp
  show ?thesis
  proof (cases "t_state t1 \<noteq> TCP_ESTABLISHED \<and> t_state t1 \<noteq> TCP_CLOSE_WAIT")
    case True
    then show ?thesis using inv1 o1 r1 by (auto simp: tcp_push_def)
  next
    case False
    then have nf: "\<not> fin_sent t1" using inv1 by (auto simp: tx_inv_def)
    define wnd where "wnd = (if snd_wnd t1 < cwnd t1 then snd_wnd t1 else cwnd t1)"
    have sent0: "snd_nxt t1 - snd_una t1 = of_nat (m - u)"
      using tx_invD(5,6,7) [OF inv1] by (simp add: of_nat_diff)
    obtain sent t2 io2 where l: "tcp_push_loop now wnd (of_nat (m - u)) t1 io1 = (sent, t2, io2)" by (metis prod_cases3)
    from tcp_push_loop_out [OF inv1 nf o1, of now wnd, unfolded l prod.case] obtain m1 where
      m1: "sent = of_nat (m1 - u)" "tx_inv b T u m1 t2" "\<not> fin_sent t2" "out_ok b T g io2" "fin_wanted t2 = fin_wanted t1"
      by blast
    define r3 where "r3 = (if fin_wanted t2 \<and> \<not> fin_sent t2 \<and> sent = tx_len t2 then
        let (v, iv) = tcp_send_ctl (TCP_FIN OR TCP_ACK) (snd_nxt t2) t2 io2
        in (tcp_arm_rto now (v\<lparr>snd_nxt := snd_nxt v + 1, fin_sent := True,
              t_state := (if t_state v = TCP_CLOSE_WAIT then TCP_LAST_ACK else TCP_FIN_WAIT_1)\<rparr>), iv)
        else (t2, io2))"
    have "(\<exists>m2. tx_inv b T u m2 (fst r3)) \<and> out_ok b T g (snd r3)"
    proof (cases "fin_wanted t2 \<and> \<not> fin_sent t2 \<and> sent = tx_len t2")
      case fin: True
      note i = tx_invD [OF m1(2)]
      have "unat sent = m1 - u" using tx_flight(1) [OF m1(2)] by (simp add: m1(1) unat_of_nat_small)
      then have mT: "m1 = length T" using fin i(3,7,8) m1(3) by (auto simp: min_def split: if_splits)
      define v where "v = tcp_send_ctl (TCP_FIN OR TCP_ACK) (snd_nxt t2) t2 io2"
      have vv: "tx_view (fst v) = tx_view t2" by (simp add: v_def tx_frames)
      have "out_ok b T g (snd v)"
        using tcp_emit_out [OF m1(2,4) opts_ok_simps(1), of 0 0 "snd_nxt t2" "TCP_FIN OR TCP_ACK"] i(6) mT
          g fin m1(5) v1
        by (simp add: v_def tcp_send_ctl_def tx_view_def)
      moreover have "tx_inv b T u (length T + 1) ((fst v)\<lparr>snd_nxt := snd_nxt (fst v) + 1, fin_sent := True,
          t_state := (if t_state (fst v) = TCP_CLOSE_WAIT then TCP_LAST_ACK else TCP_FIN_WAIT_1)\<rparr>)"
        by (rule tcp_push_fin_inv [OF m1(2) [unfolded mT] m1(3) _ vv]) (use fin in auto)
      moreover have "r3 = (tcp_arm_rto now ((fst v)\<lparr>snd_nxt := snd_nxt (fst v) + 1, fin_sent := True,
          t_state := (if t_state (fst v) = TCP_CLOSE_WAIT then TCP_LAST_ACK else TCP_FIN_WAIT_1)\<rparr>), snd v)"
        using fin by (simp add: r3_def v_def case_prod_unfold Let_def)
      ultimately show ?thesis by (intro conjI exI [of _ "length T + 1"]) (simp_all only: fst_conv snd_conv tx_inv_arm)
    next
      case False
      show ?thesis unfolding r3_def if_not_P [OF False] using m1 by auto
    qed
    moreover have "tcp_push now t io = (if tx_len (fst r3) \<noteq> 0 \<and> sent = 0 \<and> snd_wnd (fst r3) = 0
        then tcp_arm_rto now (fst r3) else fst r3, snd r3)"
      unfolding tcp_push_def r1 prod.case if_not_P [OF False] Let_def wnd_def [symmetric] sent0 l r3_def
      by (simp only: case_prod_unfold)
    ultimately show ?thesis by (simp only: fst_conv snd_conv tx_inv_arm split: if_split) blast
  qed
qed


section \<open>Round trip\<close>

text \<open>C25. A segment built by \<open>tcp_segment\<close> passes the checks of \<open>tcp_input\<close> (length, header length,
  checksum over the pseudo header), and the receiver reads back the header fields and the data that went
  in, whatever they are; the options stand between header and data.\<close>

theorem tcp_packet_roundtrip:
  assumes "length opts \<le> 40" and "4 dvd length opts" and "length data \<le> 65000"
    and p: "p = tcp_packet src dst sp dp sq ack flags window opts data"
  shows "tcp_accepts src dst p
    \<and> tcp_hdr_of p = \<lparr>h_src_port = sp, h_dst_port = dp, h_seq = sq, h_ack = ack,
        h_off = of_nat (4 * (TCP_HLEN + length opts)), h_flags = flags, h_window = window\<rparr>
    \<and> drop TCP_HLEN p = opts @ data"
proof -
  have o: "opts_ok opts" using assms(1,2) by (simp add: opts_ok_def)
  obtain c where "p = tcp_fields sp dp sq ack (push_bit 4 (of_nat ((TCP_HLEN + length opts) div 4))) flags window c @ opts @ data"
    unfolding p by (rule tcp_packet_fields)
  then have "drop TCP_HLEN p = opts @ data" by simp
  moreover have "push_bit 4 (of_nat ((TCP_HLEN + length opts) div 4)) = (of_nat (4 * (TCP_HLEN + length opts)) :: u8)"
  proof -
    obtain k where k: "length opts = 4 * k" using assms(2) by blast
    show ?thesis unfolding k by (simp add: push_bit_eq_mult algebra_simps)
  qed
  ultimately show ?thesis
    using tcp_packet_accepted [OF o assms(3)] tcp_hdr_packet unfolding p by simp
qed

theorem tcp_packet_roundtrip_witness:
  "tcp_accepts 1 2 (tcp_packet 1 2 80 4000 7 9 TCP_ACK 512 [1, 1, 1, 0] [65, 66])
    \<and> tcp_hdr_of (tcp_packet 1 2 80 4000 7 9 TCP_ACK 512 [1, 1, 1, 0] [65, 66]) =
      \<lparr>h_src_port = 80, h_dst_port = 4000, h_seq = 7, h_ack = 9, h_off = 96, h_flags = TCP_ACK, h_window = 512\<rparr>
    \<and> drop TCP_HLEN (tcp_packet 1 2 80 4000 7 9 TCP_ACK 512 [1, 1, 1, 0] [65, 66]) = [1, 1, 1, 0, 65, 66]"
  using tcp_packet_roundtrip [of "[1, 1, 1, 0]" "[65, 66]" _ 1 2 80 4000 7 9 TCP_ACK 512, OF _ _ _ refl]
  by (simp add: dvd_def exI [of _ 1])

end
