(* ===== verification/Tcpflow.thy ===== *)
theory Tcpflow
  imports Tcptx
begin

text \<open>
  Acknowledgements on the sending side, and the two ends of a connection together. The network
  between them may lose, repeat and reorder packets; the sender may receive anything at all. What
  the receiver reads is always a prefix of what the sender wrote, and the receiver sees the end of the
  stream only when it has read all of it.
\<close>

section \<open>Acknowledgements\<close>

lemma tcp_ack_range:
  assumes inv: "tx_inv b T u m t" and "SEQ_LT (snd_una t) ack" and "\<not> SEQ_LT (snd_nxt t) ack"
  shows "\<exists>u'. ack = seq_at b u' \<and> u < u' \<and> u' \<le> m"
proof -
  note i = tx_invD [OF inv]
  define x f where "x = ack - snd_una t" and "f = snd_nxt t - snd_una t"
  have f: "unat f = m - u" "m - u \<le> TCP_TX_BUF + 1" using tx_flight [OF inv] by (simp_all add: f_def)
  have "2 ^ 31 \<le> unat (- x)" using assms(2) by (simp add: SEQ_LT_def sint_neg_iff x_def)
  then have x: "0 < unat x" "unat x \<le> 2 ^ 31"
    using unat_sub_if_size [of 0 x] unat_u32 [of x] by (auto simp: word_size split: if_splits)
  have "unat (f - x) < 2 ^ 31" using assms(3) by (simp add: SEQ_LT_def sint_neg_iff x_def f_def not_le)
  then have "unat x \<le> unat f" using x f by (auto simp: unat_sub_if_size word_size split: if_splits)
  then have "u < u + unat x" "u + unat x \<le> m" using x(1) f(1) by simp_all
  moreover have "ack = seq_at b (u + unat x)" using i(5) by (simp add: x_def)
  ultimately show ?thesis by blast
qed

text \<open>The invariant apart from loss recovery.\<close>

abbreviation tx_core :: "u32 \<Rightarrow> bytes \<Rightarrow> nat \<Rightarrow> nat \<Rightarrow> tcb \<Rightarrow> bool" where
  "tx_core b T u m t \<equiv> tx_inv b T u m (t\<lparr>recovery := TCP_RECOVERY_NONE\<rparr>)"

lemma tx_inv_core:
  "tx_inv b T u m t \<longleftrightarrow> tx_core b T u m t \<and> (recovery t \<noteq> TCP_RECOVERY_NONE \<longrightarrow>
     (\<exists>r. recover t = seq_at b r \<and> u < r \<and> r \<le> length T + (if fin_sent t then 1 else 0)))"
  unfolding tx_inv_def by auto

lemma tx_core_acked:
  assumes inv: "tx_core b T u m t" and u': "u < u'" "u' \<le> m"
    and acked: "acked = seq_at b u' - snd_una t" and data: "data = (if acked < tx_len t then acked else tx_len t)"
  shows "tx_core b T u' m (t\<lparr>tx_start := (tx_start t + data) mod of_nat TCP_TX_BUF, tx_len := tx_len t - data,
    snd_una := seq_at b u'\<rparr>)"
proof -
  define t0 where "t0 = t\<lparr>recovery := TCP_RECOVERY_NONE\<rparr>"
  note inv0 = inv [folded t0_def]
  note i = tx_invD [OF inv0]
  have sel: "tx_len t0 = tx_len t" "tx_start t0 = tx_start t" "tx t0 = tx t" "snd_una t0 = snd_una t" "fin_sent t0 = fin_sent t"
    by (simp_all add: t0_def)
  have uT: "u \<le> length T" and mT: "m \<le> length T + 1" using u' i(8) by (auto split: if_splits)
  have una: "snd_una t = seq_at b u" using i(5) sel by simp
  have "unat acked = u' - u"
    unfolding acked una by (rule unat_seq_diff) (use u' tx_flight(1) [OF inv0] in simp_all)
  then have d: "unat data = min u' (length T) - u"
    using i(3) uT u' mT by (auto simp: data sel word_less_nat_alt min_def split: if_splits)
  define a' where "a' = min u' (length T)"
  have a: "min u (length T) = u" "u \<le> a'" "a' \<le> length T" "unat data = a' - u"
    using uT u' d by (simp_all add: a'_def)
  have len: "length T - u \<le> TCP_TX_BUF" "unat (tx_len t) = length T - u" "unat (tx_start t) < TCP_TX_BUF"
    using i(2,3,4) by (simp_all add: a(1) sel)
  have l: "unat (tx_len t - data) = length T - a'" using a len by (simp add: unat_minus_small)
  have s: "unat ((tx_start t + data) mod of_nat TCP_TX_BUF) = (unat (tx_start t) + (a' - u)) mod TCP_TX_BUF"
    using a len by (simp add: unat_mod unat_plus_small)
  have st: "tx t ! (((unat (tx_start t) + (a' - u)) mod TCP_TX_BUF + (k - a')) mod TCP_TX_BUF) = T ! k"
    if k: "k \<in> {a'..<length T}" for k
  proof -
    have ka: "k - a' = (k - u) - (a' - u)" "a' - u \<le> k - u" using k a(2) by auto
    have "((unat (tx_start t) + (a' - u)) mod TCP_TX_BUF + (k - a')) mod TCP_TX_BUF = (unat (tx_start t) + (k - u)) mod TCP_TX_BUF"
      unfolding ka(1) by (rule ring_pos_add [OF ka(2)])
    moreover have "k \<in> {u..<length T}" using k a(2) by simp
    then have "tx t ! ((unat (tx_start t) + (k - u)) mod TCP_TX_BUF) = T ! k"
      using inv0 unfolding tx_inv_def a(1) sel by blast
    ultimately show ?thesis by simp
  qed
  show ?thesis
    using inv0 l s st u' len(1) a(2) unfolding tx_inv_def a'_def [symmetric] by (auto simp: t0_def)
qed


text \<open>Recovery is over once what was outstanding when it began is acknowledged.\<close>

definition rec_ok :: "u32 \<Rightarrow> bytes \<Rightarrow> nat \<Rightarrow> tcb \<Rightarrow> bool" where
  "rec_ok b T u t \<longleftrightarrow> (recovery t \<noteq> TCP_RECOVERY_NONE \<longrightarrow>
     (\<exists>r. recover t = seq_at b r \<and> u < r \<and> r \<le> length T + (if fin_sent t then 1 else 0)))"

lemma tx_inv_rec: "tx_inv b T u m t \<longleftrightarrow> tx_core b T u m t \<and> rec_ok b T u t"
  unfolding rec_ok_def by (rule tx_inv_core)

lemma tcp_cc_acked_view:
  "tx_view ((snd (tcp_cc_acked acked ack t))\<lparr>recovery := x\<rparr>) = tx_view (t\<lparr>recovery := x\<rparr>)"
  by (simp add: tcp_cc_acked_def Let_def tx_view_def)

lemma tcp_cc_acked_rec:
  assumes "rec_ok b T u t" and "u < u'" and "u' \<le> u + TCP_TX_BUF + 1" and "length T \<le> u + TCP_TX_BUF"
  shows "rec_ok b T u' (snd (tcp_cc_acked acked (seq_at b u') t))"
proof (cases "recovery t = TCP_RECOVERY_NONE")
  case True
  then show ?thesis by (simp add: rec_ok_def tcp_cc_acked_def Let_def)
next
  case False
  then obtain r where r: "recover t = seq_at b r" "u < r" "r \<le> length T + (if fin_sent t then 1 else 0)"
    using assms(1) unfolding rec_ok_def by blast
  have lt: "SEQ_LT (seq_at b u') (recover t) \<longleftrightarrow> u' < r"
    unfolding r(1) using assms(2-4) r(2,3) by (intro SEQ_LT_at) (auto simp: abs_if split: if_splits)
  show ?thesis
  proof (cases "u' < r")
    case True
    then have "recover (snd (tcp_cc_acked acked (seq_at b u') t)) = seq_at b r"
      "fin_sent (snd (tcp_cc_acked acked (seq_at b u') t)) = fin_sent t"
      by (simp_all add: tcp_cc_acked_def Let_def r(1))
    with True r(3) show ?thesis unfolding rec_ok_def by auto
  next
    case F: False
    then have "recovery (snd (tcp_cc_acked acked (seq_at b u') t)) = TCP_RECOVERY_NONE"
      using lt False by (simp add: tcp_cc_acked_def)
    then show ?thesis by (simp add: rec_ok_def)
  qed
qed

lemma tx_state_change:
  assumes "tx_inv b T u m t" and "s \<noteq> TCP_ESTABLISHED" and "s \<noteq> TCP_CLOSE_WAIT"
  shows "tx_inv b T u m (t\<lparr>t_state := s\<rparr>)"
  using assms unfolding tx_inv_def by auto

lemma tcp_set_closed_out:
  assumes "tx_inv b T u m t" and "out_ok b T g io" and "err \<le> 0"
  shows "tx_inv b T u m (fst (tcp_set_closed err t io)) \<and> out_ok b T g (snd (tcp_set_closed err t io))"
proof -
  define e where "e = t_error (fst (tcp_set_closed err t io))"
  have "t_error t \<le> 0" using assms(1) unfolding tx_inv_def by blast
  then have "e \<le> 0" using assms(3) by (simp add: e_def tcp_set_closed_def)
  then have "tx_inv b T u m (t\<lparr>t_state := TCP_CLOSED, recovery := TCP_RECOVERY_NONE, t_error := e\<rparr>)"
    using tx_state_change [OF assms(1), of TCP_CLOSED] unfolding tx_inv_def by simp
  moreover have v: "tx_view (fst (tcp_set_closed err t io)) =
      tx_view (t\<lparr>t_state := TCP_CLOSED, recovery := TCP_RECOVERY_NONE, t_error := e\<rparr>)"
    by (simp add: e_def)
     (simp add: tcp_set_closed_def tx_view_def)
  ultimately have "tx_inv b T u m (fst (tcp_set_closed err t io))" using tx_inv_view [OF v] by blast
  moreover have "out_ok b T g (snd (tcp_set_closed err t io))" using assms(2) by (simp add: tcp_set_closed_def)
  ultimately show ?thesis by blast
qed

lemma tcp_fin_acked_out:
  assumes "tx_inv b T u m t" and "out_ok b T g io"
  shows "tx_inv b T u m (fst (tcp_fin_acked now ack t io)) \<and> out_ok b T g (snd (tcp_fin_acked now ack t io))"
proof -
  have w: "tx_inv b T u m (t\<lparr>t_state := TCP_TIME_WAIT, done_at := x\<rparr>)" for x
  proof -
    have v: "tx_view (t\<lparr>t_state := TCP_TIME_WAIT, done_at := x\<rparr>) = tx_view (t\<lparr>t_state := TCP_TIME_WAIT\<rparr>)"
      by (simp add: tx_view_def)
    show ?thesis unfolding tx_inv_view [OF v] by (rule tx_state_change [OF assms(1)]) simp_all
  qed
  show ?thesis
    using assms tcp_set_closed_out [OF assms, of 0] tx_state_change [OF assms(1), of TCP_FIN_WAIT_2] w
    by (simp add: tcp_fin_acked_def)
qed

lemma tcp_ack_advance_out:
  assumes inv: "tx_inv b T u m t" and io: "out_ok b T g io" and u': "u < u'" "u' \<le> m" and ack: "ack = seq_at b u'"
  shows "tx_inv b T u' m (fst (tcp_ack_advance now ack t io)) \<and> out_ok b T g (snd (tcp_ack_advance now ack t io))"
proof -
  note i = tx_invD [OF inv]
  define acked data where "acked = ack - snd_una t" and "data = (if acked < tx_len t then acked else tx_len t)"
  define t1 where "t1 = t\<lparr>tx_start := (tx_start t + data) mod of_nat TCP_TX_BUF, tx_len := tx_len t - data,
                 snd_una := ack, retries := 0, rto_ms := rto_base t, rto_at := 0\<rparr>"
  define t2 where "t2 = (if rtt_at t1 \<noteq> 0 \<and> SEQ_LT (rtt_seq t1) ack then tcp_rtt_sample now t1 else t1)"
  define t4 where "t4 = (if snd_una (t2\<lparr>rto_ms := rto_base t2\<rparr>) \<noteq> snd_nxt (t2\<lparr>rto_ms := rto_base t2\<rparr>)
    then tcp_arm_rto now (t2\<lparr>rto_ms := rto_base t2\<rparr>) else t2\<lparr>rto_ms := rto_base t2\<rparr>)"
  define c where "c = tcp_cc_acked acked ack t4"
  have core: "tx_core b T u m t" and rec: "rec_ok b T u t" using iffD1 [OF tx_inv_rec inv] by blast+
  have "tx_core b T u' m (t\<lparr>tx_start := (tx_start t + data) mod of_nat TCP_TX_BUF, tx_len := tx_len t - data,
      snd_una := ack\<rparr>)"
    unfolding ack by (rule tx_core_acked [OF core u' acked_def [unfolded ack] data_def])
  moreover have v4: "tx_view t4 = tx_view t1" by (simp add: t4_def t2_def tx_frames)
  then have v: "tx_view ((snd c)\<lparr>recovery := TCP_RECOVERY_NONE\<rparr>) = tx_view (t\<lparr>tx_start := (tx_start t + data) mod of_nat TCP_TX_BUF,
      tx_len := tx_len t - data, snd_una := ack, recovery := TCP_RECOVERY_NONE\<rparr>)"
    unfolding c_def tcp_cc_acked_view by (simp add: tx_view_def t1_def)
  ultimately have core': "tx_core b T u' m (snd c)" unfolding tx_inv_view [OF v] by simp
  have "rec_ok b T u t4" using rec v4 by (simp add: rec_ok_def tx_view_def t1_def)
  moreover have "u' \<le> u + TCP_TX_BUF + 1" using tx_flight(1) [OF inv] u' by simp
  moreover have "length T \<le> u + TCP_TX_BUF" using i(4) by (auto simp: min_def split: if_splits)
  ultimately have rec': "rec_ok b T u' (snd c)" unfolding c_def ack using u'(1) by (intro tcp_cc_acked_rec)
  have "tx_inv b T u' m (snd c)" by (rule iffD2 [OF tx_inv_rec conjI [OF core' rec']])
  from tcp_fin_acked_out [OF this, of g "if fst c then io\<lparr>io_fault := True\<rparr> else io" now ack] io
  show ?thesis
    unfolding tcp_ack_advance_def Let_def acked_def [symmetric] data_def [symmetric] t1_def [symmetric]
      t2_def [symmetric] t4_def [symmetric] c_def [symmetric] case_prod_unfold
    by simp
qed


lemma tcp_cc_dupack_inv:
  assumes inv: "tx_inv b T u m t" and "snd_una t \<noteq> snd_nxt t"
  shows "tx_inv b T u m (tcp_cc_dupack t)"
proof -
  note i = tx_invD [OF inv]
  have um: "u < m" using assms(2) i(5,6,7) by (cases "u = m") auto
  have v: "tx_view ((tcp_cc_dupack t)\<lparr>recovery := TCP_RECOVERY_NONE\<rparr>) = tx_view (t\<lparr>recovery := TCP_RECOVERY_NONE, recover := recover (tcp_cc_dupack t)\<rparr>)"
    by (simp add: tcp_cc_dupack_def Let_def tx_view_def)
  have "tx_inv b T u m (t\<lparr>recovery := TCP_RECOVERY_NONE, recover := x\<rparr>)" for x
    using inv unfolding tx_inv_def by auto
  then have core: "tx_core b T u m (tcp_cc_dupack t)" unfolding tx_inv_view [OF v] .
  have "rec_ok b T u t" using iffD1 [OF tx_inv_rec inv] by blast
  then have rec: "rec_ok b T u (tcp_cc_dupack t)"
    using um i(6,8) by (auto simp: rec_ok_def tcp_cc_dupack_def Let_def)
  show ?thesis by (rule iffD2 [OF tx_inv_rec conjI [OF core rec]])
qed

text \<open>The three ends of an acknowledgement: the probe byte taken back, the retry counter, the window.\<close>

lemma tx_inv_rollback:
  assumes "tx_inv b T u m t" and "\<not> fin_sent t"
  shows "tx_inv b T u u (t\<lparr>snd_nxt := snd_una t, rto_at := x, rto_ms := y\<rparr>)"
  using assms unfolding tx_inv_def by auto

lemma tcp_got_ack_out:
  assumes inv: "tx_inv b T u m t" and io: "out_ok b T g io" and "\<not> SEQ_LT (snd_nxt t) ack"
  shows "(\<exists>u m. tx_inv b T u m (fst (tcp_got_ack now sq ack w bare t io))) \<and>
    out_ok b T g (snd (tcp_got_ack now sq ack w bare t io))"
proof -
  define window where "window = (push_bit (unat (snd_shift t)) (ucast w) :: u32)"
  define r1 where "r1 = (if SEQ_LT (snd_una t) ack \<and> SEQ_LEQ ack (snd_nxt t) then tcp_ack_advance now ack t io
     else if ack = snd_una t \<and> bare \<and> \<not> window \<noteq> snd_wnd t \<and> snd_una t \<noteq> snd_nxt t then (tcp_cc_dupack t, io)
     else (t, io))"
  have "(\<exists>u m. tx_inv b T u m (fst r1)) \<and> out_ok b T g (snd r1)"
  proof (cases "SEQ_LT (snd_una t) ack \<and> SEQ_LEQ ack (snd_nxt t)")
    case True
    then obtain u' where u': "ack = seq_at b u'" "u < u'" "u' \<le> m" using tcp_ack_range [OF inv _ assms(3)] by blast
    show ?thesis unfolding r1_def if_P [OF True] using tcp_ack_advance_out [OF inv io u'(2,3,1)] by blast
  next
    case False
    show ?thesis unfolding r1_def if_not_P [OF False] using tcp_cc_dupack_inv [OF inv] inv io by auto
  qed
  then obtain u1 m1 where i1: "tx_inv b T u1 m1 (fst r1)" and o1: "out_ok b T g (snd r1)" by blast
  define t2 where "t2 = (if snd_wnd (fst r1) = 0 \<and> window \<noteq> 0 \<and> ack = snd_una (fst r1) \<and> snd_nxt (fst r1) - ack = 1 \<and> \<not> fin_sent (fst r1)
    then (fst r1)\<lparr>snd_nxt := ack, rto_at := 0, rto_ms := rto_base (fst r1)\<rparr> else fst r1)"
  have "\<exists>m2. tx_inv b T u1 m2 t2" using i1 tx_inv_rollback [OF i1] by (auto simp: t2_def)
  then obtain m2 where i2: "tx_inv b T u1 m2 t2" by blast
  define t3 where "t3 = (if window = 0 \<and> ack = snd_una t2 then t2\<lparr>retries := 0\<rparr> else t2)"
  define t4 where "t4 = (if SEQ_LEQ (snd_una t3) ack \<and> SEQ_LEQ ack (snd_nxt t3) \<and> SEQ_LEQ (snd_wl1 t3) sq
    then t3\<lparr>snd_wnd := window, snd_wl1 := sq\<rparr> else t3)"
  have v: "tx_view t4 = tx_view t2" by (simp add: t4_def t3_def tx_frames)
  have "tx_inv b T u1 m2 t4" unfolding tx_inv_view [OF v] by (rule i2)
  moreover have "tcp_got_ack now sq ack w bare t io = (t4, snd r1)"
    unfolding tcp_got_ack_def Let_def window_def [symmetric] r1_def [symmetric] case_prod_unfold
      t2_def [symmetric] t3_def [symmetric] t4_def [symmetric] ..
  ultimately show ?thesis using o1 by auto
qed

section \<open>Every operation keeps the send side\<close>

definition tx_ok :: "u32 \<Rightarrow> bytes \<Rightarrow> tcb \<Rightarrow> tcp_io \<Rightarrow> bool" where
  "tx_ok b T t io \<longleftrightarrow> (\<exists>u m. tx_inv b T u m t) \<and> out_ok b T (fin_wanted t) io"

lemma tx_okI: "tx_inv b T u m t \<Longrightarrow> out_ok b T (fin_wanted t) io \<Longrightarrow> tx_ok b T t io"
  unfolding tx_ok_def by blast

lemma tx_okE:
  assumes "tx_ok b T t io"
  obtains u m where "tx_inv b T u m t" "out_ok b T (fin_wanted t) io"
  using assms unfolding tx_ok_def by blast

lemma tx_ok_view:
  assumes v: "tx_view t' = tx_view t" and "tx_ok b T t io" and "out_ok b T (fin_wanted t) io'"
  shows "tx_ok b T t' io'"
proof -
  have "fin_wanted t' = fin_wanted t" using v by (simp add: tx_view_def)
  then show ?thesis using assms(2,3) tx_inv_view [OF v] unfolding tx_ok_def by simp
qed


named_theorems fin_kept \<open>operations that leave the wish to close alone\<close>

lemma fin_kept_simple [fin_kept]:
  "fin_wanted (tcp_arm_rto now t) = fin_wanted t" "fin_wanted (tcp_backoff now t) = fin_wanted t"
  "fin_wanted (tcp_rtt_sample now t) = fin_wanted t" "fin_wanted (tcp_cc_dupack t) = fin_wanted t"
  "fin_wanted (snd (tcp_cc_acked acked ack t)) = fin_wanted t" "fin_wanted (tcp_enter_rto t) = fin_wanted t"
  "fin_wanted (fst (tcp_set_closed err t io)) = fin_wanted t"
  "fin_wanted (fst (tcp_emit flags sq off len opts t io)) = fin_wanted t"
  by (simp_all add: tcp_arm_rto_def tcp_backoff_def tcp_rtt_sample_def tcp_cc_dupack_def tcp_cc_acked_def
      tcp_enter_rto_def tcp_set_closed_def tcp_emit_fst Let_def)

lemma fin_kept_send [fin_kept]:
  "fin_wanted (fst (tcp_send_ctl flags sq t io)) = fin_wanted t" "fin_wanted (fst (tcp_send_ack t io)) = fin_wanted t"
  "fin_wanted (fst (tcp_send_syn t io)) = fin_wanted t"
  by (simp_all add: tcp_send_ctl_def tcp_send_ack_def tcp_send_syn_def fin_kept)

lemma fin_kept_rtx_loop [fin_kept]: "fin_wanted (fst (tcp_rtx_loop t io)) = fin_wanted t"
proof (rule tcp_rtx_loop_keeps [where P = "\<lambda>u io. fin_wanted u = fin_wanted t"], goal_cases)
  case (2 u io n t1 io1)
  then show ?case using tcp_resend_tcb [of "rtx_nxt u" u io] by auto
qed simp

lemma fin_kept_push_one [fin_kept]: "fin_wanted (fst (tcp_push_one now sent n t io)) = fin_wanted t"
  by (simp add: tcp_push_one_def Let_def case_prod_unfold fin_kept)

lemma fin_kept_push_loop [fin_kept]: "fin_wanted (fst (snd (tcp_push_loop now wnd sent t io))) = fin_wanted t"
proof -
  have "case tcp_push_loop now wnd sent t io of (sent1, t1, io1) \<Rightarrow> fin_wanted t1 = fin_wanted t"
  proof (rule tcp_push_loop_keeps, goal_cases)
    case (3 sent n u io t1 io1)
    then show ?case using fin_kept_push_one [of now sent n u io] by simp
  qed simp_all
  then show ?thesis by (simp add: case_prod_unfold)
qed

lemma fin_kept_push [fin_kept]: "fin_wanted (fst (tcp_push now t io)) = fin_wanted t"
proof -
  have "fin_wanted (fst (snd (tcp_resend sq u io))) = fin_wanted u" for sq u io using tcp_resend_tcb [of sq u io] by auto
  then have "fin_wanted (fst (tcp_push_recovery t io)) = fin_wanted t"
    by (simp add: tcp_push_recovery_def fin_kept split: tcp_recovery_t.splits)
  then show ?thesis by (simp add: tcp_push_def Let_def case_prod_unfold fin_kept)
qed

lemma fin_kept_got_ack [fin_kept]: "fin_wanted (fst (tcp_got_ack now sq ack w bare t io)) = fin_wanted t"
proof -
  have "fin_wanted (fst (tcp_fin_acked now ack u io)) = fin_wanted u" for u io
    by (simp add: tcp_fin_acked_def fin_kept)
  then have "fin_wanted (fst (tcp_ack_advance now ack t io)) = fin_wanted t"
    by (simp add: tcp_ack_advance_def Let_def case_prod_unfold fin_kept)
  then show ?thesis by (simp add: tcp_got_ack_def Let_def case_prod_unfold fin_kept)
qed

abbreviation tx_pair_ok :: "u32 \<Rightarrow> bytes \<Rightarrow> tcb \<times> tcp_io \<Rightarrow> bool" where
  "tx_pair_ok b T r \<equiv> tx_ok b T (fst r) (snd r)"

lemma tx_ok_push: "tx_ok b T t io \<Longrightarrow> tx_pair_ok b T (tcp_push now t io)"
  unfolding tx_ok_def fin_kept using tcp_push_out by blast

lemma tx_ok_closed: "tx_ok b T t io \<Longrightarrow> err \<le> 0 \<Longrightarrow> tx_pair_ok b T (tcp_set_closed err t io)"
  unfolding tx_ok_def fin_kept using tcp_set_closed_out by blast

lemma tx_ok_got_ack: "tx_ok b T t io \<Longrightarrow> \<not> SEQ_LT (snd_nxt t) ack \<Longrightarrow> tx_pair_ok b T (tcp_got_ack now sq ack w bare t io)"
  unfolding tx_ok_def fin_kept using tcp_got_ack_out by blast

lemma tx_ok_out: "tx_ok b T t io \<Longrightarrow> out_ok b T (fin_wanted t) io"
  unfolding tx_ok_def by blast

lemma tx_ok_ctl:
  assumes ok: "tx_ok b T t io"
  shows "flags AND TCP_FIN = 0 \<Longrightarrow> tx_pair_ok b T (tcp_send_ctl flags sq t io)"
    "tx_pair_ok b T (tcp_send_ack t io)" "tx_pair_ok b T (tcp_send_syn t io)"
  by (rule tx_ok_view [OF tx_view_send(1) ok], rule out_ok_ctl [OF tx_ok_out [OF ok]], assumption)
    (rule tx_ok_view [OF tx_view_send(2) ok], rule out_ok_ctl [OF tx_ok_out [OF ok]],
     rule tx_ok_view [OF tx_view_send(3) ok], rule out_ok_ctl [OF tx_ok_out [OF ok]])


text \<open>Incoming data moves the state of a connection and nothing else of its send side.\<close>

lemma tcp_take_data_tx:
  "\<exists>s. tx_view (fst (tcp_take_data now sq data fin t io)) = tx_view (t\<lparr>t_state := s\<rparr>) \<and>
     (s = t_state t \<or> t_state t = TCP_ESTABLISHED \<and> s = TCP_CLOSE_WAIT \<or> s \<noteq> TCP_ESTABLISHED \<and> s \<noteq> TCP_CLOSE_WAIT)"
proof -
  define t1 where "t1 off tk = tcp_count_data sq off tk (tcp_store_data sq off data tk fin t)" for off tk
  have v: "tx_view (t1 off tk) = tx_view t" for off tk
    by (simp add: t1_def tcp_count_data_def tx_frames)
  then have st: "t_state (t1 off tk) = t_state t" for off tk by (simp add: tx_view_def)
  define ok where "ok s \<longleftrightarrow> s = t_state t \<or> t_state t = TCP_ESTABLISHED \<and> s = TCP_CLOSE_WAIT \<or> s \<noteq> TCP_ESTABLISHED \<and> s \<noteq> TCP_CLOSE_WAIT" for s
  have "\<exists>s. tx_view (tcp_fin_reached now (t1 off tk)) = tx_view (t\<lparr>t_state := s\<rparr>) \<and> ok s" for off tk
  proof (rule exI [of _ "t_state (tcp_fin_reached now (t1 off tk))"], rule conjI)
    show "tx_view (tcp_fin_reached now (t1 off tk)) = tx_view (t\<lparr>t_state := t_state (tcp_fin_reached now (t1 off tk))\<rparr>)"
      using v [of off tk] by (simp add: tx_view_def tcp_fin_reached_def Let_def)
    show "ok (t_state (tcp_fin_reached now (t1 off tk)))"
      using st [of off tk] by (simp add: ok_def tcp_fin_reached_def Let_def)
  qed
  moreover have "\<exists>s. tx_view t = tx_view (t\<lparr>t_state := s\<rparr>) \<and> ok s"
    by (intro exI [of _ "t_state t"]) (simp add: tx_view_def ok_def)
  ultimately show ?thesis
    unfolding tcp_take_data_def Let_def t1_def [symmetric] ok_def [symmetric] by (simp split: if_split)
qed

lemma tcp_take_data_out: "snd (tcp_take_data now sq data fin t io) = io \<or>
    (\<exists>w. snd (tcp_take_data now sq data fin t io) = sched_wake w io)"
  by (auto simp: tcp_take_data_def Let_def)

lemma tx_ok_take_data:
  assumes "tx_ok b T t io"
  shows "tx_pair_ok b T (tcp_take_data now sq data fin t io)"
proof -
  obtain u m where inv: "tx_inv b T u m t" and o: "out_ok b T (fin_wanted t) io" using assms by (rule tx_okE)
  obtain s where v: "tx_view (fst (tcp_take_data now sq data fin t io)) = tx_view (t\<lparr>t_state := s\<rparr>)"
    and s: "s = t_state t \<or> t_state t = TCP_ESTABLISHED \<and> s = TCP_CLOSE_WAIT \<or> s \<noteq> TCP_ESTABLISHED \<and> s \<noteq> TCP_CLOSE_WAIT"
    using tcp_take_data_tx by blast
  have "tx_inv b T u m (t\<lparr>t_state := s\<rparr>)" using inv s unfolding tx_inv_def by auto
  then have "tx_ok b T (t\<lparr>t_state := s\<rparr>) io" using o by (intro tx_okI) simp_all
  moreover have "out_ok b T (fin_wanted (t\<lparr>t_state := s\<rparr>)) (snd (tcp_take_data now sq data fin t io))"
    using tcp_take_data_out [of now sq data fin t io] o by auto
  ultimately show ?thesis by (rule tx_ok_view [OF v])
qed

lemma tx_ok_got_data: "tx_ok b T t io \<Longrightarrow> tx_pair_ok b T (tcp_got_data now sq data fin t io)"
  by (simp add: tcp_got_data_def Let_def tx_ok_take_data)

text \<open>Whatever a segment says, the send side survives it.\<close>

lemma tx_ok_segment:
  assumes ok: "tx_ok b T t io"
  shows "tx_pair_ok b T (tcp_segment_arrives now h body t io)"
proof -
  define t0 where "t0 = t\<lparr>last_rx := now, keep_sent := 0\<rparr>"
  define r1 where "r1 = (if h_flags h AND TCP_ACK \<noteq> 0
    then tcp_got_ack now (h_seq h) (h_ack h) (h_window h) (\<not> (body \<noteq> [] \<or> h_flags h AND TCP_FIN \<noteq> 0)) t0 io else (t0, io))"
  define r2 where "r2 = (if (body \<noteq> [] \<or> h_flags h AND TCP_FIN \<noteq> 0) \<and> tcp_can_take_data (fst r1)
    then tcp_got_data now (h_seq h) body (h_flags h AND TCP_FIN \<noteq> 0) (fst r1) (snd r1) else r1)"
  have "tx_view t0 = tx_view t" by (simp add: t0_def tx_frames)
  then have ok0: "tx_ok b T t0 io" using ok tx_ok_out [OF ok] by (rule tx_ok_view)
  have ctl: "tx_pair_ok b T (tcp_send_ctl f x t0 io)" if "f AND TCP_FIN = 0" for f x
    using tx_ok_ctl(1) [OF ok0 that] .
  have 1: "tx_pair_ok b T r2" if "\<not> (h_flags h AND TCP_ACK \<noteq> 0 \<and> SEQ_LT (snd_nxt t0) (h_ack h))"
  proof -
    have "tx_pair_ok b T r1" using ok0 tx_ok_got_ack [OF ok0] that by (auto simp: r1_def)
    then show ?thesis using tx_ok_got_data by (simp add: r2_def)
  qed
  have 2: "tx_pair_ok b T (tcp_send_ack (fst (tcp_push now (fst r2) (snd r2))) (snd (tcp_push now (fst r2) (snd r2))))"
    "tx_pair_ok b T (tcp_push now (fst r2) (snd r2))" if "tx_pair_ok b T r2"
    using tx_ok_push [OF that] tx_ok_ctl(2) by blast+
  have 3: "tx_pair_ok b T (tcp_set_closed 0 (fst (tcp_send_ctl (TCP_RST OR TCP_ACK) x t0 io)) (snd (tcp_send_ctl (TCP_RST OR TCP_ACK) x t0 io)))" for x
    by (rule tx_ok_closed, rule ctl) simp_all
  show ?thesis
    unfolding tcp_segment_arrives_def Let_def t0_def [symmetric] case_prod_unfold prod.collapse
      r1_def [symmetric] r2_def [symmetric]
    using 1 2 3 ctl by simp
qed


text \<open>A write appends to the stream.\<close>

lemma tx_inv_write:
  assumes inv: "tx_inv b T u m t" and nf: "\<not> fin_sent t" and n: "n \<le> of_nat TCP_TX_BUF - tx_len t" "unat n \<le> length buf"
    and X: "X = take (unat n) buf"
  shows "tx_inv b (T @ X) u m (t\<lparr>tx := ring_put (tx t) (unat ((tx_start t + tx_len t) mod of_nat TCP_TX_BUF)) X,
    tx_len := tx_len t + n\<rparr>)"
proof -
  note i = tx_invD [OF inv]
  have uT: "u \<le> length T" "min u (length T) = u" "min u (length (T @ X)) = u" using i(7,8) nf by simp_all
  have len: "unat (tx_len t) = length T - u" "length T - u \<le> TCP_TX_BUF" using i(3,4) uT by simp_all
  have room: "unat n \<le> TCP_TX_BUF - unat (tx_len t)"
    using n(1) len by (simp add: word_le_nat_alt unat_minus_small)
  have X_len: "length X = unat n" using X n(2) by simp
  have at: "unat ((tx_start t + tx_len t) mod of_nat TCP_TX_BUF) = (unat (tx_start t) + (length T - u)) mod TCP_TX_BUF"
    using i(2) len by (simp add: unat_mod unat_plus_small)
  have l: "unat (tx_len t + n) = length (T @ X) - u" using len room X_len uT(1) by (simp add: unat_plus_small)
  have st: "ring_put (tx t) ((unat (tx_start t) + (length T - u)) mod TCP_TX_BUF) X ! ((unat (tx_start t) + (k - u)) mod TCP_TX_BUF) = (T @ X) ! k"
    if k: "k \<in> {u..<length (T @ X)}" for k
  proof -
    have "ring_put (tx t) ((unat (tx_start t) + (length T - u)) mod length (tx t)) X ! ((unat (tx_start t) + (k - u)) mod length (tx t)) =
      (if length T - u \<le> k - u \<and> k - u < length T - u + length X then X ! (k - u - (length T - u)) else tx t ! ((unat (tx_start t) + (k - u)) mod length (tx t)))"
      by (rule ring_put_at) (use i(1,2) len room X_len k uT(1) in \<open>auto\<close>)
    moreover have "tx t ! ((unat (tx_start t) + (k - u)) mod TCP_TX_BUF) = T ! k" if "k < length T"
      using inv that k unfolding tx_inv_def uT(2) by auto
    ultimately show ?thesis using k uT(1) i(1) by (auto simp: nth_append)
  qed
  have "length (ring_put (tx t) p X) = TCP_TX_BUF" if "p < TCP_TX_BUF" for p
    using that i(1) X_len room by simp
  then have lp: "length (ring_put (tx t) ((unat (tx_start t) + (length T - u)) mod TCP_TX_BUF) X) = TCP_TX_BUF" by simp
  have "length (T @ X) - u \<le> TCP_TX_BUF" using len room X_len by simp
  then show ?thesis
    using inv nf l st lp unfolding tx_inv_def at uT(2,3) by (auto split: if_splits)
qed

lemma out_ok_fresh: "io_ok io \<Longrightarrow> io_out io = [] \<Longrightarrow> out_ok b T g io"
  by (simp add: out_ok_def)

lemma out_okD: "out_ok b T g io \<Longrightarrow> io_ok io"
  by (simp add: out_ok_def)

lemma tx_ok_send:
  assumes ok: "tx_ok b T t io" and "io_out io = []" and r: "tcp_send now buf t io = (r, t', io')"
  shows "tx_ok b (T @ take (nat r) buf) t' io'"
proof (cases "t_error t \<noteq> 0 \<or> t_state t = TCP_SYN_SENT \<or>
    t_state t \<noteq> TCP_ESTABLISHED \<and> t_state t \<noteq> TCP_CLOSE_WAIT \<or> fin_wanted t")
  case True
  have "t_error t \<le> 0" using ok unfolding tx_ok_def tx_inv_def by blast
  then have "r \<le> 0" "t' = t" "io' = io" using True r by (auto simp: tcp_send_def split: if_splits)
  then show ?thesis using ok by simp
next
  case False
  obtain u m where inv: "tx_inv b T u m t" and o: "out_ok b T (fin_wanted t) io" using ok by (rule tx_okE)
  have nf: "\<not> fin_sent t" using inv False unfolding tx_inv_def by blast
  define room n where "room = of_nat TCP_TX_BUF - tx_len t" and "n = (if length buf < unat room then of_nat (length buf) else room)"
  have lb: "unat (of_nat (length buf) :: u32) = length buf" if "length buf < unat room"
    using that unat_u32 [of room] by (intro unat_of_nat_small) simp
  then have n: "n \<le> room" "unat n \<le> length buf" by (auto simp: n_def word_le_nat_alt)
  define X where "X = take (unat n) buf"
  define t1 where "t1 = t\<lparr>tx := ring_put (tx t) (unat ((tx_start t + tx_len t) mod of_nat TCP_TX_BUF)) X, tx_len := tx_len t + n\<rparr>"
  have "tx_inv b (T @ X) u m t1" unfolding t1_def using tx_inv_write [OF inv nf n [unfolded room_def] X_def] .
  then have "tx_ok b (T @ X) t1 io" using out_ok_fresh [OF out_okD [OF o] assms(2)] by (rule tx_okI)
  then have p: "tx_pair_ok b (T @ X) (tcp_push now t1 io)" by (rule tx_ok_push)
  have e: "tcp_send now buf t io = (if n \<noteq> 0 then uint n else - EAGAIN, tcp_push now t1 io)"
    using False unfolding tcp_send_def Let_def room_def [symmetric] n_def [symmetric] X_def [symmetric] t1_def [symmetric]
    by (auto simp: case_prod_unfold)
  have "r = (if n \<noteq> 0 then uint n else - EAGAIN)" "tcp_push now t1 io = (t', io')" using r unfolding e by simp_all
  then have "X = take (nat r) buf" "fst (tcp_push now t1 io) = t'" "snd (tcp_push now t1 io) = io'" by (simp_all add: X_def)
  then show ?thesis using p by simp
qed


text \<open>Asking to close, timing out, keeping alive, reading.\<close>

lemma tx_ok_fin_wanted:
  assumes "tx_ok b T t io" and "io_out io = []"
  shows "tx_ok b T (t\<lparr>fin_wanted := True\<rparr>) io"
proof -
  obtain u m where "tx_inv b T u m t" and o: "out_ok b T (fin_wanted t) io" using assms(1) by (rule tx_okE)
  then have "tx_inv b T u m (t\<lparr>fin_wanted := True\<rparr>)" unfolding tx_inv_def by auto
  then show ?thesis using out_ok_fresh [OF out_okD [OF o] assms(2)] by (rule tx_okI)
qed

lemma tx_ok_same: "tx_view t' = tx_view t \<Longrightarrow> tx_ok b T t io \<Longrightarrow> tx_ok b T t' io"
  using tx_ok_view tx_ok_out by blast

lemma tx_ok_wake: "tx_ok b T t (sched_wake w io) = tx_ok b T t io"
  by (simp add: tx_ok_def)

lemma tx_ok_shutdown:
  assumes ok: "tx_ok b T t io" and "io_out io = []" and r: "tcp_shutdown now rd wr t io = (r, t', io')"
  shows "tx_ok b T t' io'"
proof -
  define t1 where "t1 = (if rd then t\<lparr>rd_shut := True\<rparr> else t)"
  have "tx_view t1 = tx_view t" by (simp add: t1_def tx_frames)
  then have ok1: "tx_ok b T t1 io" using ok by (rule tx_ok_same)
  have "tx_pair_ok b T (tcp_push now (t1\<lparr>fin_wanted := True\<rparr>) io)"
    by (rule tx_ok_push, rule tx_ok_fin_wanted [OF ok1 assms(2)])
  then have p: "tx_pair_ok b T (if wr \<and> \<not> fin_wanted t1 then tcp_push now (t1\<lparr>fin_wanted := True\<rparr>) io else (t1, io))"
    using ok1 by simp
  show ?thesis
  proof (cases "\<not> was_connected t \<or> t_state t = TCP_CLOSED")
    case True
    then show ?thesis using ok r by (auto simp: tcp_shutdown_def)
  next
    case False
    then show ?thesis using p r
      unfolding tcp_shutdown_def if_not_P [OF False] Let_def t1_def [symmetric] case_prod_unfold by (auto simp: tx_ok_wake)
  qed
qed

text \<open>The guard is that of \<open>tcp_timeout\<close>: there is something nobody acknowledged, or something to probe with.\<close>

definition rto_due :: "tcb \<Rightarrow> bool" where
  "rto_due t \<longleftrightarrow> t_state t = TCP_SYN_SENT \<or> t_state t = TCP_SYN_RCVD \<or> snd_nxt t \<noteq> snd_una t
     \<or> tx_len t \<noteq> 0 \<and> snd_wnd t = 0"

lemma tx_inv_enter_rto:
  assumes inv: "tx_inv b T u m t" and "snd_nxt t \<noteq> snd_una t"
  shows "tx_inv b T u m (tcp_enter_rto t)"
proof -
  note i = tx_invD [OF inv]
  have um: "u < m" using assms(2) i(5,6,7) by (cases "u = m") auto
  have v: "tx_view ((tcp_enter_rto t)\<lparr>recovery := TCP_RECOVERY_NONE\<rparr>) = tx_view (t\<lparr>recovery := TCP_RECOVERY_NONE, recover := snd_nxt t\<rparr>)"
    by (simp add: tcp_enter_rto_def Let_def tx_view_def)
  have "tx_inv b T u m (t\<lparr>recovery := TCP_RECOVERY_NONE, recover := x\<rparr>)" for x
    using inv unfolding tx_inv_def by auto
  then have core: "tx_core b T u m (tcp_enter_rto t)" unfolding tx_inv_view [OF v] .
  have rec: "rec_ok b T u (tcp_enter_rto t)"
    using um i(6,8) by (auto simp: rec_ok_def tcp_enter_rto_def Let_def)
  show ?thesis by (rule iffD2 [OF tx_inv_rec conjI [OF core rec]])
qed

lemma tx_ok_probe:
  assumes ok: "tx_ok b T t io" and "snd_nxt t = snd_una t" and "tx_len t \<noteq> 0" and r: "tcp_emit TCP_ACK (snd_nxt t) 0 1 [] t io = r"
  shows "tx_ok b T ((fst r)\<lparr>snd_nxt := snd_nxt (fst r) + 1\<rparr>) (snd r)"
proof -
  obtain u m where inv: "tx_inv b T u m t" and o: "out_ok b T (fin_wanted t) io" using ok by (rule tx_okE)
  note i = tx_invD [OF inv]
  have "unat (snd_nxt t - snd_una t) = m - u" by (rule tx_flight(2) [OF inv])
  then have um: "m = u" using assms(2) i(7) by simp
  have "unat (tx_len t) \<noteq> 0" using assms(3) unat_eq_zero by blast
  then have uT: "u < length T" using i(3) by (simp add: min_def split: if_splits)
  then have nf: "\<not> fin_sent t" using i(9) um by auto
  have "out_ok b T (fin_wanted t) (snd r)"
    using tcp_emit_out [OF inv o opts_ok_simps(1), of 0 1 "snd_nxt t" TCP_ACK] uT i(6) um r by simp
  moreover have v: "tx_view (fst r) = tx_view t" using r by (auto simp: tx_frames)
  moreover have "tx_inv b T u (m + unat (1 :: u32)) ((fst r)\<lparr>snd_nxt := snd_nxt (fst r) + 1\<rparr>)"
    by (rule tx_inv_advance [OF inv nf _ v]) (use uT um in simp)
  moreover have "fin_wanted (fst r) = fin_wanted t" using v by (simp add: tx_view_def)
  ultimately show ?thesis by (intro tx_okI) simp_all
qed

lemma tx_ok_retry:
  assumes ok: "tx_ok b T t io" and "rto_due t"
  shows "tx_pair_ok b T (tcp_timeout_retry now t io)"
proof -
  have e: "tx_ok b T (tcp_enter_rto t) io" if "snd_nxt t \<noteq> snd_una t"
    using ok tx_inv_enter_rto [OF _ that] unfolding tx_ok_def fin_kept by blast
  define r where "r = tcp_emit TCP_ACK (snd_nxt t) 0 1 [] t io"
  have p: "tx_ok b T ((fst r)\<lparr>snd_nxt := snd_nxt (fst r) + 1\<rparr>) (snd r)" if "snd_nxt t = snd_una t" "tx_len t \<noteq> 0"
    using tx_ok_probe [OF ok that] by (simp add: r_def)
  have "tx_pair_ok b T (if t_state t = TCP_SYN_SENT \<or> t_state t = TCP_SYN_RCVD then tcp_send_syn t io
      else if snd_nxt t = snd_una t \<and> tx_len t \<noteq> 0 \<and> snd_wnd t = 0 then ((fst r)\<lparr>snd_nxt := snd_nxt (fst r) + 1\<rparr>, snd r)
      else (tcp_enter_rto t, io))" (is "tx_pair_ok b T ?r")
    using e p tx_ok_ctl(3) [OF ok] assms(2) by (auto simp: rto_due_def)
  then have "tx_ok b T (tcp_backoff now (fst ?r)) (snd ?r)" by (rule tx_ok_same [OF tx_view_simple(2)])
  then show ?thesis unfolding tcp_timeout_retry_def Let_def r_def case_prod_unfold by simp
qed

lemma tx_ok_keepalive:
  assumes ok: "tx_ok b T t io"
  shows "tx_pair_ok b T (tcp_keepalive now t io)"
proof -
  have "tx_ok b T (t\<lparr>keep_sent := x\<rparr>) io" for x by (rule tx_ok_same [OF _ ok]) (simp add: tx_frames)
  from tx_ok_ctl(1) [OF this] have "tx_pair_ok b T (tcp_send_ctl TCP_ACK sq (t\<lparr>keep_sent := x\<rparr>) io)" for sq x by simp
  moreover have "tx_pair_ok b T (tcp_set_closed (- ETIMEDOUT) (fst (tcp_send_ctl TCP_RST sq t io)) (snd (tcp_send_ctl TCP_RST sq t io)))" for sq
    by (rule tx_ok_closed, rule tx_ok_ctl(1) [OF ok]) simp_all
  ultimately show ?thesis using ok by (simp add: tcp_keepalive_def Let_def case_prod_unfold)
qed

lemma tx_ok_reset: "tx_ok b T t io \<Longrightarrow> tx_pair_ok b T (tcp_reset_arrives sq t io)"
  by (simp add: tcp_reset_arrives_def Let_def tx_ok_closed)

lemma tx_ok_recv:
  assumes ok: "tx_ok b T t io" and r: "tcp_recv len peek t io = (r, buf, t', io')"
  shows "tx_ok b T t' io'"
proof -
  have "tx_ok b T (t\<lparr>rx_start := x, rx_len := y\<rparr>) io" for x y by (rule tx_ok_same [OF _ ok]) (simp add: tx_frames)
  note ok1 = this
  from tx_ok_ctl(1) [OF this] have "tx_pair_ok b T (tcp_send_ctl TCP_ACK sq (t\<lparr>rx_start := x, rx_len := y\<rparr>) io)" for sq x y by simp
  moreover have "tx_ok b T (t\<lparr>t_error := 0\<rparr>) io"
  proof -
    obtain u m where "tx_inv b T u m t" and o: "out_ok b T (fin_wanted t) io" using ok by (rule tx_okE)
    then have "tx_inv b T u m (t\<lparr>t_error := 0\<rparr>)" unfolding tx_inv_def by simp
    then show ?thesis by (rule tx_okI) (simp add: o)
  qed
  ultimately have "tx_pair_ok b T (snd (snd (tcp_recv len peek t io)))"
    using ok ok1 by (simp add: tcp_recv_def Let_def case_prod_unfold)
  then show ?thesis by (simp add: r)
qed

end
