(* ===== verification/Tcpstream.thy ===== *)
theory Tcpstream
  imports Tcpflow
begin

text \<open>
  Two connections that talk to each other. \<open>tcb_invariant\<close> is what a property of a connection
  block has to satisfy to survive the timers and a close; both directions of the stream, the
  retransmission timeout and the congestion window are instances.
\<close>

section \<open>Invariants of a connection block\<close>

lemma tcb_at_put [simp]: "tcb_at (put_tcb i t tab) j = (if j = i then t else tcb_at tab j)"
  "tcbs (put_tcb i t tab) j = (if j = i then Some t else tcbs tab j)"
  by (simp_all add: put_tcb_def)

lemma tcbs_free [simp]: "tcbs (tcp_free i tab) i = None"
  by (simp add: tcp_free_def Let_def)

locale tcb_invariant =
  fixes P :: "tcb \<Rightarrow> tcp_io \<Rightarrow> bool"
  assumes timer: "P t io \<Longrightarrow> P (t\<lparr>rto_at := 0\<rparr>) io" "P t io \<Longrightarrow> P (t\<lparr>retries := r\<rparr>) io"
    and linkage: "P t io \<Longrightarrow> P (t\<lparr>linked := False\<rparr>) io" "P t io \<Longrightarrow> P (t\<lparr>t_pending := n\<rparr>) io"
    and drop: "P t io \<Longrightarrow> P (t\<lparr>parent := None, detached := True, t_state := TCP_CLOSED, rto_at := 0\<rparr>) io"
    and leave: "P t io \<Longrightarrow> P (t\<lparr>t_wait := None, detached := True\<rparr>) io"
    and finish: "P t io \<Longrightarrow> io_out io = [] \<Longrightarrow> P (t\<lparr>fin_wanted := True, done_at := d\<rparr>) io"
    and closed: "P t io \<Longrightarrow> err \<le> 0 \<Longrightarrow> case_prod P (tcp_set_closed err t io)"
    and control: "P t io \<Longrightarrow> flags AND TCP_FIN = 0 \<Longrightarrow> case_prod P (tcp_send_ctl flags sq t io)"
    and retry: "P t io \<Longrightarrow> rto_due t \<Longrightarrow> case_prod P (tcp_timeout_retry now t io)"
    and push: "P t io \<Longrightarrow> case_prod P (tcp_push now t io)"
    and keep: "P t io \<Longrightarrow> case_prod P (tcp_keepalive now t io)"
begin

lemma on_tcb_keeps:
  assumes "P (tcb_at tab i) io" and "\<And>t io. P t io \<Longrightarrow> case_prod P (f t io)"
  shows "P (tcb_at (fst (on_tcb i f tab io)) i) (snd (on_tcb i f tab io))"
  using assms(2) [OF assms(1)] by (simp add: on_tcb_def case_prod_unfold)

lemma drop_child_keeps:
  assumes "P (tcb_at tab i) io"
  shows "P (tcb_at (tcp_drop_child i tab) i) io"
proof -
  have "P (tcb_at (put_tcb l ((tcb_at tab l)\<lparr>t_pending := x\<rparr>) tab) i) io" for l x
    using assms linkage(2) by auto
  then have "P (tcb_at (case parent (tcb_at tab i) of None \<Rightarrow> tab
      | Some l \<Rightarrow> put_tcb l ((tcb_at tab l)\<lparr>t_pending := t_pending (tcb_at tab l) - 1\<rparr>) tab) i) io"
    using assms by (simp split: option.split)
  then show ?thesis unfolding tcp_drop_child_def Let_def by (simp only: tcb_at_put option.sel if_True drop refl)
qed

lemma timeout_keeps:
  assumes P: "P (tcb_at tab i) io"
  shows "P (tcb_at (fst (tcp_timeout now i tab io)) i) (snd (tcp_timeout now i tab io))"
proof -
  define t where "t = tcb_at tab i"
  define t1 where "t1 = t\<lparr>retries := retries t + 1\<rparr>"
  have P1: "P t1 io" using timer(2) [OF P] by (simp add: t1_def t_def)
  have same: "t_state t1 = t_state t" "snd_nxt t1 = snd_nxt t" "snd_una t1 = snd_una t" "tx_len t1 = tx_len t" "snd_wnd t1 = snd_wnd t"
    by (simp_all add: t1_def)
  define syn where "syn \<longleftrightarrow> t_state t = TCP_SYN_SENT \<or> t_state t = TCP_SYN_RCVD"
  define probe where "probe \<longleftrightarrow> snd_nxt t - snd_una t = 0 \<and> tx_len t \<noteq> 0 \<and> snd_wnd t = 0"
  have quit: "case_prod P (case if t_state t \<noteq> TCP_SYN_SENT then tcp_send_ctl TCP_RST (snd_nxt t1) t1 io else (t1, io) of
      (t2, io2) \<Rightarrow> tcp_set_closed (- ETIMEDOUT) t2 io2)"
    using control [OF P1, of TCP_RST "snd_nxt t1"] P1 closed by (auto simp: case_prod_unfold)
  have r: "case_prod P (tcp_timeout_retry now t1 io)" if "\<not> (\<not> syn \<and> snd_nxt t - snd_una t = 0 \<and> \<not> probe)"
    by (rule retry [OF P1]) (use that in \<open>auto simp: rto_due_def same syn_def probe_def\<close>)
  have d: "P (tcb_at (tcp_drop_child i (put_tcb i t1 tab)) i) io" by (rule drop_child_keeps) (simp add: P1)
  show ?thesis
    unfolding tcp_timeout_def Let_def t_def [symmetric] t1_def [symmetric] syn_def [symmetric] probe_def [symmetric]
    using quit r d timer(1) [OF P] by (simp add: on_tcb_def case_prod_unfold t_def)
qed

lemma tick_one_keeps:
  assumes P: "P (tcb_at tab i) io" and "tcp_tick_one now i (tab, io) = (tab', io')" and "tcbs tab' i = Some t'"
  shows "P t' io'"
proof -
  define ok where "ok s \<longleftrightarrow> P (tcb_at (fst s) i) (snd s)" for s
  define s1 where "s1 = (if rto_at (tcb_at tab i) \<noteq> 0 \<and> now \<ge> rto_at (tcb_at tab i) then tcp_timeout now i tab io else (tab, io))"
  define s2 where "s2 = on_tcb i (tcp_push now) (fst s1) (snd s1)"
  define s3 where "s3 = on_tcb i (tcp_keepalive now) (fst s2) (snd s2)"
  define s4 where "s4 = (if t_state (tcb_at (fst s3) i) = TCP_TIME_WAIT \<and> now \<ge> done_at (tcb_at (fst s3) i)
    then on_tcb i (tcp_set_closed 0) (fst s3) (snd s3) else s3)"
  define sa where "sa = on_tcb i (tcp_send_ctl (TCP_RST OR TCP_ACK) (snd_nxt (tcb_at (fst s4) i))) (fst s4) (snd s4)"
  define s5 where "s5 = (if detached (tcb_at (fst s4) i) \<and> t_state (tcb_at (fst s4) i) \<noteq> TCP_CLOSED
      \<and> done_at (tcb_at (fst s4) i) \<noteq> 0 \<and> now \<ge> done_at (tcb_at (fst s4) i)
    then on_tcb i (tcp_set_closed 0) (fst sa) (snd sa) else s4)"
  have on: "ok (on_tcb i f (fst s) (snd s))" if "ok s" "\<And>t io. P t io \<Longrightarrow> case_prod P (f t io)" for s f
    using on_tcb_keeps [OF that(1) [unfolded ok_def] that(2)] by (simp add: ok_def)
  have "ok s1" using P timeout_keeps [OF P] by (simp add: s1_def ok_def)
  then have "ok s2" unfolding s2_def by (rule on) (rule push)
  then have "ok s3" unfolding s3_def by (rule on) (rule keep)
  then have 4: "ok s4" using on [OF _ closed] by (simp add: s4_def)
  then have "ok sa" unfolding sa_def by (rule on) (rule control, simp_all)
  then have "ok s5" using 4 on [OF _ closed] by (simp add: s5_def)
  moreover have "(tab', io') = (if detached (tcb_at (fst s5) i) \<and> t_state (tcb_at (fst s5) i) = TCP_CLOSED then tcp_free i (fst s5)
      else if t_state (tcb_at (fst s5) i) = TCP_CLOSED \<and> linked (tcb_at (fst s5) i) then tcp_unlink i (fst s5) else fst s5, snd s5)"
    using assms(2) unfolding tcp_tick_one_def Let_def fst_conv snd_conv case_prod_unfold prod.collapse s1_def [symmetric] s2_def [symmetric]
      s3_def [symmetric] s4_def [symmetric] sa_def [symmetric] s5_def [symmetric] by simp
  ultimately show ?thesis
    using assms(3) linkage(1) by (auto simp: ok_def tcp_unlink_def put_tcb_def split: if_splits)
qed

lemma detach_keeps:
  assumes P: "P (tcb_at tab i) io" and "io_out io = []" and "tcp_detach_locked now i abort tab io = (tab', io')" and "tcbs tab' i = Some t'"
  shows "P t' io'"
proof -
  define t where "t = (tcb_at tab i)\<lparr>t_wait := None, detached := True\<rparr>"
  have Pt: "P t io" using leave [OF P] by (simp add: t_def)
  have "case_prod P (tcp_push now (t\<lparr>fin_wanted := True, done_at := now + TCP_LINGER_MS\<rparr>) io)"
    by (rule push, rule finish [OF Pt assms(2)])
  then show ?thesis
    using assms(3,4) Pt unfolding tcp_detach_locked_def Let_def t_def [symmetric]
    by (auto simp: on_tcb_def case_prod_unfold split: if_splits)
qed

end


text \<open>The two directions of a connection.\<close>

interpretation txi: tcb_invariant "tx_ok b T" for b T
proof (unfold_locales, goal_cases)
  case (7 t io d)
  have v: "tx_view (t\<lparr>fin_wanted := True, done_at := d\<rparr>) = tx_view (t\<lparr>fin_wanted := True\<rparr>)" by (simp add: tx_view_def)
  show ?case by (rule tx_ok_same [OF v], rule tx_ok_fin_wanted [OF 7])
next
  case (5 t io)
  obtain u m where "tx_inv b T u m t" and o: "out_ok b T (fin_wanted t) io" using 5 by (rule tx_okE)
  then have "tx_ok b T (t\<lparr>t_state := TCP_CLOSED\<rparr>) io" by (intro tx_okI [OF tx_state_change]) simp_all
  then show ?case by (rule tx_ok_same [rotated]) (simp add: tx_view_def)
qed (simp_all add: case_prod_unfold tx_ok_closed tx_ok_ctl(1) tx_ok_retry tx_ok_push tx_ok_keepalive,
     (erule tx_ok_same [rotated], simp add: tx_frames)+)

interpretation rxi: tcb_invariant "\<lambda>t io. rx_view t = v" for v
  by unfold_locales (simp_all add: case_prod_unfold frames)


section \<open>Two ends of a connection\<close>

text \<open>A connection past its handshake and not closed; segments for it go where they are taken below.\<close>

definition tcp_connected :: "tcb \<Rightarrow> bool" where
  "tcp_connected t \<longleftrightarrow> t_state t \<noteq> TCP_CLOSED \<and> t_state t \<noteq> TCP_LISTEN \<and> t_state t \<noteq> TCP_SYN_SENT \<and> t_state t \<noteq> TCP_SYN_RCVD"

lemma tcp_dispatch_connected:
  assumes "tcp_find tab src (h_src_port h) dst (h_dst_port h) = Some i" and "h = tcp_hdr_of data" and "tcp_connected (tcb_at tab i)"
    and "t_state (tcb_at tab i) \<noteq> TCP_TIME_WAIT \<or> h_flags h AND TCP_SYN = 0"
  shows "tcp_dispatch key clk now src dst data tab io =
    on_tcb i (if h_flags h AND TCP_RST \<noteq> 0 then tcp_reset_arrives (h_seq h) else tcp_segment_arrives now h (tcp_body data)) tab io"
  using assms by (auto simp: tcp_dispatch_def Let_def tcp_connected_def tcp_body_def)

text \<open>
  What can happen at one end, the peer apart: its owner writes, reads and closes, the timers run,
  segments without data and resets come from anywhere. The two lists are the bytes written and read.
\<close>

inductive own_step :: "tcb \<Rightarrow> tcp_io \<Rightarrow> bytes \<Rightarrow> bytes \<Rightarrow> tcb \<Rightarrow> tcp_io \<Rightarrow> bool" where
  writes: "tcp_send now buf t io = (r, t', io') \<Longrightarrow> own_step t io (take (nat r) buf) [] t' io'"
| reads: "tcp_recv len False t io = (r, buf, t', io') \<Longrightarrow> own_step t io [] buf t' io'"
| peeks: "tcp_recv len True t io = (r, buf, t', io') \<Longrightarrow> own_step t io [] [] t' io'"
| shuts: "tcp_shutdown now rd wr t io = (r, t', io') \<Longrightarrow> own_step t io [] [] t' io'"
| ticks: "tcbs tab i = Some t \<Longrightarrow> tcp_tick_one now i (tab, io) = (tab', io') \<Longrightarrow> tcbs tab' i = Some t' \<Longrightarrow>
    own_step t io [] [] t' io'"
| detaches: "tcbs tab i = Some t \<Longrightarrow> tcp_detach_locked now i abort tab io = (tab', io') \<Longrightarrow> tcbs tab' i = Some t' \<Longrightarrow>
    own_step t io [] [] t' io'"
| bare: "tcp_connected t \<Longrightarrow> h_flags h AND TCP_FIN = 0 \<Longrightarrow> tcp_segment_arrives now h [] t io = (t', io') \<Longrightarrow> own_step t io [] [] t' io'"
| resets: "tcp_connected t \<Longrightarrow> tcp_reset_arrives sq t io = (t', io') \<Longrightarrow> own_step t io [] [] t' io'"

lemma own_step_tx:
  assumes "own_step t io X R t' io'" and "io_out io = []" and "tx_ok b T t io"
  shows "tx_ok b (T @ X) t' io'"
  using assms
proof (induction rule: own_step.induct)
  case (writes now buf t io r t' io')
  then show ?case using tx_ok_send by blast
next
  case (reads len t io r buf t' io')
  then show ?case using tx_ok_recv by simp
next
  case (peeks len t io r buf t' io')
  then show ?case using tx_ok_recv by simp
next
  case (shuts now rd wr t io r t' io')
  then show ?case using tx_ok_shutdown by simp
next
  case (ticks tab i t now io tab' io' t')
  then show ?case using txi.tick_one_keeps [of b T tab i io now tab' io' t'] by simp
next
  case (detaches tab i t now abort io tab' io' t')
  then show ?case using txi.detach_keeps [of b T tab i io now abort tab' io' t'] by simp
next
  case (bare t h now io t' io')
  then show ?case using tx_ok_segment [of b T t io now h "[]"] by simp
next
  case (resets t sq io t' io')
  then show ?case using tx_ok_reset [of b T t io sq] by simp
qed

lemma own_step_rx_view:
  assumes "own_step t io X R t' io'" and "io_out io = []"
  shows "rx_view t' = rx_view t \<and> R = [] \<or> (\<exists>len r. tcp_recv len False t io = (r, R, t', io'))
    \<or> (\<exists>h now. h_flags h AND TCP_FIN = 0 \<and> tcp_segment_arrives now h [] t io = (t', io') \<and> R = [])"
  using assms
proof (induction rule: own_step.induct)
  case (writes now buf t io r t' io')
  then show ?case using rx_view_ops(1) [of now buf t io] by simp
next
  case (reads len t io r buf t' io')
  then show ?case by (intro disjI2 disjI1 exI)
next
  case (peeks len t io r buf t' io')
  have "rx_view t' = rx_view t" using peeks(1) by (auto simp: tcp_recv_def Let_def frames split: if_splits)
  then show ?case by simp
next
  case (shuts now rd wr t io r t' io')
  then show ?case using rx_view_ops(2) [of now rd wr t io] by simp
next
  case (ticks tab i t now io tab' io' t')
  then show ?case using rxi.tick_one_keeps [where v = "rx_view t", OF _ ticks(2,3)] by simp
next
  case (detaches tab i t now abort io tab' io' t')
  then show ?case using rxi.detach_keeps [where v = "rx_view t", OF _ _ detaches(2,3)] by simp
next
  case (bare t h now io t' io')
  then show ?case by (intro disjI2 exI conjI) (assumption, assumption, rule refl)
next
  case (resets t sq io t' io')
  then show ?case using rx_view_ops(5) [of sq t io] by simp
qed

lemma own_step_rx:
  assumes st: "own_step t io X R t' io'" and "io_out io = []" and inv: "rx_inv b S d p t"
  shows "\<exists>p'. rx_inv b S (d + length R) p' t' \<and> R = take (length R) (drop d S)"
  using own_step_rx_view [OF st assms(2)]
proof (elim disjE exE conjE)
  assume v: "rx_view t' = rx_view t" and "R = []"
  then show ?thesis using inv rx_inv_view [OF v] by auto
next
  fix len r assume "tcp_recv len False t io = (r, R, t', io')"
  from tcp_recv_rx [OF inv this] show ?thesis by blast
next
  fix h now assume h: "h_flags h AND TCP_FIN = 0" "tcp_segment_arrives now h [] t io = (t', io')" "R = []"
  have "seg_genuine b S p h []" using h(1) by (simp add: seg_genuine_def)
  from tcp_segment_arrives_rx [OF inv this, of now io] h(2,3) show ?thesis by auto
qed


text \<open>Only a FIN tells a connection that the stream ends.\<close>

abbreviation saw_fin :: "tcb \<Rightarrow> bool" where
  "saw_fin t \<equiv> fin_seen t \<or> peer_fin t"

lemma saw_fin_view: "rx_view t' = rx_view t \<Longrightarrow> saw_fin t' = saw_fin t"
  by (simp add: rx_view_def)

lemma saw_fin_got_data: "saw_fin (fst (tcp_got_data now sq data fin t io)) \<Longrightarrow> saw_fin t \<or> fin"
proof -
  have c: "saw_fin (tcp_count_data sq off tk u) = saw_fin u" for sq off tk u
    by (simp add: tcp_count_data_def tcp_ooo_add_def tcp_ooo_settle_def case_prod_unfold)
  have st: "saw_fin (tcp_store_data sq off d tk fin u) \<Longrightarrow> saw_fin u \<or> fin" for sq off tk u d
    by (auto simp: tcp_store_data_def Let_def split: if_splits)
  have r: "saw_fin (tcp_fin_reached now u) = saw_fin u" for u
    by (auto simp: tcp_fin_reached_def Let_def)
  have "saw_fin (fst (tcp_take_data now sq d fin t io)) \<Longrightarrow> saw_fin t \<or> fin" for sq d
    using st by (auto simp only: tcp_take_data_def Let_def r c fst_conv split: if_splits)
  then show "saw_fin (fst (tcp_got_data now sq data fin t io)) \<Longrightarrow> saw_fin t \<or> fin"
    by (simp only: tcp_got_data_def Let_def fst_conv split: if_splits) blast+
qed

lemma saw_fin_segment:
  assumes "saw_fin (fst (tcp_segment_arrives now h body t io))"
  shows "saw_fin t \<or> h_flags h AND TCP_FIN \<noteq> 0"
proof (rule ccontr)
  assume n: "\<not> (saw_fin t \<or> h_flags h AND TCP_FIN \<noteq> 0)"
  define t0 where "t0 = t\<lparr>last_rx := now, keep_sent := 0\<rparr>"
  have v0: "rx_view t0 = rx_view t" by (simp add: t0_def frames)
  have no: "\<not> saw_fin u" if "rx_view u = rx_view t" for u using n saw_fin_view [OF that] by simp
  define r1 where "r1 = (if h_flags h AND TCP_ACK \<noteq> 0
    then tcp_got_ack now (h_seq h) (h_ack h) (h_window h) (\<not> (body \<noteq> [] \<or> h_flags h AND TCP_FIN \<noteq> 0)) t0 io else (t0, io))"
  define r2 where "r2 = (if (body \<noteq> [] \<or> h_flags h AND TCP_FIN \<noteq> 0) \<and> tcp_can_take_data (fst r1)
    then tcp_got_data now (h_seq h) body (h_flags h AND TCP_FIN \<noteq> 0) (fst r1) (snd r1) else r1)"
  have n1: "\<not> saw_fin (fst r1)" by (rule no) (simp add: r1_def v0 frames)
  then have n2: "\<not> saw_fin (fst r2)"
    using saw_fin_got_data [of now "h_seq h" body "h_flags h AND TCP_FIN \<noteq> 0" "fst r1" "snd r1"] n
    unfolding r2_def by (simp only: split: if_split) blast
  have n3: "\<not> saw_fin (fst (tcp_push now (fst r2) (snd r2)))" using n2 saw_fin_view [OF rx_view_push] by blast
  have n4: "\<not> saw_fin (fst (tcp_send_ack (fst (tcp_push now (fst r2) (snd r2))) (snd (tcp_push now (fst r2) (snd r2)))))"
    using n3 saw_fin_view [OF rx_view_send(2)] by blast
  have n5: "\<not> saw_fin (fst (tcp_send_ctl f x t0 io))" "\<not> saw_fin (fst (tcp_set_closed 0 (fst (tcp_send_ctl f x t0 io)) iox))" for f x iox
    by (rule no, simp add: frames v0)+
  have "\<not> saw_fin (fst (tcp_segment_arrives now h body t io))"
    unfolding tcp_segment_arrives_def Let_def t0_def [symmetric] case_prod_unfold prod.collapse r1_def [symmetric] r2_def [symmetric]
    using n2 n3 n4 n5 by (simp only: split: if_split) auto
  then show False using assms by simp
qed

lemma own_step_saw_fin:
  assumes st: "own_step t io X R t' io'" and "io_out io = []" and "saw_fin t'"
  shows "saw_fin t"
  using own_step_rx_view [OF st assms(2)]
proof (elim disjE exE conjE)
  assume "rx_view t' = rx_view t"
  then show ?thesis using assms(3) saw_fin_view by blast
next
  fix len r assume r: "tcp_recv len False t io = (r, R, t', io')"
  have "saw_fin (fst (snd (snd (tcp_recv len False t io)))) = saw_fin t"
    by (simp add: tcp_recv_def Let_def tcp_send_ctl_def tcp_emit_fst case_prod_unfold)
  then show ?thesis using assms(3) by (simp add: r)
next
  fix h now assume "h_flags h AND TCP_FIN = 0" "tcp_segment_arrives now h [] t io = (t', io')"
  then show ?thesis using saw_fin_segment [of now h "[]" t io] assms(3) by simp
qed


text \<open>
  An end of a connection with its history: what its owner wrote and read, and the packets it
  sent, each with the number of bytes written at that moment.
\<close>

record endpoint =
  cb :: tcb
  wrote :: bytes
  got :: bytes
  emitted :: "(nat \<times> bytes) list"

definition packets :: "nat \<Rightarrow> tcp_io \<Rightarrow> (nat \<times> bytes) list" where
  "packets n io = map (\<lambda>(nb, src, dst). (n, netbuf_data nb)) (io_out io)"

text \<open>
  The network hands over any packet the peer sent, as often and in any order it likes, as long as
  the packet is not older than a gigabyte of the stream (\<open>w\<close> bytes written by now, \<open>n\<close> when it left)
  and the reader not further behind than that.
\<close>

definition in_time :: "nat \<Rightarrow> nat \<Rightarrow> nat \<Rightarrow> bool" where
  "in_time n w p \<longleftrightarrow> w \<le> n + 2 ^ 30 \<and> w \<le> p + 2 ^ 30"

inductive end_step :: "endpoint \<Rightarrow> endpoint \<Rightarrow> endpoint \<Rightarrow> bool" where
  own: "own_step (cb x) io X R t io' \<Longrightarrow> io_ok io \<Longrightarrow> io_out io = [] \<Longrightarrow>
    end_step y x \<lparr>cb = t, wrote = wrote x @ X, got = got x @ R,
      emitted = emitted x @ packets (length (wrote x @ X)) io'\<rparr>"
| delivery: "(n, p) \<in> set (emitted y) \<Longrightarrow> h_flags (tcp_hdr_of p) AND TCP_RST = 0 \<Longrightarrow>
    tcp_connected (cb x) \<Longrightarrow> in_time n (length (wrote y)) (length (got x) + unat (rx_len (cb x))) \<Longrightarrow>
    tcp_segment_arrives now (tcp_hdr_of p) (tcp_body p) (cb x) io = (t, io') \<Longrightarrow> io_ok io \<Longrightarrow> io_out io = [] \<Longrightarrow>
    end_step y x \<lparr>cb = t, wrote = wrote x, got = got x, emitted = emitted x @ packets (length (wrote x)) io'\<rparr>"

definition tx_fresh :: "u32 \<Rightarrow> tcb \<Rightarrow> bool" where
  "tx_fresh b t \<longleftrightarrow> length (tx t) = TCP_TX_BUF \<and> tx_start t = 0 \<and> tx_len t = 0 \<and> snd_una t = b \<and> snd_nxt t = b
     \<and> \<not> fin_sent t \<and> recovery t = TCP_RECOVERY_NONE \<and> t_error t \<le> 0"

inductive tcp_pair :: "u32 \<Rightarrow> u32 \<Rightarrow> endpoint \<Rightarrow> endpoint \<Rightarrow> bool" for b c where
  opened: "tx_fresh b t \<Longrightarrow> rx_fresh c t \<Longrightarrow> tx_fresh c u \<Longrightarrow> rx_fresh b u \<Longrightarrow>
    tcp_pair b c \<lparr>cb = t, wrote = [], got = [], emitted = []\<rparr> \<lparr>cb = u, wrote = [], got = [], emitted = []\<rparr>"
| left: "tcp_pair b c x y \<Longrightarrow> end_step y x x' \<Longrightarrow> tcp_pair b c x' y"
| right: "tcp_pair b c x y \<Longrightarrow> end_step x y y' \<Longrightarrow> tcp_pair b c x y'"

text \<open>One direction, from \<open>x\<close> to \<open>y\<close>.\<close>

definition stamped :: "u32 \<Rightarrow> bytes \<Rightarrow> bool \<Rightarrow> nat \<times> bytes \<Rightarrow> bool" where
  "stamped b T g s \<longleftrightarrow> fst s \<le> length T \<and> carries b (take (fst s) T) g (snd s)
     \<and> (h_flags (tcp_hdr_of (snd s)) AND TCP_FIN \<noteq> 0 \<longrightarrow> fst s = length T)"

definition flows :: "u32 \<Rightarrow> endpoint \<Rightarrow> endpoint \<Rightarrow> bool" where
  "flows b x y \<longleftrightarrow> (\<exists>u m. tx_inv b (wrote x) u m (cb x))
     \<and> (\<forall>s \<in> set (emitted x). stamped b (wrote x) (fin_wanted (cb x)) s)
     \<and> (\<exists>p. rx_inv b (wrote x) (length (got y)) p (cb y))
     \<and> got y = take (length (got y)) (wrote x) \<and> (saw_fin (cb y) \<longrightarrow> fin_wanted (cb x))"


lemma fin_kept_segment: "fin_wanted (fst (tcp_segment_arrives now h body t io)) = fin_wanted t"
proof -
  have "fin_wanted (fst (tcp_take_data now sq d fin u io)) = fin_wanted u" for sq d fin u io
    using tcp_take_data_tx [of now sq d fin u io] by (auto simp: tx_view_def)
  then have "fin_wanted (fst (tcp_got_data now sq d fin u io)) = fin_wanted u" for sq d fin u io
    by (simp add: tcp_got_data_def Let_def)
  then show ?thesis by (simp add: tcp_segment_arrives_def Let_def case_prod_unfold fin_kept)
qed

interpretation fwi: tcb_invariant "\<lambda>t io. fin_wanted t"
  by unfold_locales (simp_all add: case_prod_unfold fin_kept tcp_keepalive_def tcp_timeout_retry_def Let_def)

lemma own_step_fin_wanted:
  assumes "own_step t io X R t' io'" and "io_out io = []" and "t_error t \<le> 0" and "fin_wanted t"
  shows "fin_wanted t' \<and> X = []"
  using assms
proof (induction rule: own_step.induct)
  case (writes now buf t io r t' io')
  then show ?case by (auto simp: tcp_send_def split: if_splits)
next
  case (reads len t io r buf t' io')
  have "fin_wanted (fst (snd (snd (tcp_recv len False t io))))"
    using reads(4) by (simp add: tcp_recv_def Let_def fin_kept case_prod_unfold)
  then show ?case by (simp add: reads(1))
next
  case (peeks len t io r buf t' io')
  have "fin_wanted (fst (snd (snd (tcp_recv len True t io))))"
    using peeks(4) by (simp add: tcp_recv_def Let_def)
  then show ?case by (simp add: peeks(1))
next
  case (shuts now rd wr t io r t' io')
  have "fin_wanted (fst (snd (tcp_shutdown now rd wr t io)))"
    using shuts(4) by (simp add: tcp_shutdown_def Let_def fin_kept case_prod_unfold)
  then show ?case by (simp add: shuts(1))
next
  case (ticks tab i t now io tab' io' t')
  then show ?case using fwi.tick_one_keeps [OF _ ticks(2,3)] by simp
next
  case (detaches tab i t now abort io tab' io' t')
  then show ?case using fwi.detach_keeps [OF _ _ detaches(2,3)] by simp
next
  case (bare t h now io t' io')
  then show ?case using fin_kept_segment [of now h "[]" t io] by simp
next
  case (resets t sq io t' io')
  then show ?case using fin_kept_simple(7) [of _ t io] by (auto simp: tcp_reset_arrives_def Let_def tcp_set_closed_def split: if_splits)
qed

lemma rx_inv_grows:
  assumes "rx_inv b S d p t" and "\<not> saw_fin t"
  shows "rx_inv b (S @ X) d p t"
proof -
  from assms(1) obtain L where L: "ooo t = map (range_at b) L" "length L \<le> TCP_OOO_MAX"
    "spans_ok p (min (d + TCP_RX_BUF) (length S)) L" "stored S d t ({d..<p} \<union> covered L)" and pS: "p \<le> length S"
    unfolding rx_inv_def by blast
  have sp: "spans_ok p (min (d + TCP_RX_BUF) (length (S @ X))) L" by (rule spans_ok_mono [OF L(3)]) simp_all
  have "k < length S" if "k \<in> {d..<p} \<union> covered L" for k
    using that pS covered_bounds [OF L(3), of k] by auto
  then have "stored (S @ X) d t ({d..<p} \<union> covered L)"
    using L(4) unfolding stored_def by (simp add: nth_append)
  then show ?thesis using assms pS L(1,2) sp unfolding rx_inv_def by auto
qed

lemma genuine_take:
  assumes "genuine (take n T) q d fin" and "n \<le> length T" and "fin \<Longrightarrow> n = length T"
  shows "genuine T q d fin"
  using assms by (auto simp: genuine_def)

lemma stamped_grows:
  assumes "stamped b T g s" and "X \<noteq> [] \<Longrightarrow> \<not> g" and "g \<Longrightarrow> g'"
  shows "stamped b (T @ X) g' s"
  using assms by (cases "X = []") (auto simp: stamped_def carries_def)

lemma stamped_new:
  assumes "out_ok b T g io" and "s \<in> set (packets (length T) io)"
  shows "stamped b T g s"
  using assms by (auto simp: packets_def out_ok_def queued_ok_def stamped_def)


lemma flows_tx_ok: "flows b x y \<Longrightarrow> io_ok io \<Longrightarrow> io_out io = [] \<Longrightarrow> tx_ok b (wrote x) (cb x) io"
  unfolding flows_def tx_ok_def using out_ok_fresh by blast

lemma flows_sender:
  assumes f: "flows b x y" and st: "end_step y x x'"
  shows "flows b x' y"
  using st
proof cases
  case (own io X R t io')
  have ok: "tx_ok b (wrote x) (cb x) io" by (rule flows_tx_ok [OF f own(3,4)])
  then have ok': "tx_ok b (wrote x @ X) t io'" by (rule own_step_tx [OF own(2,4)])
  have err: "t_error (cb x) \<le> 0" using ok unfolding tx_ok_def tx_inv_def by blast
  note fin = own_step_fin_wanted [OF own(2,4) err]
  from f obtain p where p: "rx_inv b (wrote x) (length (got y)) p (cb y)" "got y = take (length (got y)) (wrote x)"
    "saw_fin (cb y) \<Longrightarrow> fin_wanted (cb x)" unfolding flows_def by blast
  have "rx_inv b (wrote x @ X) (length (got y)) p (cb y)"
    using p(1) rx_inv_grows [OF p(1)] fin p(3) by (cases "X = []") auto
  moreover have "take (length (got y)) (wrote x @ X) = take (length (got y)) (wrote x)"
    using rx_invD(4,6) [OF p(1)] by simp
  then have "got y = take (length (got y)) (wrote x @ X)" by (rule trans [OF p(2) sym])
  moreover have "stamped b (wrote x @ X) (fin_wanted t) s" if "s \<in> set (emitted x)" for s
    by (rule stamped_grows [of b "wrote x" "fin_wanted (cb x)"]) (use f that fin in \<open>auto simp: flows_def\<close>)
  moreover have "stamped b (wrote x @ X) (fin_wanted t) s" if "s \<in> set (packets (length (wrote x @ X)) io')" for s
    by (rule stamped_new [OF tx_ok_out [OF ok'] that])
  moreover have "\<exists>u m. tx_inv b (wrote x @ X) u m t" using ok' unfolding tx_ok_def by blast
  ultimately show ?thesis using fin p(3) unfolding own(1) flows_def by auto
next
  case (delivery n p now io t io')
  have ok: "tx_ok b (wrote x) (cb x) io" by (rule flows_tx_ok [OF f delivery(7,8)])
  have ok': "tx_ok b (wrote x) t io'" using tx_ok_segment [OF ok, of now "tcp_hdr_of p" "tcp_body p"] delivery(6) by simp
  have "fin_wanted t = fin_wanted (cb x)" using fin_kept_segment [of now "tcp_hdr_of p" "tcp_body p" "cb x" io] delivery(6) by simp
  moreover have "\<exists>u m. tx_inv b (wrote x) u m t" using ok' unfolding tx_ok_def by blast
  moreover note stamped_new [OF tx_ok_out [OF ok']]
  ultimately show ?thesis using f unfolding delivery(1) flows_def by auto
qed

lemma stamped_genuine:
  assumes "stamped b T g (n, p)" and "in_time n (length T) r" and "r \<le> length T"
  shows "seg_genuine b T r (tcp_hdr_of p) (tcp_body p)"
  unfolding seg_genuine_def
proof
  assume "tcp_body p \<noteq> [] \<or> h_flags (tcp_hdr_of p) AND TCP_FIN \<noteq> 0"
  then obtain q where q: "h_seq (tcp_hdr_of p) = seq_at b q" "length (take n T) \<le> q + TCP_TX_BUF"
    "genuine (take n T) q (tcp_body p) (h_flags (tcp_hdr_of p) AND TCP_FIN \<noteq> 0)"
    using assms(1) unfolding stamped_def carries_def fst_conv snd_conv by blast
  have n: "n \<le> length T" using assms(1) by (simp add: stamped_def)
  have "genuine T q (tcp_body p) (h_flags (tcp_hdr_of p) AND TCP_FIN \<noteq> 0)"
    by (rule genuine_take [OF q(3) n]) (use assms(1) in \<open>simp add: stamped_def\<close>)
  moreover have "q \<le> n" using q(3) n by (simp add: genuine_def)
  then have "\<bar>int q - int r\<bar> < 2 ^ 31 - 1" using assms(2,3) q(2) n by (auto simp: in_time_def abs_if)
  ultimately show "\<exists>q. h_seq (tcp_hdr_of p) = seq_at b q \<and> genuine T q (tcp_body p) (h_flags (tcp_hdr_of p) AND TCP_FIN \<noteq> 0)
      \<and> \<bar>int q - int r\<bar> < 2 ^ 31 - 1" using q(1) by blast
qed

lemma flows_receiver:
  assumes f: "flows b x y" and st: "end_step x y y'"
  shows "flows b x y'"
proof -
  from f obtain p where p: "rx_inv b (wrote x) (length (got y)) p (cb y)" "got y = take (length (got y)) (wrote x)"
    "saw_fin (cb y) \<Longrightarrow> fin_wanted (cb x)" unfolding flows_def by blast
  show ?thesis
    using st
  proof cases
    case (own io X R t io')
    from own_step_rx [OF own(2,4) p(1)] obtain p' where
      p': "rx_inv b (wrote x) (length (got y) + length R) p' t" "R = take (length R) (drop (length (got y)) (wrote x))" by blast
    have "got y @ R = take (length (got y)) (wrote x) @ take (length R) (drop (length (got y)) (wrote x))" using p(2) p'(2) by metis
    then have "got y @ R = take (length (got y) + length R) (wrote x)" unfolding take_add .
    moreover have "saw_fin t \<Longrightarrow> fin_wanted (cb x)" using own_step_saw_fin [OF own(2,4)] p(3) by blast
    ultimately show ?thesis using f p'(1) unfolding own(1) flows_def endpoint.simps length_append by blast
  next
    case (delivery n q now io t io')
    have st: "stamped b (wrote x) (fin_wanted (cb x)) (n, q)" using f delivery(2) unfolding flows_def by blast
    have r: "length (got y) + unat (rx_len (cb y)) = p" using rx_invD(3,4) [OF p(1)] by simp
    have "seg_genuine b (wrote x) p (tcp_hdr_of q) (tcp_body q)"
      using stamped_genuine [OF st delivery(5) [unfolded r] rx_invD(6) [OF p(1)]] .
    from tcp_segment_arrives_rx [OF p(1) this, of now io] delivery(6) obtain p' where
      "rx_inv b (wrote x) (length (got y)) p' t" by auto
    moreover have "saw_fin t \<Longrightarrow> fin_wanted (cb x)"
      using saw_fin_segment [of now "tcp_hdr_of q" "tcp_body q" "cb y" io] delivery(6) p(3) st
      by (auto simp: stamped_def carries_def)
    ultimately show ?thesis using f p(2) unfolding delivery(1) flows_def endpoint.simps by blast
  qed
qed

lemma tcp_pair_flows: "tcp_pair b c x y \<Longrightarrow> flows b x y \<and> flows c y x"
proof (induction rule: tcp_pair.induct)
  case (opened t u)
  have "\<exists>p q. tx_inv d [] p q v" if "tx_fresh d v" for d v
    using that by (intro exI [of _ 0]) (auto simp: tx_fresh_def tx_inv_def)
  moreover have "\<not> saw_fin v" if "rx_fresh d v" for d v using that by (simp add: rx_fresh_def)
  ultimately show ?case using opened rx_fresh_inv by (fastforce simp: flows_def)
qed (use flows_sender flows_receiver in blast)+


text \<open>C1. Whatever two connected ends do, and whatever the network between them loses, repeats or reorders,
  what one end has read is a prefix of what the other end wrote, byte for byte; and an end that is told
  of the end of the stream with nothing left to read has read all of it, and the peer did close. Resets,
  acknowledgements and window updates may be forged by anyone. Data is only required to come from the peer
  and not to be older than a gigabyte of the stream.\<close>

theorem tcp_stream_exact:
  assumes "tcp_pair b c x y"
  shows "got y = take (length (got y)) (wrote x) \<and> got x = take (length (got x)) (wrote y)
    \<and> (peer_fin (cb y) \<and> rx_len (cb y) = 0 \<longrightarrow> got y = wrote x \<and> fin_wanted (cb x))
    \<and> (peer_fin (cb x) \<and> rx_len (cb x) = 0 \<longrightarrow> got x = wrote y \<and> fin_wanted (cb y))"
proof -
  have "got v = take (length (got v)) (wrote u) \<and> (peer_fin (cb v) \<and> rx_len (cb v) = 0 \<longrightarrow> got v = wrote u \<and> fin_wanted (cb u))"
    if f: "flows d u v" for d u v
  proof -
    from f obtain p where p: "rx_inv d (wrote u) (length (got v)) p (cb v)" "got v = take (length (got v)) (wrote u)"
      "saw_fin (cb v) \<Longrightarrow> fin_wanted (cb u)" unfolding flows_def by blast
    have "length (got v) = length (wrote u)" if "peer_fin (cb v)" "rx_len (cb v) = 0"
      using that rx_invD(3,4) [OF p(1)] p(1) by (auto simp: rx_inv_def)
    then show ?thesis using p(2,3) by (metis take_all order_refl)
  qed
  then show ?thesis using tcp_pair_flows [OF assms] by blast
qed

text \<open>A run: two bytes are written, delivered and read.\<close>

definition stream_demo :: "u32 \<Rightarrow> u32 \<Rightarrow> bytes \<Rightarrow> bytes \<Rightarrow> tcb" where
  "stream_demo b c R W = blank_tcb\<lparr>t_state := TCP_ESTABLISHED, was_connected := True, local_ip := b, remote_ip := c,
     local_port := 80, remote_port := 80, snd_una := b, snd_nxt := b, rcv_nxt := c, snd_wnd := 1000, cwnd := 5360,
     rx := R, tx := W\<rparr>"

abbreviation stream_demo_io :: tcp_io where
  "stream_demo_io \<equiv> \<lparr>io_mem = [Some (replicate NETBUF_SIZE 0)], io_out = [], io_wake = [], io_fault = False\<rparr>"

lemma stream_demo_send:
  assumes "length W = TCP_TX_BUF"
  shows "\<exists>nb t' io'. tcp_send 5 [65, 66] (stream_demo 1 2 R W) stream_demo_io = (2, t', io') \<and> io_out io' = [(nb, 1, 2)]
    \<and> netbuf_data nb = tcp_packet 1 2 80 80 1 2 24 65535 [] [65, 66]"
proof -
  have W: "ring_get (ring_put W 0 [65, 66]) 0 2 = [65, 66]"
   using ring_slice_put [of 0 W 0 "[65, 66]"] assms by (simp add: ring_get_slice numeral_2_eq_2)
  obtain nb where nb: "tcp_segment 1 2 80 80 1 2 24 65535 (Some ((stream_demo 1 2 R W)\<lparr>tx := ring_put W 0 [65, 66], tx_len := 2, rcv_adv := 65537, rtt_at := 5, rtt_seq := 1\<rparr>)) 0 2 [] stream_demo_io
    = stream_demo_io\<lparr>io_mem := [], io_out := [(nb, 1, 2)]\<rparr>" "netbuf_data nb = tcp_packet 1 2 80 80 1 2 24 65535 [] [65, 66]"
    using tcp_segment_sent [of stream_demo_io "replicate NETBUF_SIZE 0" "[]" "[]" "[65, 66]" "Some ((stream_demo 1 2 R W)\<lparr>tx := ring_put W 0 [65, 66], tx_len := 2, rcv_adv := 65537, rtt_at := 5, rtt_seq := 1\<rparr>)" 0 2 1 2 80 80 1 2 24 65535]
      W by (auto simp: tcp_tx_bytes_def stream_demo_def blank_tcb_def)
  show ?thesis
    using nb [unfolded stream_demo_def blank_tcb_def]
    by (simp add: tcp_send_def stream_demo_def blank_tcb_def tcp_push_def tcp_push_recovery_def tcp_push_loop.simps tcp_push_size_def tcp_push_one_def tcp_emit_def tcp_rcv_window_def
      tcp_arm_rto_def Let_def)
qed


lemma stream_demo_receive:
  assumes "length R = TCP_RX_BUF" "p = tcp_packet 1 2 80 80 1 2 24 65535 [] [65, 66]"
  shows "\<exists>t' io'. tcp_segment_arrives 6 (tcp_hdr_of p) (tcp_body p) (stream_demo 2 1 R W) stream_demo_io = (t', io') \<and>
    rx t' = ring_put R 0 [65, 66] \<and> rx_len t' = 2 \<and> rx_start t' = 0"
  unfolding assms(2) tcp_hdr_packet tcp_body_packet [OF opts_ok_simps(1)]
  by (simp add: stream_demo_def blank_tcb_def tcp_segment_arrives_def tcp_got_ack_def SEQ_LT_def SEQ_LEQ_def
      tcp_got_data_def tcp_take_data_def tcp_store_data_def tcp_count_data_def tcp_ooo_settle_def tcp_fin_reached_def tcp_can_take_data_def
      tcp_push_def tcp_push_recovery_def tcp_push_loop.simps tcp_send_ack_def tcp_emit_def tcp_rcv_window_def sched_wake_def Let_def)

lemma stream_demo_read:
  assumes "length R = TCP_RX_BUF" "rx t = ring_put R 0 [65, 66]" "rx_len t = 2" "rx_start t = 0"
  shows "\<exists>r t' io'. tcp_recv 10 False t stream_demo_io = (r, [65, 66], t', io') \<and> rx_len t' = 0"
proof -
  have "ring_get (ring_put R 0 [65, 66]) 0 2 = [65, 66]"
   using ring_slice_put [of 0 R 0 "[65, 66]"] assms(1) by (simp add: ring_get_slice numeral_2_eq_2)
  then show ?thesis using assms(2-4) by (simp add: tcp_recv_def Let_def tcp_send_ctl_def tcp_emit_def case_prod_unfold)
qed


theorem tcp_stream_exact_witness:
  "\<exists>x y. tcp_pair 1 2 x y \<and> wrote x = [65, 66] \<and> got y = take (length (got y)) (wrote x) \<and> length (got y) = 2"
proof -
  define R W where "R = replicate TCP_RX_BUF (0 :: u8)" and "W = replicate TCP_TX_BUF (0 :: u8)"
  have len: "length R = TCP_RX_BUF" "length W = TCP_TX_BUF" by (simp_all add: R_def W_def)
  have io: "io_ok stream_demo_io" "io_out stream_demo_io = []" by (simp_all add: io_ok_def)
  define y0 where "y0 = \<lparr>cb = stream_demo 2 1 R W, wrote = [], got = [], emitted = []\<rparr>"
  have "tcp_pair 1 2 \<lparr>cb = stream_demo 1 2 R W, wrote = [], got = [], emitted = []\<rparr> y0"
    unfolding y0_def by (rule tcp_pair.opened) (simp_all add: tx_fresh_def rx_fresh_def stream_demo_def blank_tcb_def len)
  note 0 = this
  obtain nb t io1 where s: "tcp_send 5 [65, 66] (stream_demo 1 2 R W) stream_demo_io = (2, t, io1)" "io_out io1 = [(nb, 1, 2)]"
    "netbuf_data nb = tcp_packet 1 2 80 80 1 2 24 65535 [] [65, 66]" using stream_demo_send [OF len(2)] by blast
  define p where "p = tcp_packet 1 2 80 80 1 2 24 65535 [] [65, 66]"
  define x1 where "x1 = \<lparr>cb = t, wrote = [65, 66], got = [], emitted = [(2, p)]\<rparr>"
  have "end_step y0 \<lparr>cb = stream_demo 1 2 R W, wrote = [], got = [], emitted = []\<rparr> x1"
    using end_step.own [OF own_step.writes io, of 5 "[65, 66]" "\<lparr>cb = stream_demo 1 2 R W, wrote = [], got = [], emitted = []\<rparr>" 2 t io1 y0] s
    by (simp add: x1_def packets_def p_def numeral_2_eq_2)
  then have 1: "tcp_pair 1 2 x1 y0" by (rule tcp_pair.left [OF 0])
  obtain u io2 where r: "tcp_segment_arrives 6 (tcp_hdr_of p) (tcp_body p) (stream_demo 2 1 R W) stream_demo_io = (u, io2)"
    "rx u = ring_put R 0 [65, 66]" "rx_len u = 2" "rx_start u = 0" using stream_demo_receive [OF len(1) p_def] by blast
  define y1 where "y1 = \<lparr>cb = u, wrote = [], got = [], emitted = packets 0 io2\<rparr>"
  have "end_step x1 y0 y1"
    using end_step.delivery [of 2 p x1 y0 6 stream_demo_io u io2] r(1) io
    by (simp add: y0_def y1_def x1_def in_time_def tcp_connected_def stream_demo_def blank_tcb_def p_def tcp_hdr_packet)
  then have 2: "tcp_pair 1 2 x1 y1" by (rule tcp_pair.right [OF 1])
  obtain n v io3 where g: "tcp_recv 10 False u stream_demo_io = (n, [65, 66], v, io3)" using stream_demo_read [OF len(1) r(2-4)] by blast
  define y2 where "y2 = \<lparr>cb = v, wrote = [], got = [65, 66], emitted = emitted y1 @ packets 0 io3\<rparr>"
  have "end_step x1 y1 y2"
    using end_step.own [OF own_step.reads io, of 10 y1 n "[65, 66]" v io3 x1] g by (simp add: y1_def y2_def)
  then have 3: "tcp_pair 1 2 x1 y2" by (rule tcp_pair.right [OF 2])
  have "got y2 = take (length (got y2)) (wrote x1)" using tcp_stream_exact [OF 3] by blast
  then show ?thesis using 3 by (intro exI [of _ x1] exI [of _ y2]) (simp add: x1_def y2_def)
qed

end
