(* ===== verification/Tcplife.thy ===== *)
theory Tcplife
  imports Tcpstream
begin

text \<open>
  A connection block over its whole life, with segments that say anything at all: the rings are
  never left, the timers stay in their range, and the arithmetic of the congestion window faults
  only for a peer that announced segments of size zero.
\<close>

section \<open>The receive side against any peer\<close>

text \<open>
  Blocks behind a hole lie apart, in order, and inside the ring; the numbers are positions from
  an arbitrary origin \<open>b\<close>.
\<close>

definition blocks_ok :: "u32 \<Rightarrow> u32 \<Rightarrow> tcp_range list \<Rightarrow> bool" where
  "blocks_ok nxt len rs \<longleftrightarrow> (\<exists>b p L. nxt = seq_at b p \<and> rs = map (range_at b) L
     \<and> spans_ok p (p + (TCP_RX_BUF - unat len)) L)"

definition rx_shape :: "tcb \<Rightarrow> bool" where
  "rx_shape t \<longleftrightarrow> unat (rx_start t) < TCP_RX_BUF \<and> unat (rx_len t) \<le> TCP_RX_BUF \<and> length (ooo t) \<le> TCP_OOO_MAX
     \<and> (\<not> peer_fin t \<longrightarrow> blocks_ok (rcv_nxt t) (rx_len t) (ooo t))"

lemma rx_shape_view: "rx_view t' = rx_view t \<Longrightarrow> rx_shape t' = rx_shape t"
  by (simp add: rx_shape_def rx_view_def)

lemma rx_shape_empty: "ooo t = [] \<Longrightarrow> unat (rx_start t) < TCP_RX_BUF \<Longrightarrow> unat (rx_len t) \<le> TCP_RX_BUF \<Longrightarrow> rx_shape t"
  unfolding rx_shape_def blocks_ok_def
  by (intro conjI impI exI [of _ "rcv_nxt t"] exI [of _ "0 :: nat"] exI [of _ "[] :: span list"]) simp_all

lemma rx_shape_count:
  assumes sh: "rx_shape t" and nf: "\<not> peer_fin t" and room: "room = of_nat TCP_RX_BUF - rx_len t"
    and off: "off = 0 \<or> off < room" "sq = rcv_nxt t + off" and tk: "tk \<le> room - off"
  shows "rx_shape (tcp_count_data sq off tk t) \<and> \<not> peer_fin (tcp_count_data sq off tk t)"
proof -
  from sh nf obtain b p L where L: "rcv_nxt t = seq_at b p" "ooo t = map (range_at b) L"
    "spans_ok p (p + (TCP_RX_BUF - unat (rx_len t))) L" and lens: "unat (rx_start t) < TCP_RX_BUF" "unat (rx_len t) \<le> TCP_RX_BUF"
    "length L \<le> TCP_OOO_MAX" unfolding rx_shape_def blocks_ok_def by (metis length_map)
  define hi where "hi = p + (TCP_RX_BUF - unat (rx_len t))"
  note ok = L(3) [folded hi_def]
  have ur: "unat room = TCP_RX_BUF - unat (rx_len t)" using lens(2) by (simp add: room unat_minus_small)
  have uo: "unat off \<le> unat room" using off(1) by (auto simp: word_less_nat_alt)
  then have ut: "unat tk \<le> unat room - unat off" using tk by (simp add: word_le_nat_alt unat_minus_small)
  have near: "near p (X \<union> ends L)" if "\<forall>x \<in> X. p \<le> x \<and> x \<le> hi" for X
    using that spans_ok_above [OF ok] by (fastforce simp: near_def ends_def hi_def)
  show ?thesis
  proof (cases "off = 0")
    case False
    define q where "q = p + unat off"
    have sq: "sq = seq_at b q" using L(1) off(2) by (simp add: q_def)
    have q: "p < q" "q + unat tk \<le> hi" using False uo ut ur by (simp_all add: q_def hi_def unat_gt_0)
    have e: "sq + tk = seq_at b (q + unat tk)" using sq by simp
    have "near p ({q, q + unat tk} \<union> ends L)" by (rule near) (use q in auto)
    from ooo_insert_at [OF this, of b] have o: "ooo_insert sq (sq + tk) (ooo t) = map (range_at b) (span_insert q (q + unat tk) L)"
      unfolding e unfolding sq L(2) .
    have "blocks_ok (rcv_nxt t) (rx_len t) (ooo_insert sq (sq + tk) (ooo t)) \<and> length (ooo_insert sq (sq + tk) (ooo t)) \<le> TCP_OOO_MAX"
      if "tk \<noteq> 0"
    proof -
      have "spans_ok p hi (span_insert q (q + unat tk) L)" "length (span_insert q (q + unat tk) L) \<le> TCP_OOO_MAX"
        using span_insert_ok [OF ok q(1) _ q(2) lens(3)] that by (auto simp: unat_gt_0)
      then show ?thesis unfolding blocks_ok_def o hi_def using L(1)
        by (intro conjI exI [of _ b] exI [of _ p] exI [of _ "span_insert q (q + unat tk) L"]) (assumption | simp)+
    qed
    then show ?thesis using False sh nf by (auto simp: tcp_count_data_def tcp_ooo_add_def rx_shape_def)
  next
    case True
    define n1 where "n1 = snd (span_settle L (p + unat tk))"
    have n: "p \<le> p + unat tk" "p + unat tk \<le> hi" using True ut ur by (simp_all add: hi_def)
    obtain ys where ss: "span_settle L (p + unat tk) = (ys, n1)" by (metis n1_def prod.collapse)
    from span_settle_ok [OF ok n ss] have s: "p + unat tk \<le> n1" "n1 \<le> hi" "spans_ok n1 hi ys" "length ys \<le> length L" by blast+
    have "near p ({p + unat tk} \<union> ends L)" by (rule near) (use n in auto)
    from ooo_settle_at [OF this, of b "rx_len t + tk"]
    have o: "ooo_settle (ooo t) (rcv_nxt t + tk) (rx_len t + tk) =
        (map (range_at b) ys, seq_at b n1, rx_len t + tk + of_nat (n1 - (p + unat tk)))"
      unfolding L(2) ss L(1) by (simp add: add.assoc)
    have "unat (rx_len t + tk) = unat (rx_len t) + unat tk" using ut ur lens(2) True by (simp add: unat_plus_small)
    moreover have "unat (of_nat (n1 - (p + unat tk)) :: u32) = n1 - (p + unat tk)"
      by (rule unat_of_nat_small) (use s(2) in \<open>simp add: hi_def\<close>)
    moreover define len2 where "len2 = rx_len t + tk + of_nat (n1 - (p + unat tk))"
    ultimately have l2: "unat len2 = unat (rx_len t) + (n1 - p)"
      unfolding len2_def using s(1,2) lens(2) by (subst unat_plus_small) (simp_all add: hi_def)
    then have sp: "spans_ok n1 (n1 + (TCP_RX_BUF - unat len2)) ys" "unat len2 \<le> TCP_RX_BUF"
      using s(1,2) lens(2) spans_ok_mono [OF s(3) order_refl] by (simp_all add: hi_def)
    have v: "tcp_count_data sq off tk t = t\<lparr>ooo := map (range_at b) ys, rcv_nxt := seq_at b n1, rx_len := len2\<rparr>"
      using True o by (simp add: tcp_count_data_def tcp_ooo_settle_def len2_def)
    have "blocks_ok (seq_at b n1) len2 (map (range_at b) ys)" using sp(1) unfolding blocks_ok_def by blast
    then show ?thesis unfolding v using nf lens sp(2) s(4) by (simp add: rx_shape_def)
  qed
qed


lemma rx_shape_take_data:
  assumes sh: "rx_shape t" and len: "length (rx t) = TCP_RX_BUF" and t': "t' = fst (tcp_take_data now sq data fin t io)"
  shows "rx_shape t' \<and> length (rx t') = TCP_RX_BUF"
proof -
  define off room where "off = sq - rcv_nxt t" and "room = of_nat TCP_RX_BUF - rx_len t"
  define tk where "tk = (if length data < unat (room - off) then of_nat (length data) else room - off)"
  define u where "u = tcp_store_data sq off data tk fin t"
  show ?thesis
  proof (cases "peer_fin t \<or> off \<noteq> 0 \<and> off \<ge> room")
    case True
    then have "t' = t" unfolding t' tcp_take_data_def Let_def off_def [symmetric] room_def [symmetric] by simp
    then show ?thesis using sh len by simp
  next
    case False
    then have nf: "\<not> peer_fin t" and off: "off = 0 \<or> off < room" by auto
    have ur: "unat room \<le> TCP_RX_BUF" using sh by (simp add: room_def rx_shape_def unat_minus_small)
    have "length data < 2 ^ 32" if "length data < unat (room - off)" using that unat_u32 [of "room - off"] by simp
    then have tk: "tk \<le> room - off" by (auto simp: tk_def word_le_nat_alt unat_of_nat_small)
    have "unat (room - off) \<le> unat room" using off by (auto simp: unat_minus_small word_less_nat_alt)
    then have "unat tk \<le> TCP_RX_BUF" using tk ur by (simp add: word_le_nat_alt)
    then have lu: "length (rx u) = TCP_RX_BUF"
      using len by (simp add: u_def tcp_store_data_def Let_def unat_mod)
    have u: "rx_shape u" "\<not> peer_fin u" "rcv_nxt u = rcv_nxt t" "rx_len u = rx_len t"
      using sh nf by (simp_all add: u_def rx_shape_def tcp_store_data_def Let_def)
    have "room = of_nat TCP_RX_BUF - rx_len u" "sq = rcv_nxt u + off" unfolding u(3,4) by (simp_all add: room_def off_def)
    note w = rx_shape_count [OF u(1,2) this(1) off this(2) tk]
    define v where "v = tcp_count_data sq off tk u"
    have "rx v = rx u" by (simp add: v_def tcp_count_data_def tcp_ooo_add_def tcp_ooo_settle_def case_prod_unfold)
    then have "rx_shape (tcp_fin_reached now v) \<and> length (rx (tcp_fin_reached now v)) = TCP_RX_BUF"
      using w lu unfolding v_def [symmetric] by (simp add: tcp_fin_reached_def rx_shape_def Let_def)
    moreover have "t' = tcp_fin_reached now v"
      using False unfolding t' tcp_take_data_def Let_def off_def [symmetric] room_def [symmetric] tk_def [symmetric] u_def [symmetric] v_def [symmetric]
      by (simp only: if_False fst_conv)
    ultimately show ?thesis by simp
  qed
qed

lemma rx_shape_got_data:
  assumes "rx_shape t" and "length (rx t) = TCP_RX_BUF"
  shows "rx_shape (fst (tcp_got_data now sq data fin t io)) \<and> length (rx (fst (tcp_got_data now sq data fin t io))) = TCP_RX_BUF"
  using assms rx_shape_take_data [OF assms refl] by (simp add: tcp_got_data_def Let_def)

lemma rx_shape_read:
  assumes "rx_shape t" and "unat n \<le> unat (rx_len t)"
  shows "rx_shape (t\<lparr>rx_start := (rx_start t + n) mod of_nat TCP_RX_BUF, rx_len := rx_len t - n\<rparr>)"
proof -
  have l: "unat (rx_len t - n) = unat (rx_len t) - unat n" using assms(2) by (simp add: unat_minus_small)
  have "spans_ok p (p + (TCP_RX_BUF - unat (rx_len t - n))) L" if "spans_ok p (p + (TCP_RX_BUF - unat (rx_len t))) L" for p L
    by (rule spans_ok_mono [OF that]) (use l in simp_all)
  then have "blocks_ok nxt (rx_len t - n) rs" if "blocks_ok nxt (rx_len t) rs" for nxt rs using that unfolding blocks_ok_def by blast
  then show ?thesis using assms(1) l unfolding rx_shape_def by (auto simp: unat_mod)
qed


section \<open>Well-formed connection blocks\<close>

definition tcb_wf :: "tcb \<Rightarrow> bool" where
  "tcb_wf t \<longleftrightarrow> rx_shape t \<and> unat (tx_start t) < TCP_TX_BUF \<and> unat (tx_len t) \<le> TCP_TX_BUF
     \<and> (tcp_connected t \<or> t_state t = TCP_SYN_SENT \<longrightarrow> length (rx t) = TCP_RX_BUF \<and> length (tx t) = TCP_TX_BUF)
     \<and> TCP_RTO_MIN_MS \<le> rto_base t \<and> rto_base t \<le> TCP_RTO_MAX_MS
     \<and> TCP_RTO_MIN_MS \<le> rto_ms t \<and> rto_ms t \<le> TCP_RTO_MAX_MS
     \<and> snd_shift t \<le> 14 \<and> mss t \<le> TCP_MSS
     \<and> (\<not> was_connected t \<longrightarrow> ooo t = [] \<and> rx_len t = 0 \<and> \<not> peer_fin t)
     \<and> (tcp_connected t \<longrightarrow> was_connected t) \<and> (t_state t = TCP_SYN_SENT \<longrightarrow> \<not> was_connected t)
     \<and> (tcp_connected t \<or> t_state t = TCP_SYN_RCVD \<longrightarrow> 0 < mss t \<longrightarrow> 0 < ssthresh t)"

definition wf_view :: "tcb \<Rightarrow> (bytes \<times> u32 \<times> u32 \<times> u32 \<times> bool \<times> tcp_range list) \<times> (bytes \<times> u32 \<times> u32) \<times> u32 \<times> u32 \<times> u8 \<times> u16 \<times> u32 \<times> bool" where
  "wf_view t = ((rx t, rx_start t, rx_len t, rcv_nxt t, peer_fin t, ooo t), (tx t, tx_start t, tx_len t),
     rto_base t, rto_ms t, snd_shift t, mss t, ssthresh t, was_connected t)"

lemma tcb_wf_view:
  assumes "wf_view t' = wf_view t" and "tcb_wf t"
    and "t_state t' = t_state t \<or> tcp_connected t \<and> tcp_connected t' \<or> t_state t' = TCP_CLOSED"
  shows "tcb_wf t'"
proof -
  have eq: "rx t' = rx t" "rx_start t' = rx_start t" "rx_len t' = rx_len t" "rcv_nxt t' = rcv_nxt t" "peer_fin t' = peer_fin t"
    "ooo t' = ooo t" "tx t' = tx t" "tx_start t' = tx_start t" "tx_len t' = tx_len t" "rto_base t' = rto_base t"
    "rto_ms t' = rto_ms t" "snd_shift t' = snd_shift t" "mss t' = mss t" "ssthresh t' = ssthresh t" "was_connected t' = was_connected t"
    using assms(1) by (simp_all add: wf_view_def)
  have "tcp_connected t' \<Longrightarrow> tcp_connected t" "t_state t' = TCP_SYN_SENT \<Longrightarrow> t_state t = TCP_SYN_SENT"
    "t_state t' = TCP_SYN_RCVD \<Longrightarrow> t_state t = TCP_SYN_RCVD"
    using assms(3) by (auto simp: tcp_connected_def)
  then show ?thesis using assms(2) unfolding tcb_wf_def rx_shape_def eq by blast
qed

named_theorems wf_frames \<open>what operations leave unchanged of a well-formed block\<close>

lemma wf_view_simple [wf_frames]:
  "wf_view (tcp_arm_rto now t) = wf_view t" "wf_view (fst (tcp_emit flags sq off len opts t io)) = wf_view t"
  "wf_view (fst (tcp_send_ctl flags sq t io)) = wf_view t" "wf_view (fst (tcp_send_ack t io)) = wf_view t"
  "wf_view (fst (tcp_send_syn t io)) = wf_view t" "wf_view (fst (tcp_set_closed err t io)) = wf_view t"
  by (simp_all add: tcp_arm_rto_def tcp_emit_fst tcp_send_ctl_def tcp_send_ack_def tcp_send_syn_def tcp_set_closed_def wf_view_def)

lemma wf_view_resend [wf_frames]: "wf_view (fst (snd (tcp_resend sq t io))) = wf_view t"
  using tcp_resend_tcb [of sq t io] by (auto simp: wf_view_def)

lemma wf_view_rtx_loop [wf_frames]: "wf_view (fst (tcp_rtx_loop t io)) = wf_view t"
proof (rule tcp_rtx_loop_keeps [where P = "\<lambda>u io. wf_view u = wf_view t"], goal_cases)
  case (2 u io n t1 io1)
  then show ?case using wf_view_resend [of "rtx_nxt u" u io] by (simp add: wf_view_def)
qed simp

lemma wf_view_push_one [wf_frames]: "wf_view (fst (tcp_push_one now sent n t io)) = wf_view t"
  by (simp add: tcp_push_one_def Let_def case_prod_unfold wf_frames) (simp add: wf_view_def tcp_emit_fst)

lemma wf_view_push_loop [wf_frames]: "wf_view (fst (snd (tcp_push_loop now wnd sent t io))) = wf_view t"
proof -
  have "case tcp_push_loop now wnd sent t io of (sent1, t1, io1) \<Rightarrow> wf_view t1 = wf_view t"
  proof (rule tcp_push_loop_keeps, goal_cases)
    case (3 sent n u io t1 io1)
    then show ?case using wf_view_push_one [of now sent n u io] by simp
  qed simp_all
  then show ?thesis by (simp add: case_prod_unfold)
qed

lemma wf_view_push_recovery [wf_frames]: "wf_view (fst (tcp_push_recovery t io)) = wf_view t"
proof -
  have "wf_view (t\<lparr>rtx_one := v\<rparr>) = wf_view t" "wf_view (t\<lparr>rtx_nxt := w\<rparr>) = wf_view t" for v w
    by (simp_all add: wf_view_def)
  then show ?thesis by (simp add: tcp_push_recovery_def wf_frames split: tcp_recovery_t.splits)
qed

lemma wf_view_push [wf_frames]: "wf_view (fst (tcp_push now t io)) = wf_view t"
proof -
  have "wf_view (u\<lparr>snd_nxt := a, fin_sent := b, t_state := c\<rparr>) = wf_view u" for u a b c by (simp add: wf_view_def)
  then show ?thesis by (simp add: tcp_push_def Let_def case_prod_unfold wf_frames)
qed

text \<open>The state a push leaves.\<close>

lemma tcp_push_state:
  "t_state (fst (tcp_push now t io)) = t_state t \<or> tcp_connected t \<and> tcp_connected (fst (tcp_push now t io))"
proof -
  have r: "t_state (fst (tcp_push_recovery t io)) = t_state t"
  proof -
    have "t_state (fst (tcp_rtx_loop u io)) = t_state u" for u
    proof (rule tcp_rtx_loop_keeps [where P = "\<lambda>v io. t_state v = t_state u"], goal_cases)
      case (2 v io n t1 io1)
      then show ?case using tcp_resend_tcb [of "rtx_nxt v" v io] by auto
    qed simp
    moreover have "t_state (fst (snd (tcp_resend sq u io))) = t_state u" for sq u using tcp_resend_tcb [of sq u io] by auto
    ultimately show ?thesis by (simp add: tcp_push_recovery_def split: tcp_recovery_t.splits)
  qed
  have l: "t_state (fst (snd (tcp_push_loop now wnd sent u io))) = t_state u" for wnd sent u io
  proof -
    have "case tcp_push_loop now wnd sent u io of (sent1, t1, io1) \<Rightarrow> t_state t1 = t_state u"
    proof (rule tcp_push_loop_keeps, goal_cases)
      case (3 sent n v io t1 io1)
      moreover have "t_state (fst (tcp_push_one now sent n v io)) = t_state v"
        by (simp add: tcp_push_one_def Let_def case_prod_unfold tcp_arm_rto_def tcp_emit_fst)
      ultimately show ?case by simp
    qed simp_all
    then show ?thesis by (simp add: case_prod_unfold)
  qed
  have a: "t_state (tcp_arm_rto now u) = t_state u" for u by (simp add: tcp_arm_rto_def)
  define t1 io1 where "t1 = fst (tcp_push_recovery t io)" and "io1 = snd (tcp_push_recovery t io)"
  have t1: "t_state t1 = t_state t" using r by (simp add: t1_def)
  show ?thesis
  proof (cases "t_state t1 \<noteq> TCP_ESTABLISHED \<and> t_state t1 \<noteq> TCP_CLOSE_WAIT")
    case True
    then show ?thesis using t1 by (simp add: tcp_push_def t1_def case_prod_unfold)
  next
    case False
    define p where "p = tcp_push_loop now (if snd_wnd t1 < cwnd t1 then snd_wnd t1 else cwnd t1) (snd_nxt t1 - snd_una t1) t1 io1"
    define u where "u = fst (snd p)"
    define r3 where "r3 = (if fin_wanted u \<and> \<not> fin_sent u \<and> fst p = tx_len u then
        let (v, iv) = tcp_send_ctl (TCP_FIN OR TCP_ACK) (snd_nxt u) u (snd (snd p))
        in (tcp_arm_rto now (v\<lparr>snd_nxt := snd_nxt v + 1, fin_sent := True,
              t_state := (if t_state v = TCP_CLOSE_WAIT then TCP_LAST_ACK else TCP_FIN_WAIT_1)\<rparr>), iv)
        else (u, snd (snd p)))"
    have "t_state u = t_state t" unfolding u_def p_def l t1 ..
    then have "t_state (fst r3) = t_state t \<or> t_state (fst r3) = TCP_LAST_ACK \<or> t_state (fst r3) = TCP_FIN_WAIT_1"
      by (auto simp: r3_def a case_prod_unfold Let_def)
    moreover have "t_state (fst (tcp_push now t io)) = t_state (fst r3)"
      unfolding tcp_push_def case_prod_unfold t1_def [symmetric] io1_def [symmetric] if_not_P [OF False] Let_def
        p_def [symmetric] u_def [symmetric] r3_def [unfolded case_prod_unfold Let_def, symmetric] by (simp add: a)
    ultimately show ?thesis using False t1 by (auto simp: tcp_connected_def)
  qed
qed

lemma tcb_wf_push: "tcb_wf t \<Longrightarrow> tcb_wf (fst (tcp_push now t io))"
  using tcb_wf_view [OF wf_view_push] tcp_push_state by blast


text \<open>Field updates that keep a block well-formed.\<close>

lemma tcb_wf_ssthresh: "tcb_wf t \<Longrightarrow> (0 < mss t \<Longrightarrow> 0 < x) \<Longrightarrow> tcb_wf (t\<lparr>ssthresh := x\<rparr>)"
  by (simp add: tcb_wf_def rx_shape_def tcp_connected_def)

lemma tcb_wf_rto:
  assumes "tcb_wf t"
  shows "TCP_RTO_MIN_MS \<le> x \<Longrightarrow> x \<le> TCP_RTO_MAX_MS \<Longrightarrow> tcb_wf (t\<lparr>rto_ms := x\<rparr>)"
    "TCP_RTO_MIN_MS \<le> x \<Longrightarrow> x \<le> TCP_RTO_MAX_MS \<Longrightarrow> tcb_wf (t\<lparr>rto_base := x\<rparr>)"
  using assms by (simp_all add: tcb_wf_def rx_shape_def tcp_connected_def)

lemma tcb_wf_tx:
  assumes "tcb_wf t" and "unat a < TCP_TX_BUF" and "unat b \<le> TCP_TX_BUF"
  shows "tcb_wf (t\<lparr>tx_start := a, tx_len := b\<rparr>)"
  using assms by (simp add: tcb_wf_def rx_shape_def tcp_connected_def)

lemma tcb_wfD:
  assumes "tcb_wf t"
  shows "unat (tx_start t) < TCP_TX_BUF" "unat (tx_len t) \<le> TCP_TX_BUF" "TCP_RTO_MIN_MS \<le> rto_base t" "rto_base t \<le> TCP_RTO_MAX_MS"
    "TCP_RTO_MIN_MS \<le> rto_ms t" "rto_ms t \<le> TCP_RTO_MAX_MS" "mss t \<le> TCP_MSS"
    "tcp_connected t \<Longrightarrow> length (rx t) = TCP_RX_BUF" "tcp_connected t \<Longrightarrow> length (tx t) = TCP_TX_BUF" "rx_shape t"
  using assms unfolding tcb_wf_def by blast+

lemma half_window_pos:
  assumes "mss t \<le> TCP_MSS" and "0 < mss t"
  shows "(0 :: u32) < (if half > 2 * ucast (mss t) then half else 2 * ucast (mss t))"
proof -
  have m: "unat (mss t) \<le> 1460" "0 < unat (mss t)" using assms by (simp_all add: word_le_nat_alt unat_gt_0)
  moreover have "unat (ucast (mss t) :: u32) = unat (mss t)" using m(1) by (simp add: unsigned_ucast_eq take_bit_nat_eq_self)
  ultimately have "unat (2 * ucast (mss t) :: u32) = 2 * unat (mss t)" "0 < unat (mss t)" by (simp_all add: unat_mult_small)
  then have "(0 :: u32) < 2 * ucast (mss t)" by (simp add: word_less_nat_alt)
  then show ?thesis by auto
qed

lemma tcb_wf_enter_rto: assumes "tcb_wf t" shows "tcb_wf (tcp_enter_rto t)"
proof -
  have "tcb_wf (t\<lparr>ssthresh := ssthresh (tcp_enter_rto t)\<rparr>)"
    by (rule tcb_wf_ssthresh [OF assms]) (simp add: tcp_enter_rto_def Let_def half_window_pos [OF tcb_wfD(7) [OF assms]])
  then show ?thesis by (rule tcb_wf_view [rotated]) (simp_all add: wf_view_def tcp_enter_rto_def Let_def)
qed

lemma tcb_wf_backoff: assumes "tcb_wf t" shows "tcb_wf (tcp_backoff now t)"
proof -
  have b: "unat (rto_ms t) \<le> 30000" "300 \<le> unat (rto_ms t)" using tcb_wfD(5,6) [OF assms] by (simp_all add: word_le_nat_alt)
  then have "unat (rto_ms t * 2) = 2 * unat (rto_ms t)" by (simp add: unat_mult_small)
  then have "TCP_RTO_MIN_MS \<le> rto_ms (tcp_backoff now t)" "rto_ms (tcp_backoff now t) \<le> TCP_RTO_MAX_MS"
    using b by (simp_all add: tcp_backoff_def Let_def word_le_nat_alt word_less_nat_alt)
  from tcb_wf_rto(1) [OF assms this] show ?thesis by (rule tcb_wf_view [rotated]) (simp_all add: wf_view_def tcp_backoff_def Let_def)
qed

lemma tcb_wf_closed: "tcb_wf t \<Longrightarrow> tcb_wf (fst (tcp_set_closed err t io))"
  by (rule tcb_wf_view [OF wf_view_simple(6)]) (simp_all add: tcp_set_closed_def)

lemma tcb_wf_ctl:
  assumes "tcb_wf t"
  shows "tcb_wf (fst (tcp_send_ctl flags sq t io))" "tcb_wf (fst (tcp_send_ack t io))" "tcb_wf (fst (tcp_send_syn t io))"
  by (rule tcb_wf_view [OF wf_view_simple(3) assms], simp add: tcp_send_ctl_def tcp_emit_fst)
    (rule tcb_wf_view [OF wf_view_simple(4) assms], simp add: tcp_send_ack_def tcp_emit_fst,
     rule tcb_wf_view [OF wf_view_simple(5) assms], simp add: tcp_send_syn_def tcp_emit_fst)

lemma tcb_wf_retry: assumes "tcb_wf t" shows "tcb_wf (fst (tcp_timeout_retry now t io))"
proof -
  have "tcb_wf ((fst (tcp_emit TCP_ACK sq 0 1 [] t io))\<lparr>snd_nxt := x\<rparr>)" for sq x
    by (rule tcb_wf_view [OF _ assms]) (simp_all add: wf_view_def tcp_emit_fst)
  then show ?thesis
    using tcb_wf_ctl(3) [OF assms] tcb_wf_enter_rto [OF assms] tcb_wf_backoff
    by (simp add: tcp_timeout_retry_def Let_def case_prod_unfold)
qed

lemma tcb_wf_keepalive: assumes "tcb_wf t" shows "tcb_wf (fst (tcp_keepalive now t io))"
proof -
  have "tcb_wf (t\<lparr>keep_sent := x\<rparr>)" for x by (rule tcb_wf_view [OF _ assms]) (simp_all add: wf_view_def)
  then show ?thesis
    using assms tcb_wf_ctl(1) tcb_wf_closed by (simp add: tcp_keepalive_def Let_def case_prod_unfold)
qed

interpretation wfi: tcb_invariant "\<lambda>t io. tcb_wf t"
  by unfold_locales
    (simp_all add: case_prod_unfold tcb_wf_closed tcb_wf_ctl(1) tcb_wf_retry tcb_wf_push tcb_wf_keepalive,
     (erule tcb_wf_view [rotated], simp_all add: wf_view_def)+)


text \<open>Acknowledgements.\<close>

lemma tcb_wf_rtt_sample: assumes "tcb_wf t" shows "tcb_wf (tcp_rtt_sample now t)"
proof -
  have "TCP_RTO_MIN_MS \<le> rto_base (tcp_rtt_sample now t)" "rto_base (tcp_rtt_sample now t) \<le> TCP_RTO_MAX_MS"
    by (auto simp: tcp_rtt_sample_def Let_def not_less)
  from tcb_wf_rto(2) [OF assms this] show ?thesis by (rule tcb_wf_view [rotated]) (simp_all add: wf_view_def tcp_rtt_sample_def Let_def)
qed

lemma tcb_wf_fin_acked: "tcb_wf t \<Longrightarrow> tcb_wf (fst (tcp_fin_acked now ack t io))"
proof -
  have "tcb_wf (t\<lparr>t_state := s, done_at := d\<rparr>)" "tcb_wf (t\<lparr>t_state := s\<rparr>)" if "tcb_wf t" "tcp_connected t" "s = TCP_FIN_WAIT_2 \<or> s = TCP_TIME_WAIT" for s d
    by (rule tcb_wf_view [OF _ that(1)], use that in \<open>auto simp: wf_view_def tcp_connected_def\<close>)+
  then show "tcb_wf t \<Longrightarrow> tcb_wf (fst (tcp_fin_acked now ack t io))"
    using tcb_wf_closed by (auto simp: tcp_fin_acked_def tcp_connected_def)
qed

lemma tcb_wf_ack_advance: assumes wf: "tcb_wf t" shows "tcb_wf (fst (tcp_ack_advance now ack t io))"
proof -
  define acked data where "acked = ack - snd_una t" and "data = (if acked < tx_len t then acked else tx_len t)"
  define t1 where "t1 = t\<lparr>tx_start := (tx_start t + data) mod of_nat TCP_TX_BUF, tx_len := tx_len t - data,
                 snd_una := ack, retries := 0, rto_ms := rto_base t, rto_at := 0\<rparr>"
  define t2 where "t2 = (if rtt_at t1 \<noteq> 0 \<and> SEQ_LT (rtt_seq t1) ack then tcp_rtt_sample now t1 else t1)"
  define t3 where "t3 = t2\<lparr>rto_ms := rto_base t2\<rparr>"
  define t4 where "t4 = (if snd_una t3 \<noteq> snd_nxt t3 then tcp_arm_rto now t3 else t3)"
  define c where "c = tcp_cc_acked acked ack t4"
  have "data \<le> tx_len t" by (auto simp: data_def)
  then have l: "unat (tx_len t - data) \<le> TCP_TX_BUF" using tcb_wfD(2) [OF wf] by (simp add: unat_minus_small word_le_nat_alt)
  have "tcb_wf ((t\<lparr>tx_start := (tx_start t + data) mod of_nat TCP_TX_BUF, tx_len := tx_len t - data\<rparr>)\<lparr>rto_ms := rto_base t\<rparr>)"
    by (rule tcb_wf_rto(1) [OF tcb_wf_tx [OF wf _ l] tcb_wfD(3,4) [OF wf]]) (simp add: unat_mod)
  then have "tcb_wf t1" by (rule tcb_wf_view [rotated]) (simp_all add: wf_view_def t1_def)
  then have 2: "tcb_wf t2" using tcb_wf_rtt_sample by (simp add: t2_def)
  then have 3: "tcb_wf t3" unfolding t3_def by (intro tcb_wf_rto(1) tcb_wfD(3,4)) simp_all
  have "tcb_wf (tcp_arm_rto now t3)" by (rule tcb_wf_view [OF wf_view_simple(1) 3]) (simp add: tcp_arm_rto_def)
  then have 4: "tcb_wf t4" using 3 by (simp add: t4_def)
  have "tcb_wf (snd c)" by (rule tcb_wf_view [OF _ 4]) (simp_all add: c_def tcp_cc_acked_def Let_def wf_view_def)
  then show ?thesis using tcb_wf_fin_acked
    unfolding tcp_ack_advance_def Let_def acked_def [symmetric] data_def [symmetric] t1_def [symmetric]
      t2_def [symmetric] t3_def [symmetric] t4_def [symmetric] c_def [symmetric] case_prod_unfold by simp
qed

lemma tcb_wf_dupack: assumes "tcb_wf t" shows "tcb_wf (tcp_cc_dupack t)"
proof -
  have "0 < ssthresh (tcp_cc_dupack t)" if "0 < mss t" "ssthresh (tcp_cc_dupack t) \<noteq> ssthresh t"
    using that half_window_pos [OF tcb_wfD(7) [OF assms] that(1)] by (auto simp: tcp_cc_dupack_def Let_def split: if_splits)
  then have "tcb_wf (t\<lparr>ssthresh := ssthresh (tcp_cc_dupack t)\<rparr>)"
    using tcb_wf_ssthresh [OF assms] assms by (cases "ssthresh (tcp_cc_dupack t) = ssthresh t") auto
  then show ?thesis by (rule tcb_wf_view [rotated]) (simp_all add: wf_view_def tcp_cc_dupack_def Let_def)
qed

lemma tcb_wf_got_ack: assumes wf: "tcb_wf t" shows "tcb_wf (fst (tcp_got_ack now sq ack w bare t io))"
proof -
  have a: "tcb_wf (u\<lparr>snd_nxt := x, rto_at := 0, rto_ms := rto_base u\<rparr>)" if "tcb_wf u" for u x
    by (rule tcb_wf_view [OF _ tcb_wf_rto(1) [OF that tcb_wfD(3,4) [OF that]]]) (simp_all add: wf_view_def)
  have b: "tcb_wf (u\<lparr>retries := 0\<rparr>)" "tcb_wf (u\<lparr>snd_wnd := x, snd_wl1 := y\<rparr>)" if "tcb_wf u" for u x y
    by (rule tcb_wf_view [OF _ that], simp_all add: wf_view_def)+
  show ?thesis
    using wf tcb_wf_ack_advance [OF wf] tcb_wf_dupack [OF wf] a b
    by (simp add: tcp_got_ack_def Let_def case_prod_unfold)
qed


text \<open>Data, segments, and what the owner does.\<close>

lemma tcp_got_data_tx:
  "\<exists>s. tx_view (fst (tcp_got_data now sq data fin t io)) = tx_view (t\<lparr>t_state := s\<rparr>) \<and>
     (s = t_state t \<or> tcp_connected t \<and> tcp_connected (t\<lparr>t_state := s\<rparr>))"
proof -
  have "t_state (fst (tcp_take_data now q d fin t io)) = t_state t \<or>
      tcp_connected t \<and> tcp_connected (t\<lparr>t_state := t_state (fst (tcp_take_data now q d fin t io))\<rparr>)" for q d
  proof -
    have "t_state (tcp_count_data a b c (tcp_store_data a b d c fin t)) = t_state t" for a b c
      by (simp add: tcp_count_data_def tcp_store_data_def tcp_ooo_add_def tcp_ooo_settle_def case_prod_unfold Let_def)
    then show ?thesis by (simp add: tcp_take_data_def Let_def tcp_fin_reached_def tcp_connected_def)
  qed
  moreover have "tx_view (fst (tcp_take_data now q d fin t io)) = tx_view (t\<lparr>t_state := t_state (fst (tcp_take_data now q d fin t io))\<rparr>)" for q d
    using tcp_take_data_tx [of now q d fin t io] by (auto simp: tx_view_def)
  moreover have "tx_view t = tx_view (t\<lparr>t_state := t_state t\<rparr>)" by simp
  ultimately show ?thesis unfolding tcp_got_data_def Let_def by (simp only: split: if_split) (metis fst_conv)
qed

lemma tcp_got_data_rest:
  fixes t :: tcb
  defines "rest \<equiv> \<lambda>t. (rto_base t, rto_ms t, snd_shift t, mss t, ssthresh t, was_connected t)"
  shows "rest (fst (tcp_got_data now sq data fin t io)) = rest t"
proof -
  have "rest (tcp_store_data a b d c f u) = rest u" "rest (tcp_count_data a b c u) = rest u" "rest (tcp_fin_reached now u) = rest u"
    for a b c d f u
    by (simp_all add: rest_def tcp_store_data_def tcp_count_data_def tcp_ooo_add_def tcp_ooo_settle_def tcp_fin_reached_def case_prod_unfold Let_def)
  then have "rest (fst (tcp_take_data now q d fin t io)) = rest t" for q d by (simp add: tcp_take_data_def Let_def)
  then show ?thesis by (simp add: tcp_got_data_def Let_def)
qed

lemma tcb_wf_got_data:
  assumes wf: "tcb_wf t" and c: "tcp_connected t"
  shows "tcb_wf (fst (tcp_got_data now sq data fin t io))"
proof -
  define u where "u = fst (tcp_got_data now sq data fin t io)"
  obtain s where v: "tx_view u = tx_view (t\<lparr>t_state := s\<rparr>)" and s: "s = t_state t \<or> tcp_connected (t\<lparr>t_state := s\<rparr>)"
    using tcp_got_data_tx [of now sq data fin t io] by (auto simp: u_def)
  have tx: "tx u = tx t" "tx_start u = tx_start t" "tx_len u = tx_len t" "t_state u = s" using v by (simp_all add: tx_view_def)
  have rx: "rx_shape u" "length (rx u) = TCP_RX_BUF"
    using rx_shape_got_data [OF tcb_wfD(10,8) [OF wf]] c by (simp_all add: u_def)
  have cu: "tcp_connected u" using s c tx(4) by (auto simp: tcp_connected_def)
  then have ns: "t_state u \<noteq> TCP_SYN_RCVD" "t_state u \<noteq> TCP_SYN_SENT" by (auto simp: tcp_connected_def)
  have rest: "rto_base u = rto_base t" "rto_ms u = rto_ms t" "snd_shift u = snd_shift t" "mss u = mss t" "ssthresh u = ssthresh t"
    "was_connected u = was_connected t" using tcp_got_data_rest [of now sq data fin t io] by (simp_all add: u_def)
  show ?thesis
    unfolding u_def [symmetric] using wf rx cu c ns unfolding tcb_wf_def tx(1-3) rest by auto
qed

lemma tcb_wf_segment:
  assumes wf: "tcb_wf t" and c: "tcp_connected t"
  shows "tcb_wf (fst (tcp_segment_arrives now h body t io))"
proof -
  define t0 where "t0 = t\<lparr>last_rx := now, keep_sent := 0\<rparr>"
  define r1 where "r1 = (if h_flags h AND TCP_ACK \<noteq> 0
    then tcp_got_ack now (h_seq h) (h_ack h) (h_window h) (\<not> (body \<noteq> [] \<or> h_flags h AND TCP_FIN \<noteq> 0)) t0 io else (t0, io))"
  define r2 where "r2 = (if (body \<noteq> [] \<or> h_flags h AND TCP_FIN \<noteq> 0) \<and> tcp_can_take_data (fst r1)
    then tcp_got_data now (h_seq h) body (h_flags h AND TCP_FIN \<noteq> 0) (fst r1) (snd r1) else r1)"
  have 0: "tcb_wf t0" by (rule tcb_wf_view [OF _ wf]) (simp_all add: t0_def wf_view_def)
  then have 1: "tcb_wf (fst r1)" using tcb_wf_got_ack by (simp add: r1_def)
  have "tcp_can_take_data u \<Longrightarrow> tcp_connected u" for u by (auto simp: tcp_can_take_data_def tcp_connected_def)
  then have 2: "tcb_wf (fst r2)" using 1 tcb_wf_got_data by (simp add: r2_def)
  have "tcb_wf (fst (tcp_set_closed 0 (fst (tcp_send_ctl f x t0 io)) iox))" "tcb_wf (fst (tcp_send_ctl f x t0 io))" for f x iox
    using tcb_wf_ctl(1) [OF 0] tcb_wf_closed by blast+
  then show ?thesis
    unfolding tcp_segment_arrives_def Let_def t0_def [symmetric] case_prod_unfold prod.collapse r1_def [symmetric] r2_def [symmetric]
    using 2 tcb_wf_push tcb_wf_ctl(2) by simp
qed

lemma tcb_wf_send: assumes wf: "tcb_wf t" shows "tcb_wf (fst (snd (tcp_send now buf t io)))"
proof (cases "t_error t \<noteq> 0 \<or> t_state t = TCP_SYN_SENT \<or>
    t_state t \<noteq> TCP_ESTABLISHED \<and> t_state t \<noteq> TCP_CLOSE_WAIT \<or> fin_wanted t")
  case True
  then show ?thesis using wf by (auto simp: tcp_send_def)
next
  case False
  define room n where "room = of_nat TCP_TX_BUF - tx_len t" and "n = (if length buf < unat room then of_nat (length buf) else room)"
  define at where "at = unat ((tx_start t + tx_len t) mod of_nat TCP_TX_BUF)"
  have c: "tcp_connected t" using False by (auto simp: tcp_connected_def)
  have room: "unat room = TCP_TX_BUF - unat (tx_len t)" using tcb_wfD(2) [OF wf] by (simp add: room_def unat_minus_small)
  have "unat n \<le> unat room" using unat_u32 [of room] by (auto simp: n_def unat_of_nat_small)
  then have n: "unat n \<le> TCP_TX_BUF - unat (tx_len t)" using room by simp
  have "length (ring_put (tx t) at (take (unat n) buf)) = TCP_TX_BUF"
    using tcb_wfD(9) [OF wf c] n by (simp add: at_def unat_mod)
  moreover have "unat (tx_len t + n) \<le> TCP_TX_BUF" using n tcb_wfD(2) [OF wf] by (simp add: unat_plus_small)
  ultimately have "tcb_wf (t\<lparr>tx := ring_put (tx t) at (take (unat n) buf), tx_len := tx_len t + n\<rparr>)"
    using wf by (simp add: tcb_wf_def rx_shape_def tcp_connected_def)
  then have "tcb_wf (fst (tcp_push now (t\<lparr>tx := ring_put (tx t) at (take (unat n) buf), tx_len := tx_len t + n\<rparr>) io))"
    by (rule tcb_wf_push)
  then show ?thesis using False
    unfolding tcp_send_def Let_def room_def [symmetric] n_def [symmetric] at_def [symmetric] by (auto simp: case_prod_unfold)
qed


lemma tcb_wf_recv: assumes wf: "tcb_wf t" shows "tcb_wf (fst (snd (snd (tcp_recv len peek t io))))"
proof -
  define n where "n = (if len < unat (rx_len t) then of_nat len else rx_len t)"
  define u where "u = t\<lparr>rx_start := (rx_start t + n) mod of_nat TCP_RX_BUF, rx_len := rx_len t - n\<rparr>"
  have "unat n \<le> unat (rx_len t)" using unat_u32 [of "rx_len t"] by (auto simp: n_def unat_of_nat_small)
  from rx_shape_read [OF tcb_wfD(10) [OF wf] this] have "rx_shape u" by (simp add: u_def)
  moreover have "rx_len t = 0 \<Longrightarrow> n = 0" by (simp add: n_def)
  ultimately have u: "tcb_wf u" using wf by (auto simp: tcb_wf_def tcp_connected_def u_def)
  have "tcb_wf (fst (tcp_send_ctl TCP_ACK sq u io))" for sq by (rule tcb_wf_ctl(1) [OF u])
  moreover have "tcb_wf (t\<lparr>t_error := 0\<rparr>)" by (rule tcb_wf_view [OF _ wf]) (simp_all add: wf_view_def)
  ultimately show ?thesis using wf u
    unfolding tcp_recv_def Let_def n_def [symmetric] u_def [symmetric] by (simp add: case_prod_unfold)
qed

lemma tcb_wf_shutdown: assumes wf: "tcb_wf t" shows "tcb_wf (fst (snd (tcp_shutdown now rd wr t io)))"
proof -
  have 1: "tcb_wf (if rd then t\<lparr>rd_shut := True\<rparr> else t)" by (rule tcb_wf_view [OF _ wf]) (simp_all add: wf_view_def)
  have "tcb_wf (u\<lparr>fin_wanted := True\<rparr>)" if "tcb_wf u" for u by (rule tcb_wf_view [OF _ that]) (simp_all add: wf_view_def)
  then show ?thesis using wf 1 tcb_wf_push by (simp add: tcp_shutdown_def Let_def case_prod_unfold)
qed

lemma own_step_wf:
  assumes "own_step t io X R t' io'" and "io_out io = []" and "tcb_wf t"
  shows "tcb_wf t'"
  using assms
proof (induction rule: own_step.induct)
  case (writes now buf t io r t' io')
  then show ?case using tcb_wf_send [of t now buf io] by simp
next
  case (reads len t io r buf t' io')
  then show ?case using tcb_wf_recv [of t len False io] by simp
next
  case (peeks len t io r buf t' io')
  then show ?case using tcb_wf_recv [of t len True io] by simp
next
  case (shuts now rd wr t io r t' io')
  then show ?case using tcb_wf_shutdown [of t now rd wr io] by simp
next
  case (ticks tab i t now io tab' io' t')
  then show ?case using wfi.tick_one_keeps [OF _ ticks(2,3)] by simp
next
  case (detaches tab i t now abort io tab' io' t')
  then show ?case using wfi.detach_keeps [OF _ _ detaches(2,3)] by simp
next
  case (bare t h now io t' io')
  then show ?case using tcb_wf_segment [of t now h "[]" io] by simp
next
  case (resets t sq io t' io')
  then show ?case using tcb_wf_closed by (auto simp: tcp_reset_arrives_def Let_def split: if_splits) (metis fst_conv)+
qed

section \<open>A whole life\<close>

lemma parse_wscale: "o_wscale o' \<le> 14 \<Longrightarrow> o_wscale (tcp_parse_opts p o') \<le> 14"
proof (induction p o' rule: tcp_parse_opts.induct)
  case (1 p o')
  have "o_wscale (tcp_one_opt p o') \<le> 14" using 1(3) by (auto simp: tcp_one_opt_def not_less)
  then show ?case using 1 by (subst tcp_parse_opts.simps) simp
qed

lemma parse_syn_wscale: "o_wscale (tcp_parse_syn d hlen) \<le> 14"
  unfolding tcp_parse_syn_def by (rule parse_wscale) simp

lemma use_syn_opts_fields:
  "mss (tcp_use_syn_opts now (tcp_parse_syn d hlen) t) \<le> TCP_MSS"
  "snd_shift (tcp_use_syn_opts now (tcp_parse_syn d hlen) t) \<le> 14"
  "0 < ssthresh (tcp_use_syn_opts now (tcp_parse_syn d hlen) t)"
  using parse_syn_wscale by (auto simp: tcp_use_syn_opts_def Let_def not_less)

text \<open>Memory for rings has the size asked for.\<close>

definition rings_sized :: "tcp_tab \<Rightarrow> bool" where
  "rings_sized tab \<longleftrightarrow> (\<forall>r w ms. ring_mem tab = Some r # Some w # ms \<longrightarrow> length r = TCP_RX_BUF \<and> length w = TCP_TX_BUF)"

lemma tcp_alloc_rings_ok:
  assumes "tcp_alloc_rings i tab = (0, tab')" and "rings_sized tab"
  shows "\<exists>r w. length r = TCP_RX_BUF \<and> length w = TCP_TX_BUF \<and> tcb_at tab' i = (tcb_at tab i)\<lparr>rx := r, tx := w\<rparr>"
proof -
  obtain r w ms where m: "ring_mem tab = Some r # Some w # ms"
    using assms(1) by (auto simp: tcp_alloc_rings_def ring_alloc_def Let_def split: list.splits option.splits)
  then have "length r = TCP_RX_BUF" "length w = TCP_TX_BUF" using assms(2) by (auto simp: rings_sized_def)
  moreover have "tcb_at tab' i = (tcb_at tab i)\<lparr>rx := r, tx := w\<rparr>" using assms(1) m by (auto simp: tcp_alloc_rings_def ring_alloc_def Let_def)
  ultimately show ?thesis by blast
qed


text \<open>
  Every operation on a connection block. A block that connects still has the rings of
  \<open>tcp_create\<close>: only \<open>tcp_listen\<close> takes them away.
\<close>

inductive life_step :: "tcb \<Rightarrow> tcp_io \<Rightarrow> tcb \<Rightarrow> tcp_io \<Rightarrow> bool" where
  own: "own_step t io X R t' io' \<Longrightarrow> life_step t io t' io'"
| segment: "tcp_connected t \<Longrightarrow> tcp_segment_arrives now h body t io = (t', io') \<Longrightarrow> life_step t io t' io'"
| connects: "tcbs tab i = Some t \<Longrightarrow> length (rx t) = TCP_RX_BUF \<Longrightarrow> length (tx t) = TCP_TX_BUF \<Longrightarrow>
    tcp_connect_locked key clk now i src lport rip rport tab io = (r, tab', io') \<Longrightarrow> tcbs tab' i = Some t' \<Longrightarrow> life_step t io t' io'"
| answered: "t_state t = TCP_SYN_SENT \<Longrightarrow> tcp_syn_sent now h d hlen sq ack t io = (t', io') \<Longrightarrow> life_step t io t' io'"
| confirmed: "tcbs tab i = Some t \<Longrightarrow> t_state t = TCP_SYN_RCVD \<Longrightarrow> rings_sized tab \<Longrightarrow>
    tcp_syn_rcvd i h sq ack tab io = (go, tab', io') \<Longrightarrow> tcbs tab' i = Some t' \<Longrightarrow> life_step t io t' io'"
| unreachable: "t_state t = TCP_SYN_SENT \<Longrightarrow> err \<le> 0 \<Longrightarrow> tcp_set_closed err t io = (t', io') \<Longrightarrow> life_step t io t' io'"
| listens: "tcbs tab i = Some t \<Longrightarrow> tcp_listen i lip lport blog tab = (r, tab') \<Longrightarrow> tcbs tab' i = Some t' \<Longrightarrow> life_step t io t' io"
| sets: "tcp_setopt name val t = (r, t') \<Longrightarrow> life_step t io t' io"
| keeps: "life_step t io (tcp_set_keepalive now on t) io"
| asks: "tcp_take_error t = (e, t') \<Longrightarrow> life_step t io t' io"

inductive tcb_life :: "tcb \<Rightarrow> bool" where
  created: "tcp_create wq tab = (Some i, tab') \<Longrightarrow> rings_sized tab \<Longrightarrow> tcbs tab' i = Some t \<Longrightarrow> tcb_life t"
| accepted: "tcb_life (tcp_child now is src dst h d hlen l lt blank_tcb)"
| lives: "tcb_life t \<Longrightarrow> life_step t io t' io' \<Longrightarrow> io_out io = [] \<Longrightarrow> tcb_life t'"

lemma tcb_wf_answered:
  assumes wf: "tcb_wf t" and st: "t_state t = TCP_SYN_SENT"
  shows "tcb_wf (fst (tcp_syn_sent now h d hlen sq ack t io))"
proof -
  define t1 where "t1 = tcp_use_syn_opts now (tcp_parse_syn d hlen) t"
  define t2 where "t2 = t1\<lparr>rcv_nxt := sq + 1, snd_una := ack, snd_wnd := ucast (h_window h), snd_wl1 := sq,
                    t_state := TCP_ESTABLISHED, was_connected := True, rto_at := 0, rto_ms := rto_base t1, retries := 0\<rparr>"
  have w: "\<not> was_connected t" using wf st by (simp add: tcb_wf_def)
  then have e: "ooo t = []" "rx_len t = 0" using wf by (simp_all add: tcb_wf_def)
  have rx1: "ooo t1 = ooo t" "rx_len t1 = rx_len t" "rx_start t1 = rx_start t" "rto_base t1 = rto_base t" "tx_start t1 = tx_start t"
    "tx_len t1 = tx_len t" "rx t1 = rx t" "tx t1 = tx t" by (simp_all add: t1_def tcp_use_syn_opts_def Let_def)
  have "rx_shape t2" by (rule rx_shape_empty) (use e wf in \<open>simp_all add: t2_def rx1 tcb_wf_def rx_shape_def\<close>)
  then have "tcb_wf t2" using wf st use_syn_opts_fields [of now d hlen t, folded t1_def]
    by (simp add: tcb_wf_def t2_def rx1 tcp_connected_def)
  then have "tcb_wf (fst (tcp_send_ctl TCP_ACK (snd_nxt t2) t2 io))" by (rule tcb_wf_ctl(1))
  then show ?thesis
    using wf tcb_wf_ctl(1) tcb_wf_closed unfolding tcp_syn_sent_def Let_def t1_def [symmetric] t2_def [symmetric]
    by (simp add: case_prod_unfold)
qed

lemma tcb_wf_confirmed:
  assumes wf: "tcb_wf (tcb_at tab i)" and st: "t_state (tcb_at tab i) = TCP_SYN_RCVD" and "rings_sized tab"
  shows "tcb_wf (tcb_at (fst (snd (tcp_syn_rcvd i h sq ack tab io))) i)"
proof -
  obtain err tab1 where a: "tcp_alloc_rings i tab = (err, tab1)" by fastforce
  have on: "tcb_wf (tcb_at (fst (on_tcb i f tb iox)) i)" if "tcb_wf (tcb_at tb i)" "\<And>t io. tcb_wf t \<Longrightarrow> tcb_wf (fst (f t io))" for f tb iox
    using that by (simp add: on_tcb_def case_prod_unfold)
  have "tcb_wf (tcb_at tab1 i)" if "err \<noteq> 0"
  proof -
    have "tcb_at tab1 i = (tcb_at tab i)\<lparr>rx := [], tx := []\<rparr>"
      using a that by (auto simp: tcp_alloc_rings_def ring_alloc_def Let_def split: list.splits option.splits)
    then show ?thesis using wf st by (auto simp: tcb_wf_def rx_shape_def tcp_connected_def)
  qed
  then have fails: "tcb_wf (tcb_at (tcp_drop_child i (fst (on_tcb i (tcp_send_ctl f x) tab1 io))) i)" if "err \<noteq> 0" for f x
    using that by (intro wfi.drop_child_keeps on tcb_wf_ctl(1))
  have joins: "tcb_wf ((tcb_at tab1 i)\<lparr>rcv_shift := a, snd_una := b, t_state := TCP_ESTABLISHED,
      was_connected := True, rto_at := 0, rto_ms := rto_base (tcb_at tab1 i), retries := 0\<rparr>)" if "err = 0" for a b
    using tcp_alloc_rings_ok [OF a [unfolded that] assms(3)] wf st by (auto simp: tcb_wf_def rx_shape_def tcp_connected_def)
  have q: "tcb_wf u \<Longrightarrow> tcb_wf (u\<lparr>accept_q := x\<rparr>)" for u x by (erule tcb_wf_view [rotated]) (simp_all add: wf_view_def)
  have sends: "tcb_wf (tcb_at (fst (on_tcb i tcp_send_syn tab io)) i)" "tcb_wf (tcb_at (fst (on_tcb i (tcp_send_ctl f x) tab io)) i)" for f x
    by (rule on [OF wf], erule tcb_wf_ctl)+
  show ?thesis
    unfolding tcp_syn_rcvd_def Let_def a prod.case
    using wf wfi.drop_child_keeps [OF wf] sends fails joins q [OF joins] by (simp add: case_prod_unfold)
qed

lemma tcb_wf_connects:
  assumes wf: "tcb_wf (tcb_at tab i)" and "length (rx (tcb_at tab i)) = TCP_RX_BUF" and "length (tx (tcb_at tab i)) = TCP_TX_BUF"
  shows "tcb_wf (tcb_at (fst (snd (tcp_connect_locked key clk now i src lport rip rport tab io))) i)"
proof -
  define t where "t = tcb_at tab i"
  define num where "num = tcp_new_iss key clk src lport rip rport"
  define t1 where "t1 = t\<lparr>local_ip := src, local_port := lport, remote_ip := rip, remote_port := rport, iss := num,
                      snd_una := num, snd_nxt := num + 1, t_state := TCP_SYN_SENT, t_error := 0, retries := 0,
                      rto_ms := rto_base t, rto_at := 0\<rparr>"
  have "tcb_wf t1" if "\<not> was_connected t"
    using assms that by (auto simp: t_def [symmetric] t1_def tcb_wf_def rx_shape_def tcp_connected_def)
  then have "tcb_wf (fst (tcp_send_syn t1 io))" if "\<not> was_connected t" using that tcb_wf_ctl(3) by blast
  then have 3: "tcb_wf (tcp_arm_rto now (fst (tcp_send_syn t1 io)))" if "\<not> was_connected t"
    using that by (intro tcb_wf_view [OF wf_view_simple(1)]) (simp_all add: tcp_arm_rto_def)
  then have "tcb_wf ((tcp_arm_rto now (fst (tcp_send_syn t1 io)))\<lparr>linked := True\<rparr>)" if "\<not> was_connected t"
    using that by (intro tcb_wf_view [OF _ 3 [OF that]]) (simp_all add: wf_view_def)
  then show ?thesis
    using wf 3 unfolding tcp_connect_locked_def Let_def t_def [symmetric] num_def [symmetric] t1_def [symmetric]
    by (simp add: case_prod_unfold tcp_link_def t_def)
qed

lemma tcb_wf_listens: assumes wf: "tcb_wf (tcb_at tab i)" shows "tcb_wf (tcb_at (snd (tcp_listen i lip lport blog tab)) i)"
proof -
  have "tcb_wf ((tcb_at tab i)\<lparr>backlog := b\<rparr>)" for b by (rule tcb_wf_view [OF _ wf]) (simp_all add: wf_view_def)
  moreover have "tcb_wf ((tcb_at tab i)\<lparr>local_ip := lip, local_port := lport, backlog := b, t_state := TCP_LISTEN, rx := [], tx := []\<rparr>)"
    "tcb_wf ((tcb_at tab i)\<lparr>local_ip := lip, local_port := lport, backlog := b, t_state := TCP_LISTEN, linked := True, rx := [], tx := []\<rparr>)" for b
    using wf by (simp_all add: tcb_wf_def rx_shape_def tcp_connected_def)
  ultimately show ?thesis using wf by (simp add: tcp_listen_def Let_def tcp_link_def)
qed

lemma life_step_wf:
  assumes "life_step t io t' io'" and "io_out io = []" and "tcb_wf t"
  shows "tcb_wf t'"
  using assms
proof (induction rule: life_step.induct)
  case (own t io X R t' io')
  then show ?case using own_step_wf by blast
next
  case (segment t now h body io t' io')
  then show ?case using tcb_wf_segment [of t now h body io] by simp
next
  case (connects tab i t key clk now src lport rip rport io r tab' io' t')
  then show ?case using tcb_wf_connects [of tab i key clk now src lport rip rport io] by simp
next
  case (answered t now h d hlen sq ack io t' io')
  then show ?case using tcb_wf_answered [of t now h d hlen sq ack io] by simp
next
  case (confirmed tab i t h sq ack io go tab' io' t')
  then show ?case using tcb_wf_confirmed [of tab i h sq ack io] by simp
next
  case (unreachable t err io t' io')
  then show ?case using tcb_wf_closed [of t err io] by simp
next
  case (listens tab i t lip lport blog r tab' t' io)
  then show ?case using tcb_wf_listens [of tab i lip lport blog] by simp
next
  case (sets name val t r t' io)
  then have "wf_view t' = wf_view t" "t_state t' = t_state t" by (auto simp: tcp_setopt_def wf_view_def split: if_splits)
  then show ?case using sets tcb_wf_view by blast
next
  case (keeps t io now on)
  show ?case by (rule tcb_wf_view [OF _ keeps(2)]) (simp_all add: wf_view_def tcp_set_keepalive_def)
next
  case (asks t e t' io)
  then have "wf_view t' = wf_view t" "t_state t' = t_state t" by (auto simp: tcp_take_error_def wf_view_def)
  then show ?case using asks tcb_wf_view by blast
qed

lemma tcb_life_wf: "tcb_life t \<Longrightarrow> tcb_wf t"
proof (induction rule: tcb_life.induct)
  case (created wq tab i tab' t)
  obtain tab1 where 1: "tcp_alloc tab = (Some i, tab1)" "tcb_at tab1 i = blank_tcb" "ring_mem tab1 = ring_mem tab"
    using created(1) by (auto simp: tcp_create_def tcp_alloc_def put_tcb_def split: list.splits option.splits prod.splits if_splits)
  obtain err tab2 where 2: "tcp_alloc_rings i tab1 = (err, tab2)" by fastforce
  then have "err = 0" "tab' = put_tcb i ((tcb_at tab2 i)\<lparr>t_wait := Some wq\<rparr>) tab2"
    using created(1) 1(1) by (auto simp: tcp_create_def split: if_splits)
  then show ?case
    using tcp_alloc_rings_ok [of i tab1 tab2] 2 1(2,3) created(2,3)
    by (auto simp: rings_sized_def tcb_wf_def blank_tcb_def tcp_connected_def intro!: rx_shape_empty)
next
  case (accepted now "is" src dst h d hlen l lt)
  have "rx_shape (tcp_child now is src dst h d hlen l lt blank_tcb)"
    by (rule rx_shape_empty) (simp_all add: tcp_child_def tcp_use_syn_opts_def blank_tcb_def Let_def)
  then show ?case using use_syn_opts_fields [of now d hlen blank_tcb]
    by (simp add: tcb_wf_def tcp_child_def tcp_use_syn_opts_def blank_tcb_def tcp_connected_def Let_def)
next
  case (lives t io t' io')
  then show ?case using life_step_wf by blast
qed


section \<open>Properties\<close>

text \<open>C6. A connection block is well-formed over its whole life, whatever segments arrive: the read and write
  positions stay inside the rings, the counts never exceed them, no more than eight blocks wait behind a hole, the
  rings of an open connection have their full size, and neither the window shift nor the segment size leaves its range.\<close>

theorem tcp_block_well_formed:
  assumes "tcb_life t"
  shows "unat (rx_start t) < TCP_RX_BUF \<and> unat (rx_len t) \<le> TCP_RX_BUF \<and> unat (tx_start t) < TCP_TX_BUF
    \<and> unat (tx_len t) \<le> TCP_TX_BUF \<and> length (ooo t) \<le> TCP_OOO_MAX \<and> snd_shift t \<le> 14 \<and> mss t \<le> TCP_MSS
    \<and> (tcp_connected t \<longrightarrow> length (rx t) = TCP_RX_BUF \<and> length (tx t) = TCP_TX_BUF)"
  using tcb_life_wf [OF assms] unfolding tcb_wf_def rx_shape_def by blast

abbreviation sample_hdr :: tcp_hdr where
  "sample_hdr \<equiv> \<lparr>h_src_port = 80, h_dst_port = 90, h_seq = 5, h_ack = 0, h_off = 80, h_flags = TCP_SYN, h_window = 100\<rparr>"

theorem tcp_block_well_formed_witness:
  "snd_shift (tcp_child 1 9 1 2 sample_hdr (replicate 20 0 @ [3, 3, 200, 0]) 24 0 blank_tcb blank_tcb) \<le> 14
    \<and> snd_shift (tcp_child 1 9 1 2 sample_hdr (replicate 20 0 @ [3, 3, 200, 0]) 24 0 blank_tcb blank_tcb) = 14"
  using tcp_block_well_formed [OF tcb_life.accepted, of 1 9 1 2 sample_hdr "replicate 20 0 @ [3, 3, 200, 0]" 24 0 blank_tcb]
  by (simp add: tcp_child_def tcp_parse_syn_def tcp_parse_opts.simps tcp_one_opt_def tcp_use_syn_opts_def Let_def)



end
