(* ===== verification/Tcpfault.thy ===== *)
theory Tcpfault
  imports Tcplife
begin

text \<open>
  The two places where the kernel itself could stop in TCP: the division by the congestion window,
  and the loop over new data. Neither is reached on a connection whose peer announced a segment size;
  a peer that announces zero can make the kernel divide by zero.
\<close>

section \<open>No fault\<close>

named_theorems calm \<open>operations that cannot fault\<close>

lemma calm_simple [calm]:
  "io_fault (sched_wake w io) = io_fault io" "io_fault (snd (tcp_set_closed err t io)) = io_fault io"
  "io_fault (tcp_segment src dst sp dp sq ack flags window from off len opts io) = io_fault io"
  by (simp_all add: sched_wake_def tcp_set_closed_def tcp_segment_def io_netbuf_def Let_def split: option.split list.split)

lemma calm_send [calm]:
  "io_fault (snd (tcp_emit flags sq off len opts t io)) = io_fault io" "io_fault (snd (tcp_send_ctl flags sq t io)) = io_fault io"
  "io_fault (snd (tcp_send_ack t io)) = io_fault io" "io_fault (snd (tcp_send_syn t io)) = io_fault io"
  "io_fault (snd (snd (tcp_resend sq t io))) = io_fault io"
  by (simp_all add: tcp_emit_def tcp_send_ctl_def tcp_send_ack_def tcp_send_syn_def tcp_resend_def Let_def case_prod_unfold calm_simple)

lemma calm_push_recovery [calm]: "io_fault (snd (tcp_push_recovery t io)) = io_fault io"
proof -
  have "io_fault (snd (tcp_rtx_loop u io)) = io_fault io" for u
  proof (rule tcp_rtx_loop_keeps [where P = "\<lambda>v iov. io_fault iov = io_fault io"], goal_cases)
    case (2 v iov n t1 io1)
    then show ?case using calm_send(5) [of "rtx_nxt v" v iov] by simp
  qed simp
  then show ?thesis by (simp add: tcp_push_recovery_def calm split: tcp_recovery_t.splits)
qed

text \<open>With segments of a size there is always a byte to move, so the loop over new data ends.\<close>

lemma tcp_push_size_pos:
  assumes "tcp_push_size wnd sent t = Some n" and "sent < tx_len t" and "0 < mss t"
  shows "n \<noteq> 0"
proof -
  have "unat (mss t) < 2 ^ 16" using unsigned_less [of "mss t"] by simp
  then have "unat (ucast (mss t) :: u32) = unat (mss t)" by (simp add: unsigned_ucast_eq take_bit_nat_eq_self)
  moreover have "mss t \<noteq> 0" using assms(3) by auto
  then have "0 < unat (mss t)" by (simp add: unat_gt_0)
  ultimately have "(ucast (mss t) :: u32) \<noteq> 0" by (metis unat_0 less_irrefl)
  moreover have "tx_len t - sent \<noteq> 0" using assms(2) by auto
  ultimately show ?thesis using assms(1) by (auto simp: tcp_push_size_def Let_def split: if_splits)
qed

lemma calm_push_loop:
  "0 < mss t \<Longrightarrow> io_fault (snd (snd (tcp_push_loop now wnd sent t io))) = io_fault io"
proof (induction now wnd sent t io rule: tcp_push_loop.induct)
  case (1 now wnd sent t io)
  show ?case
  proof (cases "sent < tx_len t \<and> length (io_out io) < TCP_OUT_MAX")
    case True
    show ?thesis
    proof (cases "tcp_push_size wnd sent t")
      case None
      then show ?thesis using True by (subst tcp_push_loop.simps) simp
    next
      case (Some n)
      obtain t1 io1 where o: "tcp_push_one now sent n t io = (t1, io1)" by fastforce
      have "mss t1 = mss t" using wf_view_push_one [of now sent n t io] o by (simp add: wf_view_def)
      moreover have "io_fault io1 = io_fault io" using o by (auto simp: tcp_push_one_def Let_def case_prod_unfold calm)
      moreover have n: "n \<noteq> 0" using tcp_push_size_pos [OF Some _ 1(2)] True by simp
      ultimately have "io_fault (snd (snd (tcp_push_loop now wnd (sent + n) t1 io1))) = io_fault io"
        using 1(1) [OF True Some _ o [symmetric]] 1(2) by simp
      moreover have "tcp_push_loop now wnd sent t io = tcp_push_loop now wnd (sent + n) t1 io1"
        using True Some n o by (subst tcp_push_loop.simps) simp
      ultimately show ?thesis by simp
    qed
  next
    case False
    show ?thesis by (subst tcp_push_loop.simps) (simp only: if_not_P [OF False] snd_conv)
  qed
qed

lemma calm_push: assumes "0 < mss t" shows "io_fault (snd (tcp_push now t io)) = io_fault io"
proof -
  have "mss (fst (tcp_push_recovery t io)) = mss t" using wf_view_push_recovery [of t io] by (simp add: wf_view_def)
  then show ?thesis using assms by (simp add: tcp_push_def Let_def case_prod_unfold calm calm_push_loop)
qed

lemma calm_got_ack:
  assumes "0 < ssthresh t"
  shows "io_fault (snd (tcp_got_ack now sq ack w bare t io)) = io_fault io"
proof -
  have "io_fault (snd (tcp_fin_acked now ack u io)) = io_fault io" for u io by (simp add: tcp_fin_acked_def calm)
  moreover have "\<not> fst (tcp_cc_acked acked ack u)" if "0 < ssthresh u" for acked u using that by (auto simp: tcp_cc_acked_def Let_def)
  moreover have "ssthresh (tcp_rtt_sample now u) = ssthresh u" "ssthresh (tcp_arm_rto now u) = ssthresh u" for u
    by (simp_all add: tcp_rtt_sample_def tcp_arm_rto_def Let_def)
  ultimately have "io_fault (snd (tcp_ack_advance now ack t io)) = io_fault io"
    using assms by (simp add: tcp_ack_advance_def Let_def case_prod_unfold calm)
  then show ?thesis by (simp add: tcp_got_ack_def Let_def case_prod_unfold)
qed

lemma mss_kept_simple:
  "mss (tcp_rtt_sample now t) = mss t" "mss (tcp_arm_rto now t) = mss t" "mss (snd (tcp_cc_acked acked ack t)) = mss t"
  "mss (tcp_cc_dupack t) = mss t" "mss (fst (tcp_fin_acked now ack t io)) = mss t"
  by (simp_all add: tcp_rtt_sample_def tcp_arm_rto_def tcp_cc_acked_def tcp_cc_dupack_def tcp_fin_acked_def tcp_set_closed_def Let_def)

lemma mss_kept:
  "mss (fst (tcp_got_ack now sq ack w bare t io)) = mss t" "mss (fst (tcp_got_data now sq2 data fin t io)) = mss t"
proof -
  have "mss (fst (tcp_ack_advance now ack t io)) = mss t"
    by (simp add: tcp_ack_advance_def Let_def case_prod_unfold mss_kept_simple)
  then show "mss (fst (tcp_got_ack now sq ack w bare t io)) = mss t"
    by (simp add: tcp_got_ack_def Let_def case_prod_unfold mss_kept_simple)
  show "mss (fst (tcp_got_data now sq2 data fin t io)) = mss t" using tcp_got_data_rest [of now sq2 data fin t io] by simp
qed

lemma calm_segment:
  assumes wf: "tcb_wf t" and c: "tcp_connected t" and m: "0 < mss t"
  shows "io_fault (snd (tcp_segment_arrives now h body t io)) = io_fault io"
proof -
  have "0 < ssthresh t" using wf c m by (simp add: tcb_wf_def)
  then have "0 < ssthresh (t\<lparr>last_rx := now, keep_sent := 0\<rparr>)" "0 < mss (t\<lparr>last_rx := now, keep_sent := 0\<rparr>)" using m by simp_all
  moreover have "io_fault (snd (tcp_got_data now sq d fin u iou)) = io_fault iou" for sq d fin u iou
    by (simp add: tcp_got_data_def tcp_take_data_def Let_def calm)
  ultimately show ?thesis
    by (simp add: tcp_segment_arrives_def Let_def case_prod_unfold calm calm_got_ack calm_push mss_kept)
qed


interpretation nfi: tcb_invariant "\<lambda>t io. tcb_wf t \<and> 0 < mss t \<and> io_fault io = f" for f
proof (unfold_locales, goal_cases)
  case (8 t io err)
  then show ?case using wf_view_simple(6) [of err t io] by (simp add: case_prod_unfold calm tcb_wf_closed wf_view_def)
next
  case (9 t io flags sq)
  then show ?case using wf_view_simple(3) [of flags sq t io] by (simp add: case_prod_unfold calm tcb_wf_ctl wf_view_def)
next
  case (10 t io now)
  have "mss (fst (tcp_timeout_retry now t io)) = mss t"
    by (simp add: tcp_timeout_retry_def tcp_backoff_def tcp_enter_rto_def tcp_send_syn_def tcp_emit_fst Let_def case_prod_unfold)
  then show ?case using 10 by (simp add: case_prod_unfold tcb_wf_retry) (simp add: tcp_timeout_retry_def Let_def case_prod_unfold calm)
next
  case (11 t io now)
  then show ?case using wf_view_push [of now t io] by (simp add: case_prod_unfold calm_push tcb_wf_push wf_view_def)
next
  case (12 t io now)
  have "mss (fst (tcp_keepalive now t io)) = mss t"
    by (simp add: tcp_keepalive_def tcp_send_ctl_def tcp_set_closed_def tcp_emit_fst Let_def case_prod_unfold)
  then show ?case using 12 by (simp add: case_prod_unfold tcb_wf_keepalive) (simp add: tcp_keepalive_def Let_def case_prod_unfold calm)
qed (use wfi.timer wfi.linkage wfi.drop wfi.leave wfi.finish in auto)

lemma own_step_calm:
  assumes "own_step t io X R t' io'" and "io_out io = []" and "tcb_wf t" and "0 < mss t"
  shows "io_fault io' = io_fault io"
  using assms
proof (induction rule: own_step.induct)
  case (writes now buf t io r t' io')
  have "io_fault (snd (snd (tcp_send now buf t io))) = io_fault io"
    using writes(4) by (simp add: tcp_send_def Let_def case_prod_unfold calm_push)
  then show ?case by (simp add: writes(1))
next
  case (reads len t io r buf t' io')
  have "io_fault (snd (snd (snd (tcp_recv len False t io)))) = io_fault io"
    by (simp add: tcp_recv_def Let_def case_prod_unfold calm)
  then show ?case by (simp add: reads(1))
next
  case (peeks len t io r buf t' io')
  have "io_fault (snd (snd (snd (tcp_recv len True t io)))) = io_fault io"
    by (simp add: tcp_recv_def Let_def)
  then show ?case by (simp add: peeks(1))
next
  case (shuts now rd wr t io r t' io')
  have "io_fault (snd (snd (tcp_shutdown now rd wr t io))) = io_fault io"
    using shuts(4) by (simp add: tcp_shutdown_def Let_def case_prod_unfold calm calm_push)
  then show ?case by (simp add: shuts(1))
next
  case (ticks tab i t now io tab' io' t')
  then show ?case using nfi.tick_one_keeps [where f = "io_fault io", OF _ ticks(2,3)] by simp
next
  case (detaches tab i t now abort io tab' io' t')
  then show ?case using nfi.detach_keeps [where f = "io_fault io", OF _ _ detaches(2,3)] by simp
next
  case (bare t h now io t' io')
  then show ?case using calm_segment [of t now h "[]" io] by simp
next
  case (resets t sq io t' io')
  have "io_fault (snd (tcp_reset_arrives sq t io)) = io_fault io" by (simp add: tcp_reset_arrives_def Let_def calm)
  then show ?case by (simp add: resets(2))
qed

lemma life_step_calm:
  assumes "life_step t io t' io'" and "io_out io = []" and "tcb_wf t" and "0 < mss t"
  shows "io_fault io' = io_fault io"
  using assms
proof (induction rule: life_step.induct)
  case (own t io X R t' io')
  then show ?case using own_step_calm by blast
next
  case (segment t now h body io t' io')
  then show ?case using calm_segment [of t now h body io] by simp
next
  case (connects tab i t key clk now src lport rip rport io r tab' io' t')
  have "io_fault (snd (snd (tcp_connect_locked key clk now i src lport rip rport tab io))) = io_fault io"
    by (simp add: tcp_connect_locked_def Let_def case_prod_unfold calm)
  then show ?case by (simp add: connects(4))
next
  case (answered t now h d hlen sq ack io t' io')
  have "io_fault (snd (tcp_syn_sent now h d hlen sq ack t io)) = io_fault io"
    by (simp add: tcp_syn_sent_def Let_def case_prod_unfold calm)
  then show ?case by (simp add: answered(2))
next
  case (confirmed tab i t h sq ack io go tab' io' t')
  have on: "io_fault (snd (on_tcb i f tb iox)) = io_fault iox" if "\<And>t io. io_fault (snd (f t io)) = io_fault io" for f tb iox
    using that by (simp add: on_tcb_def case_prod_unfold)
  have "io_fault (snd (snd (tcp_syn_rcvd i h sq ack tab io))) = io_fault io"
    by (simp add: tcp_syn_rcvd_def Let_def case_prod_unfold calm on)
  then show ?case by (simp add: confirmed(4))
next
  case (unreachable t err io t' io')
  then show ?case using calm_simple(2) [of err t io] by simp
qed simp_all

section \<open>A segment size of zero\<close>

definition zero_tcb :: "bytes \<Rightarrow> bytes \<Rightarrow> u32 \<Rightarrow> u32 \<Rightarrow> tcb" where
  "zero_tcb R W una nxt = blank_tcb\<lparr>t_state := TCP_ESTABLISHED, local_ip := 2, remote_ip := 1, local_port := 80,
     remote_port := 80, iss := 9, snd_una := una, snd_nxt := nxt, snd_wl1 := 5, mss := 0, rcv_nxt := 6, cwnd := 0,
     ssthresh := 0xFFFFFFFF, rx := R, tx := W, was_connected := True, last_rx := 1, parent := Some 0\<rparr>"

abbreviation zero_io :: tcp_io where
  "zero_io \<equiv> \<lparr>io_mem = [], io_out = [], io_wake = [], io_fault = False\<rparr>"

abbreviation zero_hdr :: "u8 \<Rightarrow> u32 \<Rightarrow> u32 \<Rightarrow> tcp_hdr" where
  "zero_hdr f sq ak \<equiv> \<lparr>h_src_port = 80, h_dst_port = 80, h_seq = sq, h_ack = ak, h_off = 96, h_flags = f, h_window = 0\<rparr>"

abbreviation zero_tab :: "tcb \<Rightarrow> bytes \<Rightarrow> bytes \<Rightarrow> tcp_tab" where
  "zero_tab t R W \<equiv> \<lparr>tcbs = [0 \<mapsto> blank_tcb, 1 \<mapsto> t], tcp_list = [1, 0], tcb_mem = [], ring_mem = [Some R, Some W]\<rparr>"



lemma sized_child:
  "tcp_child 1 9 1 2 (zero_hdr TCP_SYN 5 0) (replicate 20 0) 20 0 blank_tcb blank_tcb =
   (zero_tcb [] [] 9 10)\<lparr>t_state := TCP_SYN_RCVD, was_connected := False, mss := 536, cwnd := 5360\<rparr>"
  by (simp add: tcp_child_def tcp_parse_syn_def tcp_parse_opts.simps tcp_one_opt_def tcp_use_syn_opts_def zero_tcb_def blank_tcb_def Let_def)

lemma zero_confirm:
  assumes life: "tcb_life ((zero_tcb [] [] 9 10)\<lparr>t_state := TCP_SYN_RCVD, was_connected := False, mss := m, cwnd := c\<rparr>)"
    and "length R = TCP_RX_BUF" and "length W = TCP_TX_BUF"
  shows "tcb_life ((zero_tcb R W 10 10)\<lparr>mss := m, cwnd := c\<rparr>)"
proof -
  define t where "t = (zero_tcb [] [] 9 10)\<lparr>t_state := TCP_SYN_RCVD, was_connected := False, mss := m, cwnd := c\<rparr>"
  have e: "tcbs (fst (snd (tcp_syn_rcvd 1 (zero_hdr TCP_ACK 6 10) 6 10 (zero_tab t R W) zero_io))) 1 = Some ((zero_tcb R W 10 10)\<lparr>mss := m, cwnd := c\<rparr>)"
    by (simp add: t_def tcp_syn_rcvd_def tcp_alloc_rings_def ring_alloc_def zero_tcb_def blank_tcb_def put_tcb_def Let_def)
  obtain go tab' io' where r: "tcp_syn_rcvd 1 (zero_hdr TCP_ACK 6 10) 6 10 (zero_tab t R W) zero_io = (go, tab', io')" by (metis prod_cases3)
  then have "tcbs tab' 1 = Some ((zero_tcb R W 10 10)\<lparr>mss := m, cwnd := c\<rparr>)" using e by simp
  note step = life_step.confirmed [OF _ _ _ r this]
  show ?thesis
    by (rule tcb_life.lives [OF life [folded t_def] step])
      (simp_all add: t_def rings_sized_def assms)
qed








section \<open>Properties\<close>

text \<open>C13. On a connection whose peer announced a segment size other than zero (or none, which means 536),
  no operation of the connection's life reaches the division by a zero congestion window or a loop that
  never ends, whatever segments arrive.\<close>

theorem tcp_no_fault:
  assumes "tcb_life t" and "0 < mss t" and "life_step t io t' io'" and "io_out io = []"
  shows "io_fault io' = io_fault io"
  using life_step_calm [OF assms(3,4) tcb_life_wf [OF assms(1)] assms(2)] .

theorem tcp_no_fault_witness:
  "\<exists>t. tcb_life t \<and> mss t = 536 \<and> tcp_connected t
    \<and> \<not> io_fault (snd (tcp_segment_arrives 7 (zero_hdr TCP_ACK 6 10) [65, 66, 67] t zero_io))"
proof -
  define R W where "R = replicate TCP_RX_BUF (0 :: u8)" and "W = replicate TCP_TX_BUF (0 :: u8)"
  define t where "t = (zero_tcb R W 10 10)\<lparr>mss := 536, cwnd := 5360\<rparr>"
  have life: "tcb_life t"
    unfolding t_def by (rule zero_confirm) (simp_all add: R_def W_def sized_child [symmetric] tcb_life.accepted)
  have t: "mss t = 536" "tcp_connected t" by (simp_all add: t_def zero_tcb_def tcp_connected_def)
  obtain t' io' where r: "tcp_segment_arrives 7 (zero_hdr TCP_ACK 6 10) [65, 66, 67] t zero_io = (t', io')" by fastforce
  have "io_fault io' = io_fault zero_io" by (rule tcp_no_fault [OF life _ life_step.segment [OF t(2) r]]) (simp_all add: t)
  then show ?thesis using life t by (intro exI [of _ t]) (simp add: r)
qed


end
