(* ===== verification/Spec2Isabelle.thy ===== *)
theory Spec2Isabelle
  imports Pmm Pipe Timerfd Tcpfault
begin

text \<open>
  A verification library for the Bleed kernel, an operating system kernel for x86_64 written in C
  (\<open>kernel/\<close> and \<open>klibc/\<close> under \<open>src/\<close>).

  \<^bold>\<open>The modelled parts and how they meet.\<close>
  The physical memory manager hands out page frames. Pipes, event counters and timers are files
  whose calls block: a call takes turns under a lock, and between its turns any other task may
  run. The timers measure time in counts of the HPET, which the time keeping code extends,
  converts and turns into dates. The network stack is a tower: packet buffers and interfaces,
  Ethernet frames, ARP, IPv4 with reassembly and a loopback queue, and on top UDP, ICMP and TCP.
  Each layer of the tower extends the state record of the layer below and calls its functions;
  a layer that calls upwards takes the protocols above as a function argument.

  \<^bold>\<open>Theories and sources.\<close>
  \<^item> \<open>Prelude\<close>: C integers as words, \<open>size_t\<close> arithmetic on naturals with its wrap-around, block
    copies, ring buffers, byte order, error numbers, and the locale \<open>bounded_fifo\<close>, interpreted
    by the pipe buffer and by the loopback queue.
  \<^item> \<open>Pmm\<close>: \<open>kernel/src/mm/pmm.c\<close>. A region is the record \<open>bitmap_entry\<close>; the search
    \<open>paging_bitmap_find_free_in_range\<close> with its word and byte skips, \<open>pmm_alloc_pages\<close>,
    \<open>pmm_free_pages\<close>, \<open>pmm_init\<close> carry the names of the C functions.
  \<^item> \<open>Pipe\<close>: \<open>kernel/src/fs/pipe.c\<close>. \<open>pipe_state\<close> is the shared structure, \<open>pipe_read_turn\<close> and
    \<open>pipe_write_turn\<close> are one pass through the loops of \<open>pipe_read_inode\<close> and
    \<open>pipe_write_inode\<close>, the \<open>recheck\<close> functions their second look with interrupts off.
  \<^item> \<open>Clock\<close>: \<open>kernel/src/ACPI/impl/acpi_hpet.c\<close>, \<open>acpi_time.c\<close>, \<open>kernel/src/sched/clock.c\<close> and
    the clock calls of \<open>kernel/src/syscalls/impl/sys_clock.c\<close>.
  \<^item> \<open>Eventfd\<close> and \<open>Timerfd\<close>: \<open>kernel/src/fs/eventfd.c\<close>, the operations of both kinds of
    descriptor in the first theory, the timers in use in the second.
  \<^item> \<open>Netcore\<close>: \<open>kernel/src/net/net.c\<close> and \<open>ether.c\<close>; \<open>Arp\<close>: \<open>arp.c\<close>; \<open>Ipfrag\<close>:
    \<open>ipv4_frag.c\<close>; \<open>Ipv4\<close>: \<open>ipv4.c\<close>; \<open>Udp\<close>: \<open>udp.c\<close> and \<open>icmp.c\<close>.
  \<^item> \<open>Tcpcb\<close>: the connection block \<open>tcb\<close> of \<open>tcp_priv.h\<close>; \<open>Tcp\<close>: every operation of
    \<open>tcp_output.c\<close>, \<open>tcp_input.c\<close> and \<open>tcp.c\<close>; \<open>Tcprx\<close>, \<open>Tcptx\<close>, \<open>Tcpflow\<close>: the receiving side,
    the sending side and acknowledgements; \<open>Tcpstream\<close>: two ends and the network between
    them; \<open>Tcplife\<close>: the life of a block; \<open>Tcpfault\<close>: the two places where the code could stop.

  \<^bold>\<open>How code is translated.\<close>
  A structure is a record, an enumeration a datatype, a \<open>w\<close>-bit integer a \<open>w word\<close>; sizes that index
  memory are naturals with the wrap-around written out. A critical section under a spin lock is one
  state transformer. A return code is an integer, an error path a branch that returns it. Memory
  allocation is an oracle: a flag, or the list of what the next allocations give. The current
  time, the user memory a call reads, hardware registers, a pending signal and the drivers
  are arguments. Log output is left out.

  \<^bold>\<open>What the lemmas show.\<close>
  \<^item> \<open>Pmm\<close>: the search is a first-fit search; live blocks are disjoint over every history; the page
    count is exact; exactly when an allocation fails, and a reachable state where it fails for
    no good reason.
  \<^item> \<open>Pipe\<close>, \<open>Eventfd\<close>, \<open>Timerfd\<close>: over every interleaving of calls no byte, event or expiration is
    lost or counted twice, and nobody sleeps on a condition that holds; what reads and polls
    answer; the list the timer tick walks; double frees, spinning and wrap-around on error paths.
  \<^item> \<open>Clock\<close>: the extended counter is exact if read twice a turn; nanoseconds are monotone; FAT time
    stamps survive a round trip; a race that sets the clock ahead.
  \<^item> \<open>Arp\<close>, \<open>Ipfrag\<close>, \<open>Ipv4\<close>, \<open>Udp\<close>: the cache is sound; reassembly delivers exactly the packets that
    were sent, in any order of fragments; a payload sent over the loopback arrives unchanged;
    headers built by the output pass the input; fragments that do not belong together leak memory.
  \<^item> TCP: over a network that loses, repeats and reorders packets and forges acknowledgements,
    the reader sees a prefix of what was written; rings are never left; timers stay in range;
    no fault for a peer with a positive segment size, and a division by zero for a peer with none.
  The locale \<open>tcb_invariant\<close> reduces a property of a connection to the operations on one block; it is
  interpreted for the send stream, the receive view, well-formedness and freedom from faults.

  \<^bold>\<open>Loops.\<close>
  Loops are structural recursion or \<open>function\<close> with a termination proof, so no fuel limits them.
  Two exceptions: the loop over new data in \<open>tcp_push\<close> does not end for a segment size of zero,
  which the model reports as a fault in \<open>io_fault\<close> and \<open>Tcpfault\<close> excludes otherwise; the retry of a blocking
  call is the relation that takes its turns one by one. The compare-and-exchange loops of
  the HPET code are modelled by the turn that succeeds.

  \<^bold>\<open>Not modelled.\<close>
  Paging and address spaces, program loading, shared memory: their state is the memory the
  processor walks, and a model needs a semantics of that memory. Drivers, ACPI discovery, boot,
  interrupt entry: register access and assembly. The virtual file system, the disk file systems,
  sockets, Unix sockets, epoll, the scheduler, signals, the kernel heap, terminals and the system
  call layer: pure kernel logic that this library does not reach; where modelled code
  depends on them their answers are arguments.
\<close>

end
